(* ===== verification/Yume_Prelude.thy ===== *)
theory Yume_Prelude
  imports
    Main
    "HOL-Library.Word"
    "HOL-Library.Monad_Syntax"
    "HOL-Library.Multiset"
    "HOL-Library.List_Lexorder"
    "HOL-Library.Product_Lexorder"
begin

unbundle bit_operations_syntax

text \<open>
  What every component shares: the machine types, the result type of the fallible
  operations, memory accesses that record a read or write outside a buffer, the
  big-endian integer accesses of \<^verbatim>\<open>src/src/ytp/detail/byte_order.hpp\<close>, the standard
  library's sort, and the interface of a wire codec.

  Conventions of the whole development.
  \<^item> A byte buffer, a \<^verbatim>\<open>std::span\<close>, a \<^verbatim>\<open>std::array\<close> and the bytes of a \<^verbatim>\<open>std::string\<close> are
    lists of 8-bit words. Fixed-width integers are words of that width.
  \<^item> \<^verbatim>\<open>std::size_t\<close> values are natural numbers: every size the code computes is a sum of
    buffer sizes and protocol constants, far below the 64-bit range.
  \<^item> An operation that reads or writes a buffer by index has an option result. \<open>None\<close> is an
    access outside the buffer, which the language leaves undefined. That no decoder and no
    encoder ever returns \<open>None\<close> is proved for each of them.
    The same holds of a size difference that would wrap around (\<open>size_sub\<close>).
  \<^item> A refusal is \<open>Failure code offset\<close> inside the option, as the source's \<^verbatim>\<open>Result::Failure\<close>.
\<close>

section \<open>Machine types\<close>

type_synonym u8 = "8 word"
type_synonym u16 = "16 word"
type_synonym u32 = "32 word"
type_synonym u64 = "64 word"
type_synonym bytes = "u8 list"

definition ascii :: "string \<Rightarrow> bytes" where
  "ascii = map of_char"

lemma length_ascii [simp]: "length (ascii s) = length s"
  by (simp add: ascii_def)

section \<open>Results\<close>

text \<open>
  \<^verbatim>\<open>Result<T>\<close> of the codecs: a value, or an error code with the offset where the decoder
  stopped. \<^verbatim>\<open>Status\<close> is the result with no value.
\<close>

datatype ('e, 'a) result = Failure 'e nat | Success 'a

type_synonym 'e status = "('e, unit) result"

fun accepted :: "('e, 'a) result option \<Rightarrow> 'a option" where
  "accepted (Some (Success x)) = Some x"
| "accepted (Some (Failure e n)) = None"
| "accepted None = None"

lemma accepted_Some_iff [simp]: "accepted r = Some x \<longleftrightarrow> r = Some (Success x)"
  by (cases r rule: accepted.cases) auto

text \<open>A later step of a decoder succeeds, or leaves its buffer, only after this one succeeded.\<close>

lemma case_result_Success [simp]:
  "(case r of Failure e n \<Rightarrow> Some (Failure (g e n) (h e n)) | Success x \<Rightarrow> f x) = Some (Success y)
     \<longleftrightarrow> (\<exists>x. r = Success x \<and> f x = Some (Success y))"
  by (cases r) auto

lemma case_result_None [simp]:
  "(case r of Failure e n \<Rightarrow> Some (k e n) | Success x \<Rightarrow> f x) = None
     \<longleftrightarrow> (\<exists>x. r = Success x \<and> f x = None)"
  by (cases r) auto

lemma bind_None_iff: "Option.bind x f = None \<longleftrightarrow> x = None \<or> (\<exists>y. x = Some y \<and> f y = None)"
  by (cases x) auto

lemma not_NoneE: "x \<noteq> None \<Longrightarrow> (\<And>y. x = Some y \<Longrightarrow> P) \<Longrightarrow> P"
  by blast

text \<open>The first bytes of a buffer that is long enough, by name.\<close>

lemma list4E:
  assumes "4 \<le> length xs"
  obtains b0 b1 b2 b3 rest where "xs = b0 # b1 # b2 # b3 # rest"
  using assms by (auto simp: eval_nat_numeral Suc_le_length_iff)

lemma list8E:
  assumes "8 \<le> length xs"
  obtains b0 b1 b2 b3 b4 b5 b6 b7 rest where "xs = b0 # b1 # b2 # b3 # b4 # b5 # b6 # b7 # rest"
  using assms by (auto simp: eval_nat_numeral Suc_le_length_iff)

named_theorems access \<open>evaluation of checked buffer accesses\<close>
named_theorems wire \<open>the byte layout a writer produces\<close>

section \<open>Checked buffer accesses\<close>

definition byte_at :: "bytes \<Rightarrow> nat \<Rightarrow> u8 option" where
  "byte_at input i = (if i < length input then Some (input ! i) else None)"

definition put_byte :: "bytes \<Rightarrow> nat \<Rightarrow> u8 \<Rightarrow> bytes option" where
  "put_byte output i v = (if i < length output then Some (output[i := v]) else None)"

definition subspan :: "bytes \<Rightarrow> nat \<Rightarrow> nat \<Rightarrow> bytes option" where
  "subspan input offset n =
     (if offset + n \<le> length input then Some (take n (drop offset input)) else None)"

definition copy_to :: "bytes \<Rightarrow> nat \<Rightarrow> bytes \<Rightarrow> bytes option" where
  "copy_to output offset source =
     (if offset + length source \<le> length output
      then Some (take offset output @ source @ drop (offset + length source) output)
      else None)"

text \<open>
  A \<^verbatim>\<open>std::size_t\<close> difference, where the code relies on it not wrapping around; \<open>None\<close> if it would.
\<close>

definition size_sub :: "nat \<Rightarrow> nat \<Rightarrow> nat option" where
  "size_sub a b = (if b \<le> a then Some (a - b) else None)"

lemma size_sub_le [simp, access]: "b \<le> a \<Longrightarrow> size_sub a b = Some (a - b)"
  by (simp add: size_sub_def)

lemma size_sub_eq_Some: "size_sub a b = Some c \<longleftrightarrow> b \<le> a \<and> c = a - b"
  by (auto simp: size_sub_def)

lemma byte_at_in [simp, access]: "i < length input \<Longrightarrow> byte_at input i = Some (input ! i)"
  by (simp add: byte_at_def)

lemma byte_at_eq_Some [simp]: "byte_at input i = Some b \<longleftrightarrow> i < length input \<and> input ! i = b"
  by (auto simp: byte_at_def)

lemma subspan_in [simp, access]:
  "offset + n \<le> length input \<Longrightarrow> subspan input offset n = Some (take n (drop offset input))"
  by (simp add: subspan_def)

lemma subspan_append [access]:
  assumes "offset = length pre" and "n = length mid"
  shows "subspan (pre @ mid @ post) offset n = Some mid"
  using assms by (simp add: subspan_def)

lemma byte_at_append [access]:
  assumes "offset = length pre"
  shows "byte_at (pre @ b # post) offset = Some b"
  using assms by (simp add: byte_at_def nth_append)

lemma put_byte_copy: "put_byte output i v = copy_to output i [v]"
  by (auto simp: put_byte_def copy_to_def upd_conv_take_nth_drop)

text \<open>
  Every encoder fills its buffer from front to back. In this form a buffer is what has been
  written followed by what is left of it, and each write extends the first part.
\<close>

lemma copy_to_next [wire]:
  assumes "offset = length pre" and "length source \<le> length rest"
  shows "copy_to (pre @ rest) offset source = Some ((pre @ source) @ drop (length source) rest)"
  using assms by (simp add: copy_to_def)

lemma put_byte_next [wire]:
  assumes "offset = length pre" and "1 \<le> length rest"
  shows "put_byte (pre @ rest) offset v = Some ((pre @ [v]) @ drop 1 rest)"
  using copy_to_next [of offset pre "[v]" rest] assms by (simp add: put_byte_copy)

lemma put_byte_first [wire]:
  "1 \<le> length output \<Longrightarrow> put_byte output 0 v = Some ([v] @ drop 1 output)"
  using put_byte_next [of 0 "[]" "output" v] by simp

lemma copy_to_first [wire]:
  "length source \<le> length output \<Longrightarrow>
   copy_to output 0 source = Some (source @ drop (length source) output)"
  using copy_to_next [of 0 "[]" source "output"] by simp

section \<open>Big-endian integers: byte\_order.hpp\<close>

definition read_u16_be :: "bytes \<Rightarrow> nat \<Rightarrow> u16 option" where
  "read_u16_be input offset =
     do { b0 \<leftarrow> byte_at input offset;
          b1 \<leftarrow> byte_at input (offset + 1);
          Some (push_bit 8 (ucast b0) OR ucast b1) }"

definition read_u32_be :: "bytes \<Rightarrow> nat \<Rightarrow> u32 option" where
  "read_u32_be input offset =
     do { b0 \<leftarrow> byte_at input offset;
          b1 \<leftarrow> byte_at input (offset + 1);
          b2 \<leftarrow> byte_at input (offset + 2);
          b3 \<leftarrow> byte_at input (offset + 3);
          Some (push_bit 24 (ucast b0) OR push_bit 16 (ucast b1)
                OR push_bit 8 (ucast b2) OR ucast b3) }"

definition write_u16_be :: "bytes \<Rightarrow> nat \<Rightarrow> u16 \<Rightarrow> bytes option" where
  "write_u16_be output offset v =
     do { output \<leftarrow> put_byte output offset (ucast (drop_bit 8 v));
          put_byte output (offset + 1) (ucast v) }"

definition write_u32_be :: "bytes \<Rightarrow> nat \<Rightarrow> u32 \<Rightarrow> bytes option" where
  "write_u32_be output offset v =
     do { output \<leftarrow> put_byte output offset (ucast (drop_bit 24 v));
          output \<leftarrow> put_byte output (offset + 1) (ucast (drop_bit 16 v));
          output \<leftarrow> put_byte output (offset + 2) (ucast (drop_bit 8 v));
          put_byte output (offset + 3) (ucast v) }"

text \<open>The bytes of an integer in network order, and the integer of two or four bytes.\<close>

definition be16 :: "u16 \<Rightarrow> bytes" where
  "be16 v = [ucast (drop_bit 8 v), ucast v]"

definition be32 :: "u32 \<Rightarrow> bytes" where
  "be32 v = [ucast (drop_bit 24 v), ucast (drop_bit 16 v), ucast (drop_bit 8 v), ucast v]"

definition of_be16 :: "u8 \<Rightarrow> u8 \<Rightarrow> u16" where
  "of_be16 b0 b1 = push_bit 8 (ucast b0) OR ucast b1"

definition of_be32 :: "u8 \<Rightarrow> u8 \<Rightarrow> u8 \<Rightarrow> u8 \<Rightarrow> u32" where
  "of_be32 b0 b1 b2 b3 =
     push_bit 24 (ucast b0) OR push_bit 16 (ucast b1) OR push_bit 8 (ucast b2) OR ucast b3"

lemma length_be16 [simp]: "length (be16 v) = 2"
  by (simp add: be16_def)

lemma length_be32 [simp]: "length (be32 v) = 4"
  by (simp add: be32_def)

lemma byte_bit_high [simp]: "8 \<le> n \<Longrightarrow> \<not> bit (b :: u8) n"
  using bit_imp_le_length [of b n] by auto

lemma be16_of_be16 [simp]: "be16 (of_be16 a b) = [a, b]"
  by (auto simp: be16_def of_be16_def intro!: bit_word_eqI simp: bit_simps)

lemma of_be16_be16 [simp]: "of_be16 (ucast (drop_bit 8 v)) (ucast v) = v"
  by (rule bit_word_eqI) (auto simp: of_be16_def bit_simps)

lemma be32_of_be32 [simp]: "be32 (of_be32 a b c d) = [a, b, c, d]"
  by (auto simp: be32_def of_be32_def intro!: bit_word_eqI simp: bit_simps)

lemma of_be32_be32 [simp]:
  "of_be32 (ucast (drop_bit 24 v)) (ucast (drop_bit 16 v)) (ucast (drop_bit 8 v)) (ucast v) = v"
proof (rule bit_word_eqI)
  fix n assume "n < LENGTH(32)"
  then consider "n < 8" | "8 \<le> n" "n < 16" | "16 \<le> n" "n < 24" | "24 \<le> n" "n < 32"
    by fastforce
  then show "bit (of_be32 (ucast (drop_bit 24 v)) (ucast (drop_bit 16 v)) (ucast (drop_bit 8 v))
      (ucast v)) n = bit v n"
    by cases (auto simp: of_be32_def bit_simps)
qed


text \<open>A read inside the buffer, and a read of what a writer put at that place.\<close>

lemma read_u16_be_in [simp, access]:
  "offset + 1 < length input \<Longrightarrow>
   read_u16_be input offset = Some (of_be16 (input ! offset) (input ! (offset + 1)))"
  by (simp add: read_u16_be_def of_be16_def)

lemma read_u32_be_in [simp, access]:
  "offset + 3 < length input \<Longrightarrow>
   read_u32_be input offset
     = Some (of_be32 (input ! offset) (input ! (offset + 1))
                     (input ! (offset + 2)) (input ! (offset + 3)))"
  by (simp add: read_u32_be_def of_be32_def)

lemma read_u16_be_append [access]:
  assumes "offset = length pre"
  shows "read_u16_be (pre @ be16 v @ post) offset = Some v"
proof -
  have "v = push_bit 8 (ucast (ucast (drop_bit 8 v) :: u8)) OR ucast (ucast v :: u8)"
    using of_be16_be16 [of v] by (simp only: of_be16_def)
  with assms show ?thesis
    by (simp add: read_u16_be_def be16_def byte_at_def nth_append)
qed

lemma read_u32_be_append [access]:
  assumes "offset = length pre"
  shows "read_u32_be (pre @ be32 v @ post) offset = Some v"
proof -
  have "v = push_bit 24 (ucast (ucast (drop_bit 24 v) :: u8))
      OR push_bit 16 (ucast (ucast (drop_bit 16 v) :: u8))
      OR push_bit 8 (ucast (ucast (drop_bit 8 v) :: u8)) OR ucast (ucast v :: u8)"
    using of_be32_be32 [of v] by (simp only: of_be32_def)
  with assms show ?thesis
    by (simp add: read_u32_be_def be32_def byte_at_def nth_append)
qed

lemma write_u16_be_next [wire]:
  assumes "offset = length pre" and "2 \<le> length rest"
  shows "write_u16_be (pre @ rest) offset v = Some ((pre @ be16 v) @ drop 2 rest)"
  using assms
  by (simp add: write_u16_be_def wire be16_def del: append_assoc) (simp add: numeral_2_eq_2)

lemma write_u32_be_next [wire]:
  assumes "offset = length pre" and "4 \<le> length rest"
  shows "write_u32_be (pre @ rest) offset v = Some ((pre @ be32 v) @ drop 4 rest)"
  using assms
  by (simp add: write_u32_be_def wire be32_def del: append_assoc) (simp add: numeral_eq_Suc)

lemma write_u32_be_first [wire]:
  "4 \<le> length output \<Longrightarrow> write_u32_be output 0 v = Some (be32 v @ drop 4 output)"
  using write_u32_be_next [of 0 "[]" "output" v] by simp

lemma be16_inject [simp]: "be16 v = be16 w \<longleftrightarrow> v = w"
proof
  assume "be16 v = be16 w"
  then have "read_u16_be ([] @ be16 v @ []) 0 = read_u16_be ([] @ be16 w @ []) 0"
    by (rule arg_cong)
  then show "v = w" by (simp only: read_u16_be_append list.size option.inject)
qed (rule arg_cong)

lemma be32_inject [simp]: "be32 v = be32 w \<longleftrightarrow> v = w"
proof
  assume "be32 v = be32 w"
  then have "read_u32_be ([] @ be32 v @ []) 0 = read_u32_be ([] @ be32 w @ []) 0"
    by (rule arg_cong)
  then show "v = w" by (simp only: read_u32_be_append list.size option.inject)
qed (rule arg_cong)

lemma be16_append_eq [simp]: "be16 v @ xs = be16 w @ ys \<longleftrightarrow> v = w \<and> xs = ys"
  by (simp add: append_eq_append_conv)

lemma be32_append_eq [simp]: "be32 v @ xs = be32 w @ ys \<longleftrightarrow> v = w \<and> xs = ys"
  by (simp add: append_eq_append_conv)

lemma be16_eq_list: "[a, b] = be16 v \<longleftrightarrow> of_be16 a b = v"
  using be16_inject [of "of_be16 a b" v] by simp

lemma be32_eq_list: "[a, b, c, d] = be32 v \<longleftrightarrow> of_be32 a b c d = v"
  using be32_inject [of "of_be32 a b c d" v] by simp

text \<open>A size that fits keeps its value through the cast to a narrower integer.\<close>

lemma unat_of_size16 [simp]: "n < 65536 \<Longrightarrow> unat (of_nat n :: u16) = n"
  by (simp add: unat_of_nat)

lemma unat_of_size32 [simp]: "n < 4294967296 \<Longrightarrow> unat (of_nat n :: u32) = n"
  by (simp add: unat_of_nat)

lemma unat_of_size8 [simp]: "n < 256 \<Longrightarrow> unat (of_nat n :: u8) = n"
  by (simp add: unat_of_nat)

lemma unat_u16_less [simp]: "unat (v :: u16) < 65536"
  using unsigned_less [of v] by simp

lemma unat_u8_less [simp]: "unat (v :: u8) < 256"
  using unsigned_less [of v] by simp

text \<open>Joining a shifted value with one that fits below it is addition.\<close>

lemma or_shifted:
  fixes h l :: "'a :: len word"
  assumes "unat l < 2 ^ k"
  shows "push_bit k h OR l = push_bit k h + l"
proof (rule disjunctive_add [symmetric])
  fix n
  have "\<not> bit l n" if "k \<le> n"
  proof -
    have "bit (unat l) n \<longleftrightarrow> False"
      using less_le_trans [OF assms power_increasing [OF that, of "2 :: nat"]]
      by (simp add: bit_iff_odd)
    then show ?thesis by (simp add: bit_unsigned_iff)
  qed
  then show "\<not> bit (push_bit k h) n \<or> \<not> bit l n"
    by (auto simp: bit_push_bit_iff not_le)
qed

section \<open>Lists\<close>

text \<open>The fields of a text between separators: \<open>split_on\<close> of no field is one empty field.\<close>

fun split_on :: "'a \<Rightarrow> 'a list \<Rightarrow> 'a list list" where
  "split_on sep [] = [[]]"
| "split_on sep (x # xs) =
     (if x = sep then [] # split_on sep xs
      else case split_on sep xs of [] \<Rightarrow> [[x]] | f # fs \<Rightarrow> (x # f) # fs)"

lemma split_on_ne [simp]: "split_on sep xs \<noteq> []"
  by (induction xs) (auto split: list.splits)

lemma split_on_plain: "sep \<notin> set xs \<Longrightarrow> split_on sep xs = [xs]"
  by (induction xs) auto

lemma split_on_sep:
  "sep \<notin> set pre \<Longrightarrow> split_on sep (pre @ sep # rest) = pre # split_on sep rest"
  by (induction pre) auto

text \<open>\<^verbatim>\<open>string_view::find\<close> of a character: the index of its first occurrence.\<close>

fun find_byte :: "'a \<Rightarrow> 'a list \<Rightarrow> nat option" where
  "find_byte c [] = None"
| "find_byte c (x # xs) = (if x = c then Some 0 else map_option Suc (find_byte c xs))"

lemma find_byte_None [simp]: "find_byte c xs = None \<longleftrightarrow> c \<notin> set xs"
  by (induction xs) auto

lemma find_byte_first [simp]: "c \<notin> set pre \<Longrightarrow> find_byte c (pre @ c # post) = Some (length pre)"
  by (induction pre) auto

lemma find_byte_SomeD:
  "find_byte c xs = Some i \<Longrightarrow> xs = take i xs @ c # drop (i + 1) xs \<and> c \<notin> set (take i xs) \<and> i < length xs"
  by (induction xs arbitrary: i) (auto split: if_splits)

text \<open>An array element read or written by index; \<open>None\<close> outside the array.\<close>

definition elem_at :: "'a list \<Rightarrow> nat \<Rightarrow> 'a option" where
  "elem_at xs i = (if i < length xs then Some (xs ! i) else None)"

definition put_elem :: "'a list \<Rightarrow> nat \<Rightarrow> 'a \<Rightarrow> 'a list option" where
  "put_elem xs i v = (if i < length xs then Some (xs[i := v]) else None)"

lemma elem_at_in [simp, access]: "i < length xs \<Longrightarrow> elem_at xs i = Some (xs ! i)"
  by (simp add: elem_at_def)

lemma put_elem_in [simp, access]: "i < length xs \<Longrightarrow> put_elem xs i v = Some (xs[i := v])"
  by (simp add: put_elem_def)

text \<open>
  \<^verbatim>\<open>std::sort\<close> with a strict comparison. The standard fixes the result up to the order of
  equivalent elements; insertion keeps that order, and where every two elements differ there
  is only one sorted permutation (\<open>sort_key_unique\<close>).
\<close>

fun insert_by :: "('a \<Rightarrow> 'a \<Rightarrow> bool) \<Rightarrow> 'a \<Rightarrow> 'a list \<Rightarrow> 'a list" where
  "insert_by lt x [] = [x]"
| "insert_by lt x (y # ys) = (if lt y x then y # insert_by lt x ys else x # y # ys)"

definition std_sort :: "('a \<Rightarrow> 'a \<Rightarrow> bool) \<Rightarrow> 'a list \<Rightarrow> 'a list" where
  "std_sort lt xs = foldr (insert_by lt) xs []"

lemma insert_by_key:
  assumes "\<And>x y. lt x y \<longleftrightarrow> key x < (key y :: 'k :: linorder)"
  shows "insert_by lt x ys = insort_key key x ys"
  by (induction ys) (auto simp: assms)

lemma std_sort_key:
  assumes "\<And>x y. lt x y \<longleftrightarrow> key x < (key y :: 'k :: linorder)"
  shows "std_sort lt xs = sort_key key xs"
proof -
  have "insert_by lt = insort_key key"
    by (intro ext insert_by_key assms)
  then show ?thesis by (simp add: std_sort_def sort_key_def)
qed

lemma sort_key_unique:
  assumes "mset ys = mset xs" and "sorted_wrt (\<lambda>x y. key x < key y) ys"
  shows "ys = sort_key key xs"
proof (rule properties_for_sort_key [symmetric])
  show "mset ys = mset xs" by (rule assms(1))
  have "sorted_wrt (\<lambda>x y. key x \<le> key y) ys"
    by (rule sorted_wrt_mono_rel [OF _ assms(2)]) auto
  then show "sorted (map key ys)" by (simp add: sorted_map)
  have "distinct (map key ys)"
    using assms(2) by (induction ys) auto
  then have one: "x = y" if "x \<in> set ys" "y \<in> set ys" "key x = key y" for x y
    using that by (simp add: distinct_map inj_on_def)
  fix k assume k: "k \<in> set ys"
  have same: "filter (\<lambda>x. key k = key x) zs = filter (\<lambda>x. x = k) zs" if "set zs = set ys" for zs
    using one k that by (intro filter_cong) auto
  have "set ys = set xs" by (rule mset_eq_setD) (rule assms(1))
  moreover have "filter (\<lambda>x. x = k) ys = filter (\<lambda>x. x = k) xs"
  proof -
    have "filter (\<lambda>x. x = k) zs = replicate (count (mset zs) k) k" for zs
      by (induction zs) auto
    with assms(1) show ?thesis by simp
  qed
  ultimately show "filter (\<lambda>x. key k = key x) ys = filter (\<lambda>x. key k = key x) xs"
    using same [of ys] same [of xs] by simp
qed

lemma sort_key_strict:
  assumes "sorted_wrt (\<lambda>x y. key x < key y) xs"
  shows "sort_key key xs = xs"
  using sort_key_unique [OF refl assms] by simp

lemma distinct_sort_key [simp]: "distinct (map key (sort_key key xs)) \<longleftrightarrow> distinct (map key xs)"
  by (rule mset_eq_imp_distinct_iff) simp

end
