(* ===== verification/Codec_Interface.thy ===== *)
theory Codec_Interface
  imports Yume_Prelude
begin

text \<open>
  The contract every YUME wire codec keeps. A codec is an encoder that refuses values the
  protocol does not allow and a decoder that refuses bytes no encoder writes. \<open>valid\<close> holds
  of the values the C++ type can hold (an array has its declared length); \<open>norm\<close> is the form
  in which a decoder returns a value, which differs from the value encoded only where the
  encoder sorts. The four laws are: neither side ever accesses a buffer out of range, decoding
  what was encoded gives the value back, and what a decoder accepts is the one encoding of
  the value it returns.
\<close>

locale wire_codec =
  fixes encode :: "'a \<Rightarrow> ('e, bytes) result option"
    and decode :: "bytes \<Rightarrow> ('e, 'a) result option"
    and valid :: "'a \<Rightarrow> bool"
    and norm :: "'a \<Rightarrow> 'a"
  assumes encode_in_bounds: "valid x \<Longrightarrow> encode x \<noteq> None"
    and decode_in_bounds: "decode bs \<noteq> None"
    and decode_valid: "decode bs = Some (Success x) \<Longrightarrow> valid x"
    and decode_encode:
      "valid x \<Longrightarrow> encode x = Some (Success bs) \<Longrightarrow> decode bs = Some (Success (norm x))"
    and encode_decode: "decode bs = Some (Success x) \<Longrightarrow> encode x = Some (Success bs)"
begin

lemma decode_unique:
  "decode a = Some (Success x) \<Longrightarrow> decode b = Some (Success x) \<Longrightarrow> a = b"
  using encode_decode [of a x] encode_decode [of b x] by simp

lemma norm_decoded: "decode bs = Some (Success x) \<Longrightarrow> norm x = x"
  using decode_encode [OF decode_valid encode_decode] by fastforce

lemma encode_norm:
  "valid x \<Longrightarrow> encode x = Some (Success bs) \<Longrightarrow> encode (norm x) = Some (Success bs)"
  using decode_encode encode_decode by blast

lemma norm_idem:
  "valid x \<Longrightarrow> encode x = Some (Success bs) \<Longrightarrow> norm (norm x) = norm x"
  using decode_encode norm_decoded by blast

lemma accepted_iff:
  "(\<exists>x. decode bs = Some (Success x)) \<longleftrightarrow> (\<exists>x. valid x \<and> encode x = Some (Success bs))"
  using decode_encode encode_decode decode_valid by blast

lemma refused_iff:
  "(\<exists>e n. decode bs = Some (Failure e n)) \<longleftrightarrow> (\<nexists>x. valid x \<and> encode x = Some (Success bs))"
proof -
  have "(\<exists>e n. decode bs = Some (Failure e n)) \<longleftrightarrow> (\<nexists>x. decode bs = Some (Success x))"
    using decode_in_bounds [of bs]
    by (cases "decode bs"; cases "the (decode bs)") auto
  then show ?thesis by (simp add: accepted_iff)
qed

lemma encode_eq_iff:
  assumes "valid x" and "valid y"
    and "encode x = Some (Success a)" and "encode y = Some (Success b)"
  shows "a = b \<longleftrightarrow> norm x = norm y"
proof
  assume "a = b"
  with assms show "norm x = norm y"
    using decode_encode [of x a] decode_encode [of y b] by simp
next
  assume "norm x = norm y"
  with assms show "a = b"
    using encode_norm [of x a] encode_norm [of y b] by simp
qed

lemma decode_iff:
  "decode bs = Some (Success x) \<longleftrightarrow> valid x \<and> norm x = x \<and> encode x = Some (Success bs)"
  using decode_encode encode_decode decode_valid norm_decoded by metis

end

text \<open>A codec whose decoder returns exactly what was encoded.\<close>

locale exact_codec = wire_codec encode decode valid "\<lambda>x. x"
  for encode :: "'a \<Rightarrow> ('e, bytes) result option"
    and decode :: "bytes \<Rightarrow> ('e, 'a) result option"
    and valid :: "'a \<Rightarrow> bool"
begin

lemma round_trip: "valid x \<Longrightarrow> encode x = Some (Success bs) \<Longrightarrow> decode bs = Some (Success x)"
  by (rule decode_encode)

lemma encode_inj:
  "valid x \<Longrightarrow> valid y \<Longrightarrow> encode x = Some (Success bs) \<Longrightarrow> encode y = Some (Success bs) \<Longrightarrow> x = y"
  using encode_eq_iff by blast

lemma exact_iff:
  "decode bs = Some (Success x) \<longleftrightarrow> valid x \<and> encode x = Some (Success bs)"
  using decode_iff [of bs x] by simp

end

end
