(* ===== verification/Ytp_Frame.thy ===== *)
theory Ytp_Frame
  imports Codec_Interface
begin

text \<open>
  YTP/1 record framing (\<^verbatim>\<open>src/src/ytp/protocol.hpp\<close>, \<^verbatim>\<open>src/src/ytp/protocol.cpp\<close>): error codes,
  endpoint roles, stream identifiers, the 12-byte frame header, whole records and credit
  updates. A scoped enumeration \<^verbatim>\<open>E\<close> is a datatype with the source's enumerators, prefixed, and
  one more constructor for the values a cast from a byte can produce outside them; the
  cast is \<open>E_of_u8\<close>.
\<close>

section \<open>Error codes and constants\<close>

datatype ErrorCode =
    Ok | Truncated | TrailingData | UnsupportedVersion | UnsupportedRecordType | InvalidFlags
  | PayloadTooLarge | InvalidLength | InvalidStreamId | WrongStreamClass | InvalidEnum
  | InvalidUtf8 | InvalidServiceName | InvalidDestination | InvalidPort | NonCanonical
  | DuplicateField | OutOfOrderField | UnknownCriticalField | TooManyFields | MissingField
  | InvalidField | CreditOutOfRange | OutputTooSmall | OverlappingBuffer | IntegerOverflow

type_synonym Status = "ErrorCode status"
type_synonym 'a Result = "(ErrorCode, 'a) result"

definition kWireVersion :: u8 where "kWireVersion = 1"
definition kFrameHeaderSize :: nat where "kFrameHeaderSize = 12"
definition kMaxStreamId :: u32 where "kMaxStreamId = 0x7fffffff"
definition kDefaultMaxFramePayload :: u32 where "kDefaultMaxFramePayload = push_bit 20 1"

datatype EndpointRole = Role_Client | Role_Server | Role_other u8

definition EndpointRole_of_u8 :: "u8 \<Rightarrow> EndpointRole" where
  "EndpointRole_of_u8 v = (if v = 1 then Role_Client else if v = 2 then Role_Server else Role_other v)"

fun u8_of_EndpointRole :: "EndpointRole \<Rightarrow> u8" where
  "u8_of_EndpointRole Role_Client = 1"
| "u8_of_EndpointRole Role_Server = 2"
| "u8_of_EndpointRole (Role_other v) = v"

section \<open>Stream identifiers\<close>

datatype StreamId = StreamId (stream_value: u32)

definition StreamId_Control :: StreamId where
  "StreamId_Control = StreamId 0"

definition StreamId_FromWire :: "u32 \<Rightarrow> StreamId Result" where
  "StreamId_FromWire v = (if v > kMaxStreamId then Failure InvalidStreamId 0 else Success (StreamId v))"

definition is_control :: "StreamId \<Rightarrow> bool" where
  "is_control s \<longleftrightarrow> stream_value s = 0"

definition is_application :: "StreamId \<Rightarrow> bool" where
  "is_application s \<longleftrightarrow> stream_value s \<noteq> 0"

section \<open>Record types\<close>

datatype RecordType =
    RT_Auth | RT_AuthResult | RT_Capabilities | RT_Open | RT_Data | RT_Packet | RT_Close
  | RT_ConnectionCredit | RT_StreamCredit | RT_RekeyInit | RT_RekeyAck | RT_Ping | RT_Pong
  | RT_other u8

definition RecordType_of_u8 :: "u8 \<Rightarrow> RecordType" where
  "RecordType_of_u8 v =
     (if v = 1 then RT_Auth else if v = 2 then RT_AuthResult else if v = 3 then RT_Capabilities
      else if v = 4 then RT_Open else if v = 5 then RT_Data else if v = 6 then RT_Packet
      else if v = 7 then RT_Close else if v = 8 then RT_ConnectionCredit
      else if v = 9 then RT_StreamCredit else if v = 10 then RT_RekeyInit
      else if v = 11 then RT_RekeyAck else if v = 12 then RT_Ping
      else if v = 13 then RT_Pong else RT_other v)"

fun u8_of_RecordType :: "RecordType \<Rightarrow> u8" where
  "u8_of_RecordType RT_Auth = 1"
| "u8_of_RecordType RT_AuthResult = 2"
| "u8_of_RecordType RT_Capabilities = 3"
| "u8_of_RecordType RT_Open = 4"
| "u8_of_RecordType RT_Data = 5"
| "u8_of_RecordType RT_Packet = 6"
| "u8_of_RecordType RT_Close = 7"
| "u8_of_RecordType RT_ConnectionCredit = 8"
| "u8_of_RecordType RT_StreamCredit = 9"
| "u8_of_RecordType RT_RekeyInit = 10"
| "u8_of_RecordType RT_RekeyAck = 11"
| "u8_of_RecordType RT_Ping = 12"
| "u8_of_RecordType RT_Pong = 13"
| "u8_of_RecordType (RT_other v) = v"

fun IsKnownRecordType :: "RecordType \<Rightarrow> bool" where
  "IsKnownRecordType (RT_other v) = False"
| "IsKnownRecordType _ = True"

fun IsControlRecord :: "RecordType \<Rightarrow> bool" where
  "IsControlRecord RT_Auth = True"
| "IsControlRecord RT_AuthResult = True"
| "IsControlRecord RT_Capabilities = True"
| "IsControlRecord RT_ConnectionCredit = True"
| "IsControlRecord RT_RekeyInit = True"
| "IsControlRecord RT_RekeyAck = True"
| "IsControlRecord RT_Ping = True"
| "IsControlRecord RT_Pong = True"
| "IsControlRecord RT_Open = False"
| "IsControlRecord RT_Data = False"
| "IsControlRecord RT_Packet = False"
| "IsControlRecord RT_Close = False"
| "IsControlRecord RT_StreamCredit = False"
| "IsControlRecord (RT_other v) = False"

section \<open>Frame headers and records\<close>

record FrameHeader =
  fh_type :: RecordType
  fh_flags :: u16
  fh_stream_id :: StreamId
  fh_payload_length :: u32

record RecordView =
  rv_header :: FrameHeader
  rv_payload :: bytes

definition ValidateFrameHeader :: "FrameHeader \<Rightarrow> u32 \<Rightarrow> Status" where
  "ValidateFrameHeader header max_payload =
     (if \<not> IsKnownRecordType (fh_type header) then Failure UnsupportedRecordType 1
      else if fh_flags header \<noteq> 0 then Failure InvalidFlags 2
      else if stream_value (fh_stream_id header) > kMaxStreamId then Failure InvalidStreamId 4
      else if fh_payload_length header > max_payload then Failure PayloadTooLarge 8
      else if IsControlRecord (fh_type header) \<noteq> is_control (fh_stream_id header)
        then Failure WrongStreamClass 4
      else Success ())"

text \<open>The encoder writes into the caller's 12 bytes: its result is a status and the buffer.\<close>

definition EncodeFrameHeader :: "FrameHeader \<Rightarrow> bytes \<Rightarrow> u32 \<Rightarrow> (Status \<times> bytes) option" where
  "EncodeFrameHeader header output max_payload =
     (case ValidateFrameHeader header max_payload of
        Failure e n \<Rightarrow> Some (Failure e n, output)
      | Success _ \<Rightarrow> do {
          output \<leftarrow> put_byte output 0 kWireVersion;
          output \<leftarrow> put_byte output 1 (u8_of_RecordType (fh_type header));
          output \<leftarrow> write_u16_be output 2 (fh_flags header);
          output \<leftarrow> write_u32_be output 4 (stream_value (fh_stream_id header));
          output \<leftarrow> write_u32_be output 8 (fh_payload_length header);
          Some (Success (), output)
        })"

definition DecodeFrameHeader :: "bytes \<Rightarrow> u32 \<Rightarrow> FrameHeader Result option" where
  "DecodeFrameHeader input max_payload =
     (if length input < kFrameHeaderSize then Some (Failure Truncated (length input))
      else if length input > kFrameHeaderSize then Some (Failure TrailingData kFrameHeaderSize)
      else do {
        version \<leftarrow> byte_at input 0;
        if version \<noteq> kWireVersion then Some (Failure UnsupportedVersion 0)
        else do {
          raw_type \<leftarrow> byte_at input 1;
          let type = RecordType_of_u8 raw_type;
          if \<not> IsKnownRecordType type then Some (Failure UnsupportedRecordType 1)
          else do {
            raw_stream \<leftarrow> read_u32_be input 4;
            case StreamId_FromWire raw_stream of
              Failure e _ \<Rightarrow> Some (Failure e 4)
            | Success stream_id \<Rightarrow> do {
                flags \<leftarrow> read_u16_be input 2;
                payload_length \<leftarrow> read_u32_be input 8;
                let header = \<lparr>fh_type = type, fh_flags = flags, fh_stream_id = stream_id,
                              fh_payload_length = payload_length\<rparr>;
                case ValidateFrameHeader header max_payload of
                  Failure e n \<Rightarrow> Some (Failure e n)
                | Success _ \<Rightarrow> Some (Success header)
              }
          }
        }
      })"

definition DecodeRecord :: "bytes \<Rightarrow> u32 \<Rightarrow> RecordView Result option" where
  "DecodeRecord input max_payload =
     (if length input < kFrameHeaderSize then Some (Failure Truncated (length input))
      else do {
        head \<leftarrow> subspan input 0 kFrameHeaderSize;
        decoded \<leftarrow> DecodeFrameHeader head max_payload;
        case decoded of
          Failure e n \<Rightarrow> Some (Failure e n)
        | Success header \<Rightarrow> do {
            let expected = kFrameHeaderSize + unat (fh_payload_length header);
            if length input < expected then Some (Failure Truncated (length input))
            else if length input > expected then Some (Failure TrailingData expected)
            else do {
              payload \<leftarrow> subspan input kFrameHeaderSize (length input - kFrameHeaderSize);
              Some (Success \<lparr>rv_header = header, rv_payload = payload\<rparr>)
            }
          }
      })"

section \<open>Credit updates\<close>

definition kMaxCreditIncrement :: u32 where
  "kMaxCreditIncrement = push_bit 30 1"

definition EncodeCreditUpdate :: "u32 \<Rightarrow> bytes Result option" where
  "EncodeCreditUpdate increment =
     (if increment = 0 \<or> increment > kMaxCreditIncrement then Some (Failure CreditOutOfRange 0)
      else do {
        output \<leftarrow> write_u32_be (replicate 4 0) 0 increment;
        Some (Success output)
      })"

definition DecodeCreditUpdate :: "bytes \<Rightarrow> u32 Result option" where
  "DecodeCreditUpdate payload =
     (if length payload < 4 then Some (Failure Truncated (length payload))
      else if length payload > 4 then Some (Failure TrailingData 4)
      else do {
        increment \<leftarrow> read_u32_be payload 0;
        if increment = 0 \<or> increment > kMaxCreditIncrement then Some (Failure CreditOutOfRange 0)
        else Some (Success increment)
      })"


section \<open>Enumeration casts\<close>

lemma u8_of_RecordType_of_u8 [simp]: "u8_of_RecordType (RecordType_of_u8 v) = v"
  by (simp add: RecordType_of_u8_def)

lemma RecordType_of_u8_of [simp]:
  "IsKnownRecordType t \<Longrightarrow> RecordType_of_u8 (u8_of_RecordType t) = t"
  by (cases t) (simp_all add: RecordType_of_u8_def)

lemma u8_of_EndpointRole_of_u8 [simp]: "u8_of_EndpointRole (EndpointRole_of_u8 v) = v"
  by (simp add: EndpointRole_of_u8_def)

section \<open>The frame header codec\<close>

text \<open>
  The canonical header, in network byte order: version, record type, flags, stream, length.
\<close>

definition frame_bytes :: "FrameHeader \<Rightarrow> bytes" where
  "frame_bytes h =
     [kWireVersion, u8_of_RecordType (fh_type h)] @ be16 (fh_flags h)
     @ be32 (stream_value (fh_stream_id h)) @ be32 (fh_payload_length h)"

lemma length_frame_bytes [simp]: "length (frame_bytes h) = 12"
  by (simp add: frame_bytes_def)

lemma frame_bytes_explicit:
  "frame_bytes \<lparr>fh_type = RecordType_of_u8 t, fh_flags = of_be16 f0 f1,
     fh_stream_id = StreamId (of_be32 s0 s1 s2 s3), fh_payload_length = of_be32 l0 l1 l2 l3\<rparr>
   = [kWireVersion, t, f0, f1, s0, s1, s2, s3, l0, l1, l2, l3]"
  by (simp add: frame_bytes_def)

lemma EncodeFrameHeader_layout:
  assumes "length output = 12"
  shows "EncodeFrameHeader h output max_payload =
     Some (case ValidateFrameHeader h max_payload of
             Failure e n \<Rightarrow> (Failure e n, output)
           | Success _ \<Rightarrow> (Success (), frame_bytes h))"
  using assms
  by (simp add: EncodeFrameHeader_def frame_bytes_def wire split: result.split
      del: append_assoc append.simps)

lemma list12E:
  assumes "length xs = 12"
  obtains b0 b1 b2 b3 b4 b5 b6 b7 b8 b9 b10 b11
  where "xs = [b0, b1, b2, b3, b4, b5, b6, b7, b8, b9, b10, b11]"
  using assms by (auto simp: eval_nat_numeral length_Suc_conv)

lemma DecodeFrameHeader_explicit:
  "DecodeFrameHeader [v, t, f0, f1, s0, s1, s2, s3, l0, l1, l2, l3] max_payload =
   (let h = \<lparr>fh_type = RecordType_of_u8 t, fh_flags = of_be16 f0 f1,
      fh_stream_id = StreamId (of_be32 s0 s1 s2 s3), fh_payload_length = of_be32 l0 l1 l2 l3\<rparr>
    in if v \<noteq> kWireVersion then Some (Failure UnsupportedVersion 0)
       else if \<not> IsKnownRecordType (RecordType_of_u8 t) then Some (Failure UnsupportedRecordType 1)
       else if of_be32 s0 s1 s2 s3 > kMaxStreamId then Some (Failure InvalidStreamId 4)
       else case ValidateFrameHeader h max_payload of
              Failure e n \<Rightarrow> Some (Failure e n) | Success _ \<Rightarrow> Some (Success h))"
  by (simp add: DecodeFrameHeader_def kFrameHeaderSize_def StreamId_FromWire_def Let_def)

lemma frame_header_eqI:
  assumes "frame_bytes g = frame_bytes h"
    and "IsKnownRecordType (fh_type g)" and "IsKnownRecordType (fh_type h)"
  shows "g = (h :: FrameHeader)"
proof -
  have "u8_of_RecordType (fh_type g) = u8_of_RecordType (fh_type h)"
    and "fh_flags g = fh_flags h" and "stream_value (fh_stream_id g) = stream_value (fh_stream_id h)"
    and "fh_payload_length g = fh_payload_length h"
    using assms(1) by (auto simp: frame_bytes_def)
  moreover from this(1) have "fh_type g = fh_type h"
    using RecordType_of_u8_of [OF assms(2)] RecordType_of_u8_of [OF assms(3)] by metis
  ultimately show ?thesis
    by (intro FrameHeader.equality StreamId.expand) simp_all
qed

text \<open>A header is accepted exactly when it is valid and its canonical bytes are the input.\<close>

lemma DecodeFrameHeader_iff:
  "DecodeFrameHeader input max_payload = Some (Success h) \<longleftrightarrow>
   ValidateFrameHeader h max_payload = Success () \<and> input = frame_bytes h"
proof (cases "length input = 12")
  case True
  then obtain v t f0 f1 s0 s1 s2 s3 l0 l1 l2 l3
    where i: "input = [v, t, f0, f1, s0, s1, s2, s3, l0, l1, l2, l3]"
    by (rule list12E)
  let ?h = "\<lparr>fh_type = RecordType_of_u8 t, fh_flags = of_be16 f0 f1,
      fh_stream_id = StreamId (of_be32 s0 s1 s2 s3), fh_payload_length = of_be32 l0 l1 l2 l3\<rparr>"
  have "DecodeFrameHeader input max_payload = Some (Success h) \<longleftrightarrow>
      h = ?h \<and> v = kWireVersion \<and> ValidateFrameHeader ?h max_payload = Success ()"
    by (auto simp: i DecodeFrameHeader_explicit Let_def ValidateFrameHeader_def
        split: result.splits if_splits)
  also have "\<dots> \<longleftrightarrow> ValidateFrameHeader h max_payload = Success () \<and> input = frame_bytes h"
  proof
    assume "h = ?h \<and> v = kWireVersion \<and> ValidateFrameHeader ?h max_payload = Success ()"
    then show "ValidateFrameHeader h max_payload = Success () \<and> input = frame_bytes h"
      by (simp add: i frame_bytes_explicit)
  next
    assume ok: "ValidateFrameHeader h max_payload = Success () \<and> input = frame_bytes h"
    then have known: "IsKnownRecordType (fh_type h)"
      by (auto simp: ValidateFrameHeader_def split: if_splits)
    from ok i have v: "v = kWireVersion" and t: "t = u8_of_RecordType (fh_type h)"
      by (auto simp: frame_bytes_def)
    have "frame_bytes ?h = frame_bytes h"
      using ok i v by (simp add: frame_bytes_explicit)
    then have "?h = h"
      by (rule frame_header_eqI) (use known t in simp_all)
    with ok v show "h = ?h \<and> v = kWireVersion \<and> ValidateFrameHeader ?h max_payload = Success ()"
      by simp
  qed
  finally show ?thesis .
next
  case False
  then show ?thesis by (auto simp: DecodeFrameHeader_def kFrameHeaderSize_def)
qed

lemma DecodeFrameHeader_in_bounds: "DecodeFrameHeader input max_payload \<noteq> None"
  by (auto simp: DecodeFrameHeader_def kFrameHeaderSize_def Let_def split: result.split)

text \<open>The encoder as a function of the header, on a fresh buffer.\<close>

definition encode_frame :: "u32 \<Rightarrow> FrameHeader \<Rightarrow> bytes Result option" where
  "encode_frame max_payload h =
     map_option (\<lambda>(status, output). case status of Failure e n \<Rightarrow> Failure e n | Success _ \<Rightarrow> Success output)
       (EncodeFrameHeader h (replicate kFrameHeaderSize 0) max_payload)"

lemma encode_frame_eq:
  "encode_frame max_payload h =
     Some (case ValidateFrameHeader h max_payload of
             Failure e n \<Rightarrow> Failure e n | Success _ \<Rightarrow> Success (frame_bytes h))"
  by (simp add: encode_frame_def EncodeFrameHeader_layout kFrameHeaderSize_def split: result.split)

interpretation frame: exact_codec "encode_frame m" "\<lambda>bs. DecodeFrameHeader bs m" "\<lambda>_. True" for m
  by unfold_locales
    (auto simp: encode_frame_eq DecodeFrameHeader_iff DecodeFrameHeader_in_bounds
      split: result.splits)

section \<open>Whole records\<close>

lemma DecodeRecord_iff:
  "DecodeRecord input max_payload = Some (Success r) \<longleftrightarrow>
   ValidateFrameHeader (rv_header r) max_payload = Success () \<and>
   length (rv_payload r) = unat (fh_payload_length (rv_header r)) \<and>
   input = frame_bytes (rv_header r) @ rv_payload r"
proof (cases "length input < 12")
  case True
  then show ?thesis by (auto simp: DecodeRecord_def kFrameHeaderSize_def)
next
  case False
  then obtain d where d: "DecodeFrameHeader (take 12 input) max_payload = Some d"
    using DecodeFrameHeader_in_bounds by blast
  show ?thesis
  proof (cases d)
    case (Failure e n)
    have "input \<noteq> frame_bytes (rv_header r) @ rv_payload r
        \<or> ValidateFrameHeader (rv_header r) max_payload \<noteq> Success ()"
    proof (rule ccontr)
      assume "\<not> ?thesis"
      then have "DecodeFrameHeader (take 12 input) max_payload = Some (Success (rv_header r))"
        by (simp add: DecodeFrameHeader_iff)
      with d Failure show False by simp
    qed
    with False d Failure show ?thesis by (auto simp: DecodeRecord_def kFrameHeaderSize_def)
  next
    case (Success h)
    with d have h: "ValidateFrameHeader h max_payload = Success ()" "take 12 input = frame_bytes h"
      by (simp_all add: DecodeFrameHeader_iff)
    have split: "input = frame_bytes h @ drop 12 input"
      using h(2) by (metis append_take_drop_id)
    have "DecodeRecord input max_payload = Some (Success r) \<longleftrightarrow>
        length input = 12 + unat (fh_payload_length h) \<and> r = \<lparr>rv_header = h, rv_payload = drop 12 input\<rparr>"
      using False d Success by (auto simp: DecodeRecord_def kFrameHeaderSize_def Let_def)
    also have "\<dots> \<longleftrightarrow> ValidateFrameHeader (rv_header r) max_payload = Success () \<and>
        length (rv_payload r) = unat (fh_payload_length (rv_header r)) \<and>
        input = frame_bytes (rv_header r) @ rv_payload r"
    proof
      assume "length input = 12 + unat (fh_payload_length h)
          \<and> r = \<lparr>rv_header = h, rv_payload = drop 12 input\<rparr>"
      with h(1) split show "ValidateFrameHeader (rv_header r) max_payload = Success () \<and>
        length (rv_payload r) = unat (fh_payload_length (rv_header r)) \<and>
        input = frame_bytes (rv_header r) @ rv_payload r" by simp
    next
      assume r: "ValidateFrameHeader (rv_header r) max_payload = Success () \<and>
        length (rv_payload r) = unat (fh_payload_length (rv_header r)) \<and>
        input = frame_bytes (rv_header r) @ rv_payload r"
      then have "DecodeFrameHeader (take 12 input) max_payload = Some (Success (rv_header r))"
        by (simp add: DecodeFrameHeader_iff)
      with d Success have "rv_header r = h" by simp
      with r show "length input = 12 + unat (fh_payload_length h)
          \<and> r = \<lparr>rv_header = h, rv_payload = drop 12 input\<rparr>" by (cases r) auto
    qed
    finally show ?thesis .
  qed
qed

lemma DecodeRecord_in_bounds: "DecodeRecord input max_payload \<noteq> None"
  using DecodeFrameHeader_in_bounds [of "take kFrameHeaderSize input" max_payload]
  by (auto simp: DecodeRecord_def Let_def split: result.split)

section \<open>The credit codec\<close>

lemma EncodeCreditUpdate_eq:
  "EncodeCreditUpdate c =
     Some (if c = 0 \<or> c > kMaxCreditIncrement then Failure CreditOutOfRange 0 else Success (be32 c))"
  by (simp add: EncodeCreditUpdate_def wire)

lemma DecodeCreditUpdate_iff:
  "DecodeCreditUpdate payload = Some (Success c) \<longleftrightarrow>
   c \<noteq> 0 \<and> c \<le> kMaxCreditIncrement \<and> payload = be32 c"
proof (cases "length payload = 4")
  case True
  then obtain a b d e where p: "payload = [a, b, d, e]"
    by (auto simp: eval_nat_numeral length_Suc_conv)
  then show ?thesis
    by (auto simp: be32_eq_list DecodeCreditUpdate_def split: if_splits)
next
  case False
  then show ?thesis by (auto simp: DecodeCreditUpdate_def)
qed

lemma DecodeCreditUpdate_in_bounds: "DecodeCreditUpdate payload \<noteq> None"
  by (auto simp: DecodeCreditUpdate_def)

interpretation credit: exact_codec EncodeCreditUpdate DecodeCreditUpdate "\<lambda>_. True"
  by unfold_locales
    (auto simp: EncodeCreditUpdate_eq DecodeCreditUpdate_iff DecodeCreditUpdate_in_bounds
      split: if_splits)

section \<open>Properties\<close>

text \<open>C30: decoding a record succeeds exactly on the bytes of a valid header followed by a
  payload of the length the header gives, and a header decodes exactly from what the encoder
  writes for it; no input makes either decoder read outside its buffer.\<close>

theorem record_decoder:
  "(DecodeRecord input m = Some (Success r) \<longleftrightarrow>
      length (rv_payload r) = unat (fh_payload_length (rv_header r)) \<and>
      (\<exists>hd. EncodeFrameHeader (rv_header r) (replicate 12 0) m = Some (Success (), hd) \<and>
            input = hd @ rv_payload r)) \<and>
   DecodeRecord input m \<noteq> None"
proof -
  have "EncodeFrameHeader h (replicate 12 0) m = Some (Success (), hd) \<longleftrightarrow>
      ValidateFrameHeader h m = Success () \<and> hd = frame_bytes h" for h hd
    by (auto simp: EncodeFrameHeader_layout split: result.splits)
  then show ?thesis using DecodeRecord_in_bounds [of input m] by (auto simp: DecodeRecord_iff)
qed

text \<open>A credit payload decodes exactly when it is the encoding of an increment between 1
  and \<open>2 ^ 30\<close>, and the encoder accepts exactly those increments.\<close>

theorem credit_update_exact:
  "(DecodeCreditUpdate bs = Some (Success c) \<longleftrightarrow> EncodeCreditUpdate c = Some (Success bs)) \<and>
   ((\<exists>bs. EncodeCreditUpdate c = Some (Success bs)) \<longleftrightarrow> 1 \<le> unat c \<and> unat c \<le> 2 ^ 30)"
proof -
  have "c \<noteq> 0 \<longleftrightarrow> 1 \<le> unat c" by (simp add: Suc_le_eq unat_gt_0)
  moreover have "c \<le> kMaxCreditIncrement \<longleftrightarrow> unat c \<le> 2 ^ 30"
    by (simp add: kMaxCreditIncrement_def word_le_nat_alt)
  ultimately show ?thesis
    using credit.exact_iff [of bs c] by (auto simp: EncodeCreditUpdate_eq not_less)
qed

end
