(* ===== verification/Service_Name.thy ===== *)
theory Service_Name
  imports Yume_Prelude
begin

text \<open>
  Service names (\<^verbatim>\<open>src/src/common/service_name.hpp\<close>) and the canonical DNS names of
  destinations (\<^verbatim>\<open>IsCanonicalDnsName\<close> of \<^verbatim>\<open>src/src/ytp/protocol.cpp\<close>). Both checks are
  single passes with flags; both are shown equal to a grammar over the fields between dots.
\<close>

abbreviation (input) ch_dash :: u8 where "ch_dash \<equiv> 45"
abbreviation (input) ch_dot :: u8 where "ch_dot \<equiv> 46"
abbreviation (input) ch_underscore :: u8 where "ch_underscore \<equiv> 95"

section \<open>Service names\<close>

definition kMaxServiceNameBytes :: nat where
  "kMaxServiceNameBytes = 128"

definition lower_alnum :: "u8 \<Rightarrow> bool" where
  "lower_alnum c \<longleftrightarrow> (97 \<le> c \<and> c \<le> 122) \<or> (48 \<le> c \<and> c \<le> 57)"

text \<open>The loop body with its two flags; the last line is the test after the loop.\<close>

fun service_name_scan :: "bool \<Rightarrow> bool \<Rightarrow> bytes \<Rightarrow> bool" where
  "service_name_scan at_segment_start previous_is_alphanumeric [] =
     (\<not> at_segment_start \<and> previous_is_alphanumeric)"
| "service_name_scan at_segment_start previous_is_alphanumeric (c # cs) =
     (if lower_alnum c then service_name_scan False True cs
      else if c = ch_dot then
        (if at_segment_start \<or> \<not> previous_is_alphanumeric then False
         else service_name_scan True False cs)
      else if c = ch_dash \<or> c = ch_underscore then
        (if at_segment_start then False else service_name_scan False False cs)
      else False)"

definition valid_service_name :: "bytes \<Rightarrow> bool" where
  "valid_service_name name =
     (if name = [] \<or> length name > kMaxServiceNameBytes then False
      else service_name_scan True False name)"

definition kCircuitServiceName :: bytes where
  "kCircuitServiceName = ascii ''yume.circuit''"

definition kRoutesServiceName :: bytes where
  "kRoutesServiceName = ascii ''yume.routes''"

definition starts_with :: "bytes \<Rightarrow> bytes \<Rightarrow> bool" where
  "starts_with name prefix \<longleftrightarrow> take (length prefix) name = prefix"

definition reserved_service_name :: "bytes \<Rightarrow> bool" where
  "reserved_service_name name \<longleftrightarrow> name = ascii ''yume'' \<or> starts_with name (ascii ''yume.'')"

section \<open>DNS names\<close>

definition kMaxDnsNameBytes :: nat where
  "kMaxDnsNameBytes = 253"

definition dns_char :: "u8 \<Rightarrow> bool" where
  "dns_char c \<longleftrightarrow> (97 \<le> c \<and> c \<le> 122) \<or> (48 \<le> c \<and> c \<le> 57) \<or> c = ch_dash"

text \<open>
  The loop of \<^verbatim>\<open>IsCanonicalDnsName\<close> from index \<open>i\<close> with the current label's start. At a dot
  and at the end of the name it closes a label.
\<close>

function dns_labels :: "bytes \<Rightarrow> nat \<Rightarrow> nat \<Rightarrow> bool option" where
  "dns_labels name i label_start =
     (if length name < i then Some True
      else do {
        inside \<leftarrow> (if i \<noteq> length name then do { c \<leftarrow> byte_at name i; Some (c \<noteq> ch_dot) }
                   else Some False);
        if inside then do {
          c \<leftarrow> byte_at name i;
          if \<not> dns_char c then Some False else dns_labels name (i + 1) label_start
        } else do {
          let label_length = i - label_start;
          if label_length = 0 \<or> label_length > 63 then Some False
          else do {
            first \<leftarrow> byte_at name label_start;
            final \<leftarrow> byte_at name (i - 1);
            if first = ch_dash \<or> final = ch_dash then Some False
            else dns_labels name (i + 1) (i + 1)
          }
        }
      })"
  by pat_completeness auto
termination
  by (relation "measure (\<lambda>(name, i, label_start). Suc (length name) - i)") auto

declare dns_labels.simps [simp del]

definition IsCanonicalDnsName :: "bytes \<Rightarrow> bool option" where
  "IsCanonicalDnsName name =
     (if name = [] \<or> length name > kMaxDnsNameBytes then Some False
      else do {
        front \<leftarrow> byte_at name 0;
        back \<leftarrow> byte_at name (length name - 1);
        if front = ch_dot \<or> back = ch_dot then Some False else dns_labels name 0 0
      })"

section \<open>The grammars\<close>

definition service_segment :: "bytes \<Rightarrow> bool" where
  "service_segment seg \<longleftrightarrow> seg \<noteq> [] \<and> lower_alnum (hd seg) \<and> lower_alnum (last seg) \<and>
     (\<forall>c \<in> set seg. lower_alnum c \<or> c = ch_dash \<or> c = ch_underscore)"

definition service_grammar :: "bytes \<Rightarrow> bool" where
  "service_grammar name \<longleftrightarrow> length name \<le> 128 \<and> list_all service_segment (split_on ch_dot name)"

definition dns_label :: "bytes \<Rightarrow> bool" where
  "dns_label l \<longleftrightarrow> l \<noteq> [] \<and> length l \<le> 63 \<and> hd l \<noteq> ch_dash \<and> last l \<noteq> ch_dash \<and>
     list_all dns_char l"

definition dns_grammar :: "bytes \<Rightarrow> bool" where
  "dns_grammar name \<longleftrightarrow> length name \<le> 253 \<and> list_all dns_label (split_on ch_dot name)"


lemma split_on_prefix:
  "sep \<notin> set pre \<Longrightarrow>
   split_on sep (pre @ xs) = (pre @ hd (split_on sep xs)) # tl (split_on sep xs)"
  by (induction pre) auto

lemma lower_alnum_plain [simp]:
  "\<not> lower_alnum ch_dot" "\<not> lower_alnum ch_dash" "\<not> lower_alnum ch_underscore"
  by (simp_all add: lower_alnum_def)

definition service_partial :: "bytes \<Rightarrow> bool" where
  "service_partial cur \<longleftrightarrow> (cur \<noteq> [] \<longrightarrow> lower_alnum (hd cur)) \<and>
     (\<forall>c \<in> set cur. lower_alnum c \<or> c = ch_dash \<or> c = ch_underscore)"

lemma service_partial_no_dot: "service_partial cur \<Longrightarrow> ch_dot \<notin> set cur"
  by (auto simp: service_partial_def)

text \<open>
  The scan after the part \<open>cur\<close> of a segment: its flags say whether \<open>cur\<close> is empty and whether
  it ends in a letter or digit.
\<close>

lemma service_name_scan_grammar:
  "service_partial cur \<Longrightarrow>
   service_name_scan (cur = []) (cur \<noteq> [] \<and> lower_alnum (last cur)) cs
     \<longleftrightarrow> list_all service_segment (split_on ch_dot (cur @ cs))"
proof (induction cs arbitrary: cur)
  case Nil
  then show ?case
    by (auto simp: split_on_plain service_partial_no_dot service_segment_def service_partial_def)
next
  case (Cons c cs)
  note nodot = service_partial_no_dot [OF Cons.prems]
  have pre: "split_on ch_dot (cur @ c # cs) =
      (cur @ c # hd (split_on ch_dot cs)) # tl (split_on ch_dot cs)" if "c \<noteq> ch_dot"
    using split_on_prefix [of ch_dot "cur @ [c]" cs] nodot that by auto
  consider (alnum) "lower_alnum c" | (dot) "c = ch_dot"
    | (mark) "c = ch_dash \<or> c = ch_underscore" "\<not> lower_alnum c"
    | (other) "\<not> lower_alnum c" "c \<noteq> ch_dot" "c \<noteq> ch_dash" "c \<noteq> ch_underscore"
    by blast
  then show ?case
  proof cases
    case alnum
    with Cons.prems have "service_partial (cur @ [c])"
      by (cases cur) (auto simp: service_partial_def)
    from Cons.IH [OF this] alnum show ?thesis by simp
  next
    case dot
    have "service_segment cur \<longleftrightarrow> cur \<noteq> [] \<and> lower_alnum (last cur)"
      using Cons.prems by (auto simp: service_segment_def service_partial_def)
    with dot Cons.IH [of "[]"] show ?thesis
      by (auto simp: split_on_sep [OF nodot] service_partial_def)
  next
    case mark
    show ?thesis
    proof (cases "cur = []")
      case True
      with mark pre show ?thesis by (auto simp: service_segment_def)
    next
      case False
      with mark Cons.prems have "service_partial (cur @ [c])"
        by (auto simp: service_partial_def)
      from Cons.IH [OF this] mark False show ?thesis by auto
    qed
  next
    case other
    with pre show ?thesis by (auto simp: service_segment_def)
  qed
qed

lemma valid_service_name_grammar: "valid_service_name name \<longleftrightarrow> service_grammar name"
proof (cases "name = []")
  case True
  then show ?thesis
    by (simp add: valid_service_name_def service_grammar_def service_segment_def)
next
  case False
  then show ?thesis
    using service_name_scan_grammar [of "[]" name]
    by (auto simp: valid_service_name_def service_grammar_def service_partial_def
        kMaxServiceNameBytes_def)
qed

section \<open>The DNS scan\<close>

lemma dns_char_no_dot [simp]: "\<not> dns_char ch_dot"
  by (simp add: dns_char_def)

text \<open>
  From inside a label: \<open>pre\<close> is what lies before the label, \<open>cur\<close> the part of it read so far.
\<close>

lemma label_ends:
  assumes "cur \<noteq> []"
  shows "byte_at (pre @ cur @ rest) (length pre) = Some (hd cur)"
    and "byte_at (pre @ cur @ rest) (length pre + length cur - 1) = Some (last cur)"
  using assms by (auto simp: nth_append hd_conv_nth last_conv_nth simp del: length_greater_0_conv
      simp flip: length_greater_0_conv)

lemma dns_labels_grammar:
  "list_all dns_char cur \<Longrightarrow>
   dns_labels (pre @ cur @ rest) (length pre + length cur) (length pre)
     = Some (list_all dns_label (split_on ch_dot (cur @ rest)))"
proof (induction rest arbitrary: pre cur)
  case Nil
  then have "ch_dot \<notin> set cur" by (auto simp: list_all_iff)
  with Nil show ?case
    using label_ends [of cur pre "[]"]
    by (subst dns_labels.simps)
       (auto simp: Let_def split_on_plain dns_label_def dns_labels.simps [of _ "Suc _"])
next
  case (Cons c rest)
  then have nodot: "ch_dot \<notin> set cur" by (auto simp: list_all_iff)
  have at: "byte_at (pre @ cur @ c # rest) (length pre + length cur) = Some c"
    by (simp add: nth_append)
  show ?case
  proof (cases "c = ch_dot")
    case True
    have next_label: "dns_labels ((pre @ cur @ [c]) @ [] @ rest)
        (length (pre @ cur @ [c]) + length ([] :: bytes)) (length (pre @ cur @ [c]))
        = Some (list_all dns_label (split_on ch_dot ([] @ rest)))"
      by (rule Cons.IH) simp
    show ?thesis
      using True next_label label_ends [of cur pre "c # rest"] Cons.prems
      by (subst dns_labels.simps) (auto simp: Let_def at split_on_sep [OF nodot] dns_label_def)
  next
    case False
    show ?thesis
    proof (cases "dns_char c")
      case True
      with Cons.IH [of "cur @ [c]" pre] Cons.prems False show ?thesis
        by (subst dns_labels.simps) (simp add: at)
    next
      case bad: False
      have "split_on ch_dot (cur @ c # rest) =
          (cur @ c # hd (split_on ch_dot rest)) # tl (split_on ch_dot rest)"
        using split_on_prefix [of ch_dot "cur @ [c]" rest] nodot False by auto
      with bad False show ?thesis
        by (subst dns_labels.simps) (simp add: at dns_label_def)
    qed
  qed
qed

lemma dns_grammar_ends:
  assumes "dns_grammar name"
  shows "name \<noteq> []" and "hd name \<noteq> ch_dot" and "last name \<noteq> ch_dot"
proof -
  have labels: "list_all dns_label (split_on ch_dot name)"
    using assms by (simp add: dns_grammar_def)
  show ne: "name \<noteq> []"
    using labels by (auto simp: dns_label_def)
  show "hd name \<noteq> ch_dot"
    using labels ne by (cases name) (auto simp: dns_label_def)
  have "split_on ch_dot (xs @ [ch_dot]) = split_on ch_dot xs @ [[]]" for xs :: bytes
    by (induction xs) (auto split: list.splits)
  then show "last name \<noteq> ch_dot"
    using labels ne by (cases name rule: rev_cases) (fastforce simp: list_all_iff dns_label_def)+
qed

lemma IsCanonicalDnsName_grammar: "IsCanonicalDnsName name = Some (dns_grammar name)"
proof (cases "name = []")
  case True
  then show ?thesis
    by (simp add: IsCanonicalDnsName_def dns_grammar_def dns_label_def)
next
  case False
  have scan: "dns_labels name 0 0 = Some (list_all dns_label (split_on ch_dot name))"
    using dns_labels_grammar [of "[]" "[]" name] by simp
  have "byte_at name 0 = Some (hd name)" "byte_at name (length name - 1) = Some (last name)"
    using False by (auto simp: hd_conv_nth last_conv_nth)
  with False scan dns_grammar_ends [of name] show ?thesis
    by (auto simp: IsCanonicalDnsName_def dns_grammar_def kMaxDnsNameBytes_def)
qed

lemma dns_grammar_length: "dns_grammar name \<Longrightarrow> 1 \<le> length name \<and> length name \<le> 253"
  using dns_grammar_ends(1) [of name] by (cases name) (auto simp: dns_grammar_def)

lemma valid_service_name_length:
  "valid_service_name name \<Longrightarrow> 1 \<le> length name \<and> length name \<le> 128"
  by (cases name) (auto simp: valid_service_name_def kMaxServiceNameBytes_def split: if_splits)

section \<open>Properties\<close>

text \<open>C35: the one-pass scan of a service name accepts exactly the names whose dot-separated
  segments begin and end with a lower-case letter or digit and hold only those, dashes and
  underscores, within 128 bytes.\<close>

theorem service_name_accepted: "valid_service_name name \<longleftrightarrow> service_grammar name"
  by (rule valid_service_name_grammar)

text \<open>C36: the DNS name check never reads outside the name and accepts exactly the names of at
  most 253 bytes whose dot-separated labels are of 1 to 63 allowed characters with no dash
  at either end.\<close>

theorem dns_name_grammar: "IsCanonicalDnsName name = Some (dns_grammar name)"
  by (rule IsCanonicalDnsName_grammar)

end
