(* ===== verification/Ytp_Open.thy ===== *)
theory Ytp_Open
  imports Ytp_Frame Service_Name
begin

text \<open>
  The OPEN payload of YTP/1 (\<^verbatim>\<open>src/src/ytp/protocol.cpp\<close>): service kind, service name and an
  optional destination, with the rules that tie transport, address kind, address and port.
\<close>

section \<open>Data\<close>

datatype ServiceKind = SK_ByteStream | SK_Packet | SK_other u8
datatype TransportProtocol = TP_None | TP_Tcp | TP_Udp | TP_other u8
datatype AddressKind = AK_None | AK_Ipv4 | AK_Ipv6 | AK_Dns | AK_other u8

definition ServiceKind_of_u8 :: "u8 \<Rightarrow> ServiceKind" where
  "ServiceKind_of_u8 v = (if v = 1 then SK_ByteStream else if v = 2 then SK_Packet else SK_other v)"

definition TransportProtocol_of_u8 :: "u8 \<Rightarrow> TransportProtocol" where
  "TransportProtocol_of_u8 v =
     (if v = 0 then TP_None else if v = 1 then TP_Tcp else if v = 2 then TP_Udp else TP_other v)"

definition AddressKind_of_u8 :: "u8 \<Rightarrow> AddressKind" where
  "AddressKind_of_u8 v =
     (if v = 0 then AK_None else if v = 1 then AK_Ipv4 else if v = 2 then AK_Ipv6
      else if v = 3 then AK_Dns else AK_other v)"

fun u8_of_ServiceKind :: "ServiceKind \<Rightarrow> u8" where
  "u8_of_ServiceKind SK_ByteStream = 1"
| "u8_of_ServiceKind SK_Packet = 2"
| "u8_of_ServiceKind (SK_other v) = v"

fun u8_of_TransportProtocol :: "TransportProtocol \<Rightarrow> u8" where
  "u8_of_TransportProtocol TP_None = 0"
| "u8_of_TransportProtocol TP_Tcp = 1"
| "u8_of_TransportProtocol TP_Udp = 2"
| "u8_of_TransportProtocol (TP_other v) = v"

fun u8_of_AddressKind :: "AddressKind \<Rightarrow> u8" where
  "u8_of_AddressKind AK_None = 0"
| "u8_of_AddressKind AK_Ipv4 = 1"
| "u8_of_AddressKind AK_Ipv6 = 2"
| "u8_of_AddressKind AK_Dns = 3"
| "u8_of_AddressKind (AK_other v) = v"

definition IsKnownServiceKind :: "ServiceKind \<Rightarrow> bool" where
  "IsKnownServiceKind kind \<longleftrightarrow> kind = SK_ByteStream \<or> kind = SK_Packet"

definition IsKnownTransport :: "TransportProtocol \<Rightarrow> bool" where
  "IsKnownTransport t \<longleftrightarrow> t = TP_None \<or> t = TP_Tcp \<or> t = TP_Udp"

definition IsKnownAddressKind :: "AddressKind \<Rightarrow> bool" where
  "IsKnownAddressKind k \<longleftrightarrow> k = AK_None \<or> k = AK_Ipv4 \<or> k = AK_Ipv6 \<or> k = AK_Dns"

record Destination =
  d_transport :: TransportProtocol
  d_address_kind :: AddressKind
  d_address :: bytes
  d_address_length :: u8
  d_dns_name :: bytes
  d_port :: u16

text \<open>\<^verbatim>\<open>Destination{}\<close>: the member initialisers. The address is an array of 16 bytes.\<close>

definition default_Destination :: Destination where
  "default_Destination = \<lparr>d_transport = TP_None, d_address_kind = AK_None,
     d_address = replicate 16 0, d_address_length = 0, d_dns_name = [], d_port = 0\<rparr>"

record OpenRequest =
  o_service_kind :: ServiceKind
  o_service_name :: bytes
  o_destination :: Destination

definition kMaxOpenPayload :: nat where "kMaxOpenPayload = 512"
definition kOpenPrefixSize :: nat where "kOpenPrefixSize = 8"

section \<open>Operations\<close>

definition IsAllZero :: "bytes \<Rightarrow> bool" where
  "IsAllZero input \<longleftrightarrow> fold (\<lambda>byte aggregate. aggregate OR byte) input 0 = 0"

definition ValidateDestination :: "ServiceKind \<Rightarrow> Destination \<Rightarrow> Status option" where
  "ValidateDestination service_kind d =
     (if \<not> IsKnownServiceKind service_kind \<or> \<not> IsKnownTransport (d_transport d) \<or>
         \<not> IsKnownAddressKind (d_address_kind d) then Some (Failure InvalidEnum 0)
      else if d_transport d = TP_None \<or> d_address_kind d = AK_None then
        (if d_transport d \<noteq> TP_None \<or> d_address_kind d \<noteq> AK_None \<or> d_port d \<noteq> 0 \<or>
            d_address_length d \<noteq> 0 \<or> d_dns_name d \<noteq> [] \<or> \<not> IsAllZero (d_address d)
         then Some (Failure InvalidDestination 0) else Some (Success ()))
      else if (service_kind = SK_ByteStream \<and> d_transport d \<noteq> TP_Tcp) \<or>
              (service_kind = SK_Packet \<and> d_transport d \<noteq> TP_Udp)
        then Some (Failure InvalidDestination 0)
      else if d_port d = 0 then Some (Failure InvalidPort 0)
      else case d_address_kind d of
        AK_Ipv4 \<Rightarrow> do {
          rest \<leftarrow> subspan (d_address d) 4 (length (d_address d) - 4);
          if d_address_length d \<noteq> 4 \<or> d_dns_name d \<noteq> [] \<or> \<not> IsAllZero rest
          then Some (Failure InvalidDestination 0) else Some (Success ()) }
      | AK_Ipv6 \<Rightarrow>
          if d_address_length d \<noteq> 16 \<or> d_dns_name d \<noteq> []
          then Some (Failure InvalidDestination 0) else Some (Success ())
      | AK_Dns \<Rightarrow> do {
          canonical \<leftarrow> IsCanonicalDnsName (d_dns_name d);
          if d_address_length d \<noteq> 0 \<or> \<not> IsAllZero (d_address d) \<or> \<not> canonical
          then Some (Failure InvalidDestination 0) else Some (Success ()) }
      | _ \<Rightarrow> Some (Failure InvalidDestination 0))"

text \<open>The bytes a destination takes in the payload: the first \<^verbatim>\<open>switch\<close> of \<^verbatim>\<open>EncodeOpen\<close>.\<close>

definition open_destination_length :: "Destination \<Rightarrow> nat" where
  "open_destination_length d =
     (case d_address_kind d of
        AK_Ipv4 \<Rightarrow> 2 + 4 | AK_Ipv6 \<Rightarrow> 2 + 16 | AK_Dns \<Rightarrow> 2 + 1 + length (d_dns_name d) | _ \<Rightarrow> 0)"

definition EncodeOpen :: "OpenRequest \<Rightarrow> bytes Result option" where
  "EncodeOpen request =
     (let d = o_destination request; name = o_service_name request in
      if \<not> IsKnownServiceKind (o_service_kind request) then Some (Failure InvalidEnum 0)
      else if \<not> valid_service_name name then Some (Failure InvalidServiceName 0)
      else do {
        destination_status \<leftarrow> ValidateDestination (o_service_kind request) d;
        case destination_status of
          Failure e _ \<Rightarrow> Some (Failure e 0)
        | Success _ \<Rightarrow> do {
            let destination_length = open_destination_length d;
            let total = kOpenPrefixSize + length name + destination_length;
            if total > kMaxOpenPayload \<or> length name > 65535 \<or> destination_length > 65535
            then Some (Failure PayloadTooLarge 0)
            else do {
              let output = replicate total 0;
              output \<leftarrow> put_byte output 0 kWireVersion;
              output \<leftarrow> put_byte output 1 (u8_of_ServiceKind (o_service_kind request));
              output \<leftarrow> put_byte output 2 (u8_of_TransportProtocol (d_transport d));
              output \<leftarrow> put_byte output 3 (u8_of_AddressKind (d_address_kind d));
              output \<leftarrow> write_u16_be output 4 (of_nat (length name));
              output \<leftarrow> write_u16_be output 6 (of_nat destination_length);
              output \<leftarrow> copy_to output kOpenPrefixSize name;
              let offset = kOpenPrefixSize + length name;
              (output, offset) \<leftarrow>
                (if d_address_kind d \<noteq> AK_None
                 then do { output \<leftarrow> write_u16_be output offset (d_port d); Some (output, offset + 2) }
                 else Some (output, offset));
              output \<leftarrow>
                (if d_address_kind d = AK_Ipv4 \<or> d_address_kind d = AK_Ipv6 then do {
                   address \<leftarrow> subspan (d_address d) 0 (unat (d_address_length d));
                   copy_to output offset address }
                 else if d_address_kind d = AK_Dns then do {
                   output \<leftarrow> put_byte output offset (of_nat (length (d_dns_name d)));
                   copy_to output (offset + 1) (d_dns_name d) }
                 else Some output);
              Some (Success output)
            }
          }
      })"

text \<open>
  The destination part of \<^verbatim>\<open>DecodeOpen\<close>, from the port to the end of the second \<^verbatim>\<open>switch\<close>; it
  returns the destination and the offset the next error would carry.
\<close>

definition decode_open_destination ::
  "bytes \<Rightarrow> nat \<Rightarrow> nat \<Rightarrow> TransportProtocol \<Rightarrow> AddressKind \<Rightarrow> (Destination \<times> nat) Result option" where
  "decode_open_destination payload offset destination_length transport address_kind =
     (let d = default_Destination\<lparr>d_transport := transport, d_address_kind := address_kind\<rparr> in
      if address_kind = AK_None then
        (if destination_length \<noteq> 0 then Some (Failure InvalidLength 6) else Some (Success (d, offset)))
      else if destination_length < 2 then Some (Failure Truncated offset)
      else do {
        port \<leftarrow> read_u16_be payload offset;
        let d = d\<lparr>d_port := port\<rparr>;
        let offset = offset + 2;
        case address_kind of
          AK_Ipv4 \<Rightarrow>
            if destination_length \<noteq> 6 then Some (Failure InvalidLength 6)
            else do {
              source \<leftarrow> subspan payload offset 4;
              address \<leftarrow> copy_to (d_address d) 0 source;
              Some (Success (d\<lparr>d_address_length := 4, d_address := address\<rparr>, offset)) }
        | AK_Ipv6 \<Rightarrow>
            if destination_length \<noteq> 18 then Some (Failure InvalidLength 6)
            else do {
              source \<leftarrow> subspan payload offset 16;
              address \<leftarrow> copy_to (d_address d) 0 source;
              Some (Success (d\<lparr>d_address_length := 16, d_address := address\<rparr>, offset)) }
        | AK_Dns \<Rightarrow>
            if destination_length < 3 then Some (Failure InvalidLength 6)
            else do {
              dns_length \<leftarrow> byte_at payload offset;
              let offset = offset + 1;
              if unat dns_length \<noteq> destination_length - 3 then Some (Failure InvalidLength (offset - 1))
              else do {
                name \<leftarrow> subspan payload offset (unat dns_length);
                Some (Success (d\<lparr>d_dns_name := name\<rparr>, offset)) } }
        | _ \<Rightarrow> Some (Success (d, offset))
      })"

definition DecodeOpen :: "bytes \<Rightarrow> OpenRequest Result option" where
  "DecodeOpen payload =
     (if length payload > kMaxOpenPayload then Some (Failure PayloadTooLarge 0)
      else if length payload < kOpenPrefixSize then Some (Failure Truncated (length payload))
      else do {
        version \<leftarrow> byte_at payload 0;
        if version \<noteq> kWireVersion then Some (Failure UnsupportedVersion 0)
        else do {
          b1 \<leftarrow> byte_at payload 1;
          b2 \<leftarrow> byte_at payload 2;
          b3 \<leftarrow> byte_at payload 3;
          let service_kind = ServiceKind_of_u8 b1;
          let transport = TransportProtocol_of_u8 b2;
          let address_kind = AddressKind_of_u8 b3;
          if \<not> IsKnownServiceKind service_kind \<or> \<not> IsKnownTransport transport \<or>
             \<not> IsKnownAddressKind address_kind then Some (Failure InvalidEnum 1)
          else do {
            raw_service_length \<leftarrow> read_u16_be payload 4;
            raw_destination_length \<leftarrow> read_u16_be payload 6;
            let service_length = unat raw_service_length;
            let destination_length = unat raw_destination_length;
            let expected = kOpenPrefixSize + service_length + destination_length;
            if expected > length payload then Some (Failure Truncated (length payload))
            else if expected < length payload then Some (Failure TrailingData expected)
            else if service_length = 0 \<or> service_length > kMaxServiceNameBytes
              then Some (Failure InvalidServiceName 4)
            else do {
              service_view \<leftarrow> subspan payload kOpenPrefixSize service_length;
              if \<not> valid_service_name service_view then Some (Failure InvalidUtf8 kOpenPrefixSize)
              else do {
                decoded \<leftarrow> decode_open_destination payload (kOpenPrefixSize + service_length)
                            destination_length transport address_kind;
                case decoded of
                  Failure e n \<Rightarrow> Some (Failure e n)
                | Success (d, offset) \<Rightarrow> do {
                    status \<leftarrow> ValidateDestination service_kind d;
                    case status of
                      Failure e _ \<Rightarrow> Some (Failure e offset)
                    | Success _ \<Rightarrow> Some (Success \<lparr>o_service_kind = service_kind,
                                      o_service_name = service_view, o_destination = d\<rparr>)
                  }
              }
            }
          }
        }
      })"


section \<open>Enumeration casts\<close>

lemma u8_of_casts [simp]:
  "u8_of_ServiceKind (ServiceKind_of_u8 v) = v"
  "u8_of_TransportProtocol (TransportProtocol_of_u8 v) = v"
  "u8_of_AddressKind (AddressKind_of_u8 v) = v"
  by (simp_all add: ServiceKind_of_u8_def TransportProtocol_of_u8_def AddressKind_of_u8_def)

lemma casts_of_u8 [simp]:
  "IsKnownServiceKind k \<Longrightarrow> ServiceKind_of_u8 (u8_of_ServiceKind k) = k"
  "IsKnownTransport t \<Longrightarrow> TransportProtocol_of_u8 (u8_of_TransportProtocol t) = t"
  "IsKnownAddressKind a \<Longrightarrow> AddressKind_of_u8 (u8_of_AddressKind a) = a"
  by (auto simp: IsKnownServiceKind_def ServiceKind_of_u8_def IsKnownTransport_def
      TransportProtocol_of_u8_def IsKnownAddressKind_def AddressKind_of_u8_def)

section \<open>Destinations\<close>

lemma IsAllZero_iff: "IsAllZero input \<longleftrightarrow> input = replicate (length input) 0"
proof -
  have "fold (\<lambda>byte aggregate. aggregate OR byte) xs a = 0 \<longleftrightarrow> a = 0 \<and> (\<forall>b \<in> set xs. b = 0)"
    for xs and a :: u8
    by (induction xs arbitrary: a) (auto simp: or_eq_0_iff)
  then show ?thesis
    by (auto simp: IsAllZero_def) (metis in_set_replicate replicate_length_same)+
qed

text \<open>What a destination must satisfy, as one predicate.\<close>

definition destination_ok :: "ServiceKind \<Rightarrow> Destination \<Rightarrow> bool" where
  "destination_ok kind d \<longleftrightarrow> IsKnownServiceKind kind \<and>
     ((d_transport d = TP_None \<and> d_address_kind d = AK_None \<and> d_port d = 0 \<and>
       d_address_length d = 0 \<and> d_dns_name d = [] \<and> IsAllZero (d_address d)) \<or>
      (d_transport d = (if kind = SK_ByteStream then TP_Tcp else TP_Udp) \<and> d_port d \<noteq> 0 \<and>
       (case d_address_kind d of
          AK_Ipv4 \<Rightarrow> d_address_length d = 4 \<and> d_dns_name d = [] \<and> IsAllZero (drop 4 (d_address d))
        | AK_Ipv6 \<Rightarrow> d_address_length d = 16 \<and> d_dns_name d = []
        | AK_Dns \<Rightarrow> d_address_length d = 0 \<and> IsAllZero (d_address d) \<and> dns_grammar (d_dns_name d)
        | _ \<Rightarrow> False)))"

lemma ValidateDestination_ok:
  assumes "length (d_address d) = 16"
  shows "ValidateDestination kind d = Some (Success ()) \<longleftrightarrow> destination_ok kind d"
  using assms
  by (cases "d_address_kind d"; cases "d_transport d"; cases kind)
     (auto simp: ValidateDestination_def destination_ok_def IsKnownServiceKind_def
       IsKnownTransport_def IsKnownAddressKind_def IsCanonicalDnsName_grammar)

lemma ValidateDestination_in_bounds:
  "length (d_address d) = 16 \<Longrightarrow> ValidateDestination kind d \<noteq> None"
  by (auto simp: ValidateDestination_def IsCanonicalDnsName_grammar split: AddressKind.split)

lemma destination_ok_known:
  "destination_ok kind d \<Longrightarrow>
   IsKnownServiceKind kind \<and> IsKnownTransport (d_transport d) \<and> IsKnownAddressKind (d_address_kind d)"
  by (auto simp: destination_ok_def IsKnownTransport_def IsKnownAddressKind_def
      split: AddressKind.splits)

definition open_destination_bytes :: "Destination \<Rightarrow> bytes" where
  "open_destination_bytes d =
     (case d_address_kind d of
        AK_Ipv4 \<Rightarrow> be16 (d_port d) @ take (unat (d_address_length d)) (d_address d)
      | AK_Ipv6 \<Rightarrow> be16 (d_port d) @ take (unat (d_address_length d)) (d_address d)
      | AK_Dns \<Rightarrow> be16 (d_port d) @ of_nat (length (d_dns_name d)) # d_dns_name d
      | _ \<Rightarrow> [])"

lemma length_open_destination_bytes:
  assumes "destination_ok kind d" and "length (d_address d) = 16"
  shows "length (open_destination_bytes d) = open_destination_length d"
    and "open_destination_length d \<le> 256"
  using assms dns_grammar_length [of "d_dns_name d"]
  by (auto simp: destination_ok_def open_destination_bytes_def open_destination_length_def
      split: AddressKind.splits)

lemma split_address4:
  assumes "length a = 16" and "IsAllZero (drop 4 a)"
  shows "take 4 a @ replicate 12 0 = a"
  using assms append_take_drop_id [of 4 a] by (simp add: IsAllZero_iff)

lemma decode_open_destination_complete:
  assumes ok: "destination_ok kind d" and len: "length (d_address d) = 16"
    and off: "offset = length pre" and n: "n = open_destination_length d"
  obtains offset' where
    "decode_open_destination (pre @ open_destination_bytes d) offset n (d_transport d) (d_address_kind d)
       = Some (Success (d, offset'))"
proof (cases "d_address_kind d")
  case AK_None
  with ok len n have "d = default_Destination\<lparr>d_transport := d_transport d,
      d_address_kind := d_address_kind d\<rparr>" "n = 0"
    by (auto simp: destination_ok_def default_Destination_def IsAllZero_iff open_destination_length_def
        intro: Destination.equality)
  with AK_None show ?thesis
    by (intro that) (simp add: decode_open_destination_def)
next
  case AK_Ipv4
  with ok len have shape: "d_address_length d = 4" "d_dns_name d = []"
      "take 4 (d_address d) @ replicate 12 0 = d_address d"
    by (auto simp: destination_ok_def intro: split_address4)
  have "d = default_Destination\<lparr>d_transport := d_transport d, d_address_kind := AK_Ipv4,
      d_port := d_port d, d_address_length := 4, d_address := take 4 (d_address d) @ replicate 12 0\<rparr>"
    using AK_Ipv4 shape by (intro Destination.equality) (auto simp: default_Destination_def)
  with AK_Ipv4 shape off n len show ?thesis
    by (intro that)
       (simp add: decode_open_destination_def open_destination_bytes_def open_destination_length_def
         read_u16_be_append default_Destination_def wire del: read_u16_be_in)
next
  case AK_Ipv6
  with ok len have shape: "d_address_length d = 16" "d_dns_name d = []"
    by (auto simp: destination_ok_def)
  have "d = default_Destination\<lparr>d_transport := d_transport d, d_address_kind := AK_Ipv6,
      d_port := d_port d, d_address_length := 16, d_address := d_address d\<rparr>"
    using AK_Ipv6 shape by (intro Destination.equality) (auto simp: default_Destination_def)
  with AK_Ipv6 shape off n len show ?thesis
    by (intro that)
       (simp add: decode_open_destination_def open_destination_bytes_def open_destination_length_def
         read_u16_be_append default_Destination_def wire del: read_u16_be_in)
next
  case AK_Dns
  with ok len have shape: "d_address_length d = 0" "d_address d = replicate 16 0"
      "length (d_dns_name d) < 256"
    using dns_grammar_length [of "d_dns_name d"] by (auto simp: destination_ok_def IsAllZero_iff)
  have "d = default_Destination\<lparr>d_transport := d_transport d, d_address_kind := AK_Dns,
      d_port := d_port d, d_dns_name := d_dns_name d\<rparr>"
    using AK_Dns shape by (intro Destination.equality) (auto simp: default_Destination_def)
  with AK_Dns shape off n show ?thesis
    by (intro that)
       (simp add: decode_open_destination_def open_destination_bytes_def open_destination_length_def
         read_u16_be_append default_Destination_def Let_def nth_append del: read_u16_be_in)
next
  case (AK_other x)
  with ok show ?thesis by (auto simp: destination_ok_def)
qed


lemma decode_open_destination_in_bounds:
  assumes "offset + n \<le> length payload"
  shows "decode_open_destination payload offset n transport kind \<noteq> None"
  using assms
  by (auto simp: decode_open_destination_def Let_def default_Destination_def copy_to_def
      split: AddressKind.split)

lemma drop_port:
  assumes "offset + 2 \<le> length payload"
  shows "drop offset payload =
     be16 (of_be16 (payload ! offset) (payload ! Suc offset)) @ drop (offset + 2) payload"
  using assms by (simp add: Cons_nth_drop_Suc)

lemma decode_open_destination_sound:
  assumes dec: "decode_open_destination payload offset n transport kind = Some (Success (d, offset'))"
    and n: "offset + n = length payload" and known: "IsKnownAddressKind kind"
  shows "d_transport d = transport" and "d_address_kind d = kind"
    and "length (d_address d) = 16" and "drop offset payload = open_destination_bytes d"
proof -
  note defs = decode_open_destination_def default_Destination_def Let_def copy_to_first
  have all: "d_transport d = transport \<and> d_address_kind d = kind \<and> length (d_address d) = 16
      \<and> drop offset payload = open_destination_bytes d"
  proof (cases kind)
    case AK_None
    with dec n show ?thesis
      by (auto simp: defs open_destination_bytes_def split: if_splits)
  next
    case AK_Ipv4
    with dec n have "n = 6" by (auto simp: defs split: if_splits)
    moreover from this n have "length payload - Suc (Suc offset) = 4" by simp
    ultimately show ?thesis
      using AK_Ipv4 dec n drop_port [of offset payload]
      by (auto simp: defs open_destination_bytes_def)
  next
    case AK_Ipv6
    with dec n have "n = 18" by (auto simp: defs split: if_splits)
    moreover from this n have "length payload - Suc (Suc offset) = 16" by simp
    ultimately show ?thesis
      using AK_Ipv6 dec n drop_port [of offset payload]
      by (auto simp: defs open_destination_bytes_def)
  next
    case AK_Dns
    with dec n have "n \<ge> 3" and len: "unat (payload ! (offset + 2)) = n - 3"
      by (auto simp: defs split: if_splits)
    moreover have "drop (offset + 2) payload = payload ! (offset + 2) # drop (offset + 3) payload"
      using n \<open>n \<ge> 3\<close> Cons_nth_drop_Suc [of "offset + 2" payload] by (simp add: numeral_3_eq_3)
    moreover have "length payload - Suc (Suc (Suc offset)) = unat (payload ! Suc (Suc offset))"
      using len n by simp
    moreover have "of_nat (n - 3) = payload ! (offset + 2)"
      by (simp flip: len)
    ultimately show ?thesis
      using AK_Dns dec n drop_port [of offset payload]
      by (auto simp: defs open_destination_bytes_def numeral_3_eq_3 split: if_splits simp del: of_nat_diff)
  next
    case (AK_other x)
    with known show ?thesis by (simp add: IsKnownAddressKind_def)
  qed
  then show "d_transport d = transport" and "d_address_kind d = kind"
    and "length (d_address d) = 16" and "drop offset payload = open_destination_bytes d"
    by auto
qed

section \<open>The OPEN codec\<close>

definition open_ok :: "OpenRequest \<Rightarrow> bool" where
  "open_ok r \<longleftrightarrow> valid_service_name (o_service_name r) \<and> destination_ok (o_service_kind r) (o_destination r)"

definition open_prefix :: "OpenRequest \<Rightarrow> bytes" where
  "open_prefix r =
     [kWireVersion, u8_of_ServiceKind (o_service_kind r),
      u8_of_TransportProtocol (d_transport (o_destination r)),
      u8_of_AddressKind (d_address_kind (o_destination r))]
     @ be16 (of_nat (length (o_service_name r)))
     @ be16 (of_nat (open_destination_length (o_destination r)))"

definition open_bytes :: "OpenRequest \<Rightarrow> bytes" where
  "open_bytes r = open_prefix r @ o_service_name r @ open_destination_bytes (o_destination r)"

lemma length_open_prefix [simp]: "length (open_prefix r) = 8"
  by (simp add: open_prefix_def)

abbreviation open_valid :: "OpenRequest \<Rightarrow> bool" where
  "open_valid r \<equiv> length (d_address (o_destination r)) = 16"

text \<open>
  A request the code accepts takes at most 392 bytes, so the size refusal is never used.
\<close>

lemma open_size:
  assumes "open_ok r" and "open_valid r"
  shows "length (open_bytes r) = kOpenPrefixSize + length (o_service_name r)
           + open_destination_length (o_destination r)"
    and "length (open_bytes r) \<le> 392"
  using assms valid_service_name_length [of "o_service_name r"]
    length_open_destination_bytes [of "o_service_kind r" "o_destination r"]
  by (auto simp: open_bytes_def open_ok_def kOpenPrefixSize_def)


lemma EncodeOpen_eq:
  assumes "open_valid r"
  shows "\<exists>e. EncodeOpen r = Some (if open_ok r then Success (open_bytes r) else Failure e 0)"
proof -
  let ?d = "o_destination r"
  obtain status where status: "ValidateDestination (o_service_kind r) ?d = Some status"
    using ValidateDestination_in_bounds [OF assms] by blast
  show ?thesis
  proof (cases "open_ok r")
    case True
    then have parts: "valid_service_name (o_service_name r)" "destination_ok (o_service_kind r) ?d"
      by (auto simp: open_ok_def)
    have "status = Success ()"
      using status parts(2) ValidateDestination_ok [OF assms] by (metis option.inject)
    moreover note open_size [OF True assms] length_open_destination_bytes [OF parts(2) assms]
    moreover have "d_address_length ?d = 4" if "d_address_kind ?d = AK_Ipv4"
      using that parts(2) by (auto simp: destination_ok_def)
    moreover have "d_address_length ?d = 16" if "d_address_kind ?d = AK_Ipv6"
      using that parts(2) by (auto simp: destination_ok_def)
    ultimately show ?thesis
      using True parts destination_ok_known [OF parts(2)] status assms
      by (cases "d_address_kind ?d")
         (simp_all add: EncodeOpen_def Let_def kMaxOpenPayload_def kOpenPrefixSize_def wire
           open_bytes_def open_prefix_def open_destination_bytes_def open_destination_length_def
           IsKnownAddressKind_def del: append_assoc append.simps)
  next
    case False
    then have "\<not> IsKnownServiceKind (o_service_kind r) \<or> \<not> valid_service_name (o_service_name r)
        \<or> status \<noteq> Success ()"
      using status ValidateDestination_ok [OF assms] by (auto simp: open_ok_def)
    with False status show ?thesis
      by (cases status) (auto simp: EncodeOpen_def Let_def)
  qed
qed

lemma DecodeOpen_in_bounds: "DecodeOpen payload \<noteq> None"
proof
  assume run: "DecodeOpen payload = None"
  then have "8 \<le> length payload"
    by (auto simp: DecodeOpen_def kOpenPrefixSize_def split: if_splits)
  then obtain v k t a s0 s1 d0 d1 rest where
    p: "payload = v # k # t # a # s0 # s1 # d0 # d1 # rest"
    by (rule list8E)
  let ?s = "unat (of_be16 s0 s1)" and ?n = "unat (of_be16 d0 d1)"
  let ?dec = "decode_open_destination payload (8 + ?s) ?n (TransportProtocol_of_u8 t) (AddressKind_of_u8 a)"
  from run have len: "8 + ?s + ?n = length payload" and known: "IsKnownAddressKind (AddressKind_of_u8 a)"
    and none: "?dec = None \<or>
      (\<exists>d off k. ?dec = Some (Success (d, off)) \<and> ValidateDestination k d = None)"
    by (auto simp: p DecodeOpen_def Let_def kOpenPrefixSize_def bind_None_iff split: if_splits)
  show False
    using none
  proof
    assume "?dec = None"
    then show False using decode_open_destination_in_bounds len by simp
  next
    assume "\<exists>d off k. ?dec = Some (Success (d, off)) \<and> ValidateDestination k d = None"
    then obtain d off k where "?dec = Some (Success (d, off))" and none': "ValidateDestination k d = None"
      by blast
    from decode_open_destination_sound(3) [OF this(1) len known] none'
    show False using ValidateDestination_in_bounds by simp
  qed
qed

lemma DecodeOpen_complete:
  assumes valid: "open_valid r" and ok: "open_ok r"
  shows "DecodeOpen (open_bytes r) = Some (Success r)"
proof -
  let ?d = "o_destination r" and ?name = "o_service_name r"
  from ok have name: "valid_service_name ?name" and dok: "destination_ok (o_service_kind r) ?d"
    by (auto simp: open_ok_def)
  note known = destination_ok_known [OF dok]
  note size = open_size [OF ok valid] length_open_destination_bytes [OF dok valid]
  note nlen = valid_service_name_length [OF name]
  obtain off where dec: "decode_open_destination ((open_prefix r @ ?name) @ open_destination_bytes ?d)
      (8 + length ?name) (open_destination_length ?d) (d_transport ?d) (d_address_kind ?d)
      = Some (Success (?d, off))"
    by (rule decode_open_destination_complete [OF dok valid, where pre = "open_prefix r @ ?name"]) auto
  have service: "subspan (open_bytes r) 8 (length ?name) = Some ?name"
    by (simp add: open_bytes_def subspan_append)
  have "open_bytes r ! 0 = kWireVersion"
    "open_bytes r ! 1 = u8_of_ServiceKind (o_service_kind r)"
    "open_bytes r ! 2 = u8_of_TransportProtocol (d_transport ?d)"
    "open_bytes r ! 3 = u8_of_AddressKind (d_address_kind ?d)"
    by (simp_all add: open_bytes_def open_prefix_def)
  moreover have "read_u16_be (open_bytes r) 4 = Some (of_nat (length ?name))"
    "read_u16_be (open_bytes r) 6 = Some (of_nat (open_destination_length ?d))"
    by (simp_all add: open_bytes_def open_prefix_def be16_def)
  moreover have "ValidateDestination (o_service_kind r) ?d = Some (Success ())"
    by (simp add: ValidateDestination_ok [OF valid] dok)
  moreover have "?name \<noteq> []"
    using nlen by auto
  ultimately show ?thesis
    using known size nlen dec service name
    by (simp add: DecodeOpen_def Let_def kMaxOpenPayload_def kOpenPrefixSize_def
        kMaxServiceNameBytes_def open_bytes_def del: read_u16_be_in subspan_in)
qed

lemma DecodeOpen_sound:
  assumes dec: "DecodeOpen payload = Some (Success r)"
  shows "open_valid r \<and> open_ok r \<and> payload = open_bytes r"
proof -
  from dec have "8 \<le> length payload"
    by (auto simp: DecodeOpen_def kOpenPrefixSize_def split: if_splits)
  then obtain v k t a s0 s1 d0 d1 rest where
    p: "payload = v # k # t # a # s0 # s1 # d0 # d1 # rest"
    by (rule list8E)
  let ?s = "unat (of_be16 s0 s1)" and ?n = "unat (of_be16 d0 d1)"
  from dec obtain d off where
    v: "v = kWireVersion" and known: "IsKnownServiceKind (ServiceKind_of_u8 k)"
      "IsKnownTransport (TransportProtocol_of_u8 t)" "IsKnownAddressKind (AddressKind_of_u8 a)"
    and len: "length rest = ?s + ?n"
    and name: "valid_service_name (take ?s rest)"
    and dd: "decode_open_destination payload (8 + ?s) ?n (TransportProtocol_of_u8 t) (AddressKind_of_u8 a)
        = Some (Success (d, off))"
    and vd: "ValidateDestination (ServiceKind_of_u8 k) d = Some (Success ())"
    and r: "r = \<lparr>o_service_kind = ServiceKind_of_u8 k, o_service_name = take ?s rest, o_destination = d\<rparr>"
    by (auto simp: p DecodeOpen_def Let_def kOpenPrefixSize_def bind_eq_Some_conv
        split: if_splits)
  have total: "8 + ?s + ?n = length payload" by (simp add: p len)
  note d = decode_open_destination_sound [OF dd total known(3)]
  have dok: "destination_ok (ServiceKind_of_u8 k) d"
    using vd ValidateDestination_ok [OF d(3)] by simp
  have db: "open_destination_bytes d = drop ?s rest"
  proof -
    have "drop (8 + ?s) payload = drop ?s (drop 8 payload)"
      by (simp add: add.commute)
    with d(4) show ?thesis by (simp add: p)
  qed
  have n: "open_destination_length d = ?n"
    using length_open_destination_bytes(1) [OF dok d(3)] by (simp add: db len)
  have "open_bytes r = [v, k, t, a] @ be16 (of_be16 s0 s1) @ be16 (of_be16 d0 d1)
      @ take ?s rest @ drop ?s rest"
    using d(1,2) n len by (simp add: r open_bytes_def open_prefix_def v db del: be16_of_be16)
  with d(3) dok name show ?thesis
    by (simp add: r p open_ok_def)
qed

interpretation open_request: exact_codec EncodeOpen DecodeOpen open_valid
proof unfold_locales
  fix r bs
  show "EncodeOpen r \<noteq> None" if "open_valid r"
    using EncodeOpen_eq [OF that] by auto
  show "DecodeOpen bs = Some (Success r)" if "open_valid r" "EncodeOpen r = Some (Success bs)"
    using EncodeOpen_eq [OF that(1)] that DecodeOpen_complete by (auto split: if_splits)
  show "EncodeOpen r = Some (Success bs)" "open_valid r" if "DecodeOpen bs = Some (Success r)"
    using DecodeOpen_sound [OF that] EncodeOpen_eq [of r] by auto
qed (rule DecodeOpen_in_bounds)

section \<open>Properties\<close>

text \<open>C19: an OPEN payload decodes to a request exactly when the encoder produces that payload
  from the request, so every accepted payload is canonical, and no payload makes the decoder
  read out of range.\<close>

theorem open_request_canonical:
  "(DecodeOpen bs = Some (Success r) \<longleftrightarrow>
      length (d_address (o_destination r)) = 16 \<and> EncodeOpen r = Some (Success bs)) \<and>
   DecodeOpen bs \<noteq> None"
  using open_request.exact_iff [of bs r] open_request.decode_in_bounds [of bs] by simp

text \<open>The encoder of OPEN returns a payload of at most 392 bytes exactly for the requests
  with a service name of the grammar and a destination that fits the service kind, and
  refuses every other request.\<close>

theorem open_encoder_total:
  assumes "length (d_address (o_destination r)) = 16"
  shows "(\<exists>bs. EncodeOpen r = Some (Success bs) \<and> length bs \<le> 392) \<and> open_ok r \<or>
    (\<exists>e. EncodeOpen r = Some (Failure e 0)) \<and> \<not> open_ok r"
proof (cases "open_ok r")
  case True
  then show ?thesis using EncodeOpen_eq [OF assms] open_size [OF True assms] by auto
next
  case False
  then show ?thesis using EncodeOpen_eq [OF assms] by auto
qed

end
