(* ===== verification/Ytp_Capabilities.thy ===== *)
theory Ytp_Capabilities
  imports Ytp_Open
begin

text \<open>
  The capability manifest of YTP/1 (\<^verbatim>\<open>src/src/ytp/protocol.cpp\<close>): a list of services with
  their concurrency limits, encoded in the order of name and kind, and the session's epoch
  size.
\<close>

section \<open>Data\<close>

definition kMaxCapabilities :: nat where "kMaxCapabilities = 256"
definition kMaxCapabilityManifestSize :: nat where "kMaxCapabilityManifestSize = 65536"
definition kMaxCapabilityConcurrentStreams :: u32 where
  "kMaxCapabilityConcurrentStreams = push_bit 20 1"
definition kCapabilityManifestSchema :: u8 where "kCapabilityManifestSchema = 2"
definition kMinEpochPayloadBytes :: u32 where "kMinEpochPayloadBytes = push_bit 20 1"
definition kMaxEpochPayloadBytes :: u32 where "kMaxEpochPayloadBytes = push_bit 26 1"
definition kCapabilityPrefixSize :: nat where "kCapabilityPrefixSize = 8"
definition kCapabilityEntryPrefixSize :: nat where "kCapabilityEntryPrefixSize = 8"

record Capability =
  c_service_name :: bytes
  c_service_kind :: ServiceKind
  c_max_concurrent_streams :: u32

record CapabilityManifest =
  m_entries :: "Capability list"
  m_max_epoch_bytes :: u32

definition IsValidEpochPayloadBytes :: "u32 \<Rightarrow> bool" where
  "IsValidEpochPayloadBytes b \<longleftrightarrow>
     b \<ge> kMinEpochPayloadBytes \<and> b \<le> kMaxEpochPayloadBytes \<and> b AND (b - 1) = 0"

section \<open>Operations\<close>

text \<open>The loop over the common length of the two names; 0 when it finds no difference.\<close>

fun compare_common :: "bytes \<Rightarrow> bytes \<Rightarrow> int" where
  "compare_common (l # ls) (r # rs) =
     (if l < r then -1 else if l > r then 1 else compare_common ls rs)"
| "compare_common _ _ = 0"

definition CompareCapabilityKeys :: "bytes \<Rightarrow> ServiceKind \<Rightarrow> bytes \<Rightarrow> ServiceKind \<Rightarrow> int" where
  "CompareCapabilityKeys lhs_name lhs_kind rhs_name rhs_kind =
     (if compare_common lhs_name rhs_name \<noteq> 0 then compare_common lhs_name rhs_name
      else if length lhs_name < length rhs_name then -1
      else if length lhs_name > length rhs_name then 1
      else if u8_of_ServiceKind lhs_kind < u8_of_ServiceKind rhs_kind then -1
      else if u8_of_ServiceKind lhs_kind > u8_of_ServiceKind rhs_kind then 1
      else 0)"

text \<open>
  The loop of \<^verbatim>\<open>ValidateCapabilityManifestEncoding\<close>: entries left, offset, previous key. Its
  result is the offset after the last entry.
\<close>

primrec validate_entries ::
  "nat \<Rightarrow> bytes \<Rightarrow> nat \<Rightarrow> (bytes \<times> ServiceKind) option \<Rightarrow> nat Result option" where
  "validate_entries 0 payload offset previous = Some (Success offset)"
| "validate_entries (Suc n) payload offset previous = do {
     remaining \<leftarrow> size_sub (length payload) offset;
     if remaining < kCapabilityEntryPrefixSize then Some (Failure Truncated offset)
     else do {
       raw_kind \<leftarrow> byte_at payload offset;
       let kind = ServiceKind_of_u8 raw_kind;
       if \<not> IsKnownServiceKind kind then Some (Failure InvalidEnum offset)
       else do {
         reserved \<leftarrow> byte_at payload (offset + 1);
         if reserved \<noteq> 0 then Some (Failure InvalidFlags (offset + 1))
         else do {
           raw_length \<leftarrow> read_u16_be payload (offset + 2);
           max_streams \<leftarrow> read_u32_be payload (offset + 4);
           let name_length = unat raw_length;
           let offset = offset + kCapabilityEntryPrefixSize;
           if name_length = 0 \<or> name_length > kMaxServiceNameBytes
           then Some (Failure InvalidServiceName (offset - 6))
           else do {
             remaining \<leftarrow> size_sub (length payload) offset;
             if name_length > remaining then Some (Failure Truncated offset)
             else if max_streams = 0 \<or> max_streams > kMaxCapabilityConcurrentStreams
               then Some (Failure InvalidField (offset - 4))
             else do {
               name \<leftarrow> subspan payload offset name_length;
               if \<not> valid_service_name name then Some (Failure InvalidUtf8 offset)
               else
                 let order = (case previous of None \<Rightarrow> -1
                              | Some (previous_name, previous_kind) \<Rightarrow>
                                  CompareCapabilityKeys previous_name previous_kind name kind)
                 in if order = 0 then Some (Failure DuplicateField offset)
                    else if order > 0 then Some (Failure OutOfOrderField offset)
                    else validate_entries n payload (offset + name_length) (Some (name, kind))
             }
           }
         }
       }
     }
   }"

definition ValidateCapabilityManifestEncoding :: "bytes \<Rightarrow> Status option" where
  "ValidateCapabilityManifestEncoding payload =
     (if length payload > kMaxCapabilityManifestSize then Some (Failure PayloadTooLarge 0)
      else if length payload < kCapabilityPrefixSize then Some (Failure Truncated (length payload))
      else do {
        schema \<leftarrow> byte_at payload 0;
        if schema \<noteq> kCapabilityManifestSchema then Some (Failure UnsupportedVersion 0)
        else do {
          reserved \<leftarrow> byte_at payload 1;
          if reserved \<noteq> 0 then Some (Failure InvalidFlags 1)
          else do {
            raw_count \<leftarrow> read_u16_be payload 2;
            let count = unat raw_count;
            if count > kMaxCapabilities then Some (Failure TooManyFields 2)
            else do {
              epoch \<leftarrow> read_u32_be payload 4;
              if \<not> IsValidEpochPayloadBytes epoch then Some (Failure InvalidField 4)
              else do {
                entries \<leftarrow> validate_entries count payload kCapabilityPrefixSize None;
                case entries of
                  Failure e n \<Rightarrow> Some (Failure e n)
                | Success offset \<Rightarrow>
                    if offset \<noteq> length payload then Some (Failure TrailingData offset)
                    else Some (Success ())
              }
            }
          }
        }
      })"

text \<open>The per-entry checks of the encoder, in its loop's order.\<close>

primrec check_entries :: "Capability list \<Rightarrow> Status" where
  "check_entries [] = Success ()"
| "check_entries (entry # entries) =
     (if \<not> IsKnownServiceKind (c_service_kind entry) then Failure InvalidEnum 0
      else if \<not> valid_service_name (c_service_name entry) then Failure InvalidServiceName 0
      else if c_max_concurrent_streams entry = 0 \<or>
              c_max_concurrent_streams entry > kMaxCapabilityConcurrentStreams
        then Failure InvalidField 0
      else check_entries entries)"

definition capability_less :: "Capability \<Rightarrow> Capability \<Rightarrow> bool" where
  "capability_less lhs rhs \<longleftrightarrow>
     CompareCapabilityKeys (c_service_name lhs) (c_service_kind lhs)
       (c_service_name rhs) (c_service_kind rhs) < 0"

fun adjacent_duplicate :: "Capability list \<Rightarrow> bool" where
  "adjacent_duplicate (a # b # rest) =
     (CompareCapabilityKeys (c_service_name a) (c_service_kind a)
        (c_service_name b) (c_service_kind b) = 0 \<or> adjacent_duplicate (b # rest))"
| "adjacent_duplicate _ = False"

primrec manifest_total :: "nat \<Rightarrow> Capability list \<Rightarrow> nat Result option" where
  "manifest_total so_far [] = Some (Success so_far)"
| "manifest_total so_far (entry # entries) = do {
     room \<leftarrow> size_sub kMaxCapabilityManifestSize kCapabilityEntryPrefixSize;
     if so_far > room then Some (Failure PayloadTooLarge 0)
     else do {
       left \<leftarrow> size_sub kMaxCapabilityManifestSize so_far;
       left \<leftarrow> size_sub left kCapabilityEntryPrefixSize;
       if length (c_service_name entry) > left then Some (Failure PayloadTooLarge 0)
       else manifest_total (so_far + kCapabilityEntryPrefixSize + length (c_service_name entry)) entries
     }
   }"

primrec write_entries :: "bytes \<Rightarrow> nat \<Rightarrow> Capability list \<Rightarrow> bytes option" where
  "write_entries output offset [] = Some output"
| "write_entries output offset (entry # entries) = do {
     output \<leftarrow> put_byte output offset (u8_of_ServiceKind (c_service_kind entry));
     output \<leftarrow> put_byte output (offset + 1) 0;
     output \<leftarrow> write_u16_be output (offset + 2) (of_nat (length (c_service_name entry)));
     output \<leftarrow> write_u32_be output (offset + 4) (c_max_concurrent_streams entry);
     let offset = offset + kCapabilityEntryPrefixSize;
     output \<leftarrow> copy_to output offset (c_service_name entry);
     write_entries output (offset + length (c_service_name entry)) entries
   }"

definition EncodeCapabilityManifest :: "CapabilityManifest \<Rightarrow> bytes Result option" where
  "EncodeCapabilityManifest manifest =
     (if length (m_entries manifest) > kMaxCapabilities then Some (Failure TooManyFields 0)
      else if \<not> IsValidEpochPayloadBytes (m_max_epoch_bytes manifest) then Some (Failure InvalidField 0)
      else case check_entries (m_entries manifest) of
        Failure e n \<Rightarrow> Some (Failure e n)
      | Success _ \<Rightarrow>
          let entries = std_sort capability_less (m_entries manifest) in
          if adjacent_duplicate entries then Some (Failure DuplicateField 0)
          else do {
            measured \<leftarrow> manifest_total kCapabilityPrefixSize entries;
            case measured of
              Failure e n \<Rightarrow> Some (Failure e n)
            | Success bytes_needed \<Rightarrow> do {
                let output = replicate bytes_needed 0;
                output \<leftarrow> put_byte output 0 kCapabilityManifestSchema;
                output \<leftarrow> put_byte output 1 0;
                output \<leftarrow> write_u16_be output 2 (of_nat (length entries));
                output \<leftarrow> write_u32_be output 4 (m_max_epoch_bytes manifest);
                output \<leftarrow> write_entries output kCapabilityPrefixSize entries;
                Some (Success output)
              }
          })"

primrec decode_entries :: "nat \<Rightarrow> bytes \<Rightarrow> nat \<Rightarrow> Capability list option" where
  "decode_entries 0 payload offset = Some []"
| "decode_entries (Suc n) payload offset = do {
     kind \<leftarrow> byte_at payload offset;
     name_length \<leftarrow> read_u16_be payload (offset + 2);
     max_streams \<leftarrow> read_u32_be payload (offset + 4);
     let offset = offset + kCapabilityEntryPrefixSize;
     name \<leftarrow> subspan payload offset (unat name_length);
     entries \<leftarrow> decode_entries n payload (offset + unat name_length);
     Some (\<lparr>c_service_name = name, c_service_kind = ServiceKind_of_u8 kind,
            c_max_concurrent_streams = max_streams\<rparr> # entries)
   }"

definition DecodeCapabilityManifest :: "bytes \<Rightarrow> CapabilityManifest Result option" where
  "DecodeCapabilityManifest payload = do {
     validation \<leftarrow> ValidateCapabilityManifestEncoding payload;
     case validation of
       Failure e n \<Rightarrow> Some (Failure e n)
     | Success _ \<Rightarrow> do {
         count \<leftarrow> read_u16_be payload 2;
         epoch \<leftarrow> read_u32_be payload 4;
         entries \<leftarrow> decode_entries (unat count) payload kCapabilityPrefixSize;
         Some (Success \<lparr>m_entries = entries, m_max_epoch_bytes = epoch\<rparr>)
       }
   }"


section \<open>The order of the keys\<close>

definition capability_key :: "Capability \<Rightarrow> bytes \<times> u8" where
  "capability_key c = (c_service_name c, u8_of_ServiceKind (c_service_kind c))"

lemma Nil_less_iff [simp]: "[] < xs \<longleftrightarrow> xs \<noteq> []"
  by (cases xs) auto

lemma compare_common_cases:
  "(compare_common ls rs < 0 \<or> compare_common ls rs = 0 \<and> length ls < length rs \<longleftrightarrow> ls < rs) \<and>
   (compare_common ls rs = 0 \<and> length ls = length rs \<longleftrightarrow> ls = rs)"
  by (induction ls rs rule: compare_common.induct)
     (auto simp: not_less_iff_gr_or_eq split: list.split)

text \<open>
  The hand-written comparison is the lexicographic order on names (a proper prefix comes
  first), then on kinds.
\<close>

lemma CompareCapabilityKeys_less:
  "CompareCapabilityKeys ln lk rn rk < 0 \<longleftrightarrow>
     (ln, u8_of_ServiceKind lk) < (rn, u8_of_ServiceKind rk)"
  using compare_common_cases [of ln rn]
  by (auto simp: CompareCapabilityKeys_def less_prod_simp)

lemma CompareCapabilityKeys_equal:
  "CompareCapabilityKeys ln lk rn rk = 0 \<longleftrightarrow>
     (ln, u8_of_ServiceKind lk) = (rn, u8_of_ServiceKind rk)"
  using compare_common_cases [of ln rn]
  by (auto simp: CompareCapabilityKeys_def not_less_iff_gr_or_eq)


lemma capability_less_key: "capability_less a b \<longleftrightarrow> capability_key a < capability_key b"
  by (simp add: capability_less_def CompareCapabilityKeys_less capability_key_def)

section \<open>Entries on the wire\<close>

definition entry_ok :: "Capability \<Rightarrow> bool" where
  "entry_ok c \<longleftrightarrow> IsKnownServiceKind (c_service_kind c) \<and> valid_service_name (c_service_name c) \<and>
     c_max_concurrent_streams c \<noteq> 0 \<and>
     c_max_concurrent_streams c \<le> kMaxCapabilityConcurrentStreams"

definition entry_bytes :: "Capability \<Rightarrow> bytes" where
  "entry_bytes c = [u8_of_ServiceKind (c_service_kind c), 0]
     @ be16 (of_nat (length (c_service_name c))) @ be32 (c_max_concurrent_streams c)
     @ c_service_name c"

lemma length_entry_bytes [simp]: "length (entry_bytes c) = 8 + length (c_service_name c)"
  by (simp add: entry_bytes_def)

definition after :: "(bytes \<times> ServiceKind) option \<Rightarrow> Capability \<Rightarrow> bool" where
  "after previous c \<longleftrightarrow>
     (case previous of None \<Rightarrow> True
      | Some (name, kind) \<Rightarrow> (name, u8_of_ServiceKind kind) < capability_key c)"

primrec chain :: "(bytes \<times> ServiceKind) option \<Rightarrow> Capability list \<Rightarrow> bool" where
  "chain previous [] = True"
| "chain previous (c # cs) = (after previous c \<and> chain (Some (c_service_name c, c_service_kind c)) cs)"

lemma chain_sorted:
  "chain previous cs \<longleftrightarrow>
     sorted_wrt (\<lambda>a b. capability_key a < capability_key b) cs \<and> (\<forall>c \<in> set cs. after previous c)"
proof (induction cs arbitrary: previous)
  case (Cons c cs)
  have "after (Some (c_service_name c, c_service_kind c)) d \<longleftrightarrow> capability_key c < capability_key d" for d
    by (simp add: after_def capability_key_def)
  moreover have "after previous d" if "after previous c" "capability_key c < capability_key d" for d
    using that by (auto simp: after_def split: option.splits)
  ultimately show ?case by (auto simp: Cons.IH)
qed simp

text \<open>One round of the validator on a buffer whose next eight bytes are known.\<close>

lemma validate_entries_step:
  "validate_entries (Suc n) (pre @ b0 # b1 # b2 # b3 # b4 # b5 # b6 # b7 # rest) (length pre) previous =
   (let c = \<lparr>c_service_name = take (unat (of_be16 b2 b3)) rest,
             c_service_kind = ServiceKind_of_u8 b0, c_max_concurrent_streams = of_be32 b4 b5 b6 b7\<rparr>;
        offset = length pre + 8; name_length = unat (of_be16 b2 b3)
    in if \<not> IsKnownServiceKind (c_service_kind c) then Some (Failure InvalidEnum (length pre))
       else if b1 \<noteq> 0 then Some (Failure InvalidFlags (length pre + 1))
       else if name_length = 0 \<or> name_length > kMaxServiceNameBytes
         then Some (Failure InvalidServiceName (offset - 6))
       else if name_length > length rest then Some (Failure Truncated offset)
       else if c_max_concurrent_streams c = 0 \<or>
               c_max_concurrent_streams c > kMaxCapabilityConcurrentStreams
         then Some (Failure InvalidField (offset - 4))
       else if \<not> valid_service_name (c_service_name c) then Some (Failure InvalidUtf8 offset)
       else if after previous c
         then validate_entries n (pre @ b0 # b1 # b2 # b3 # b4 # b5 # b6 # b7 # rest)
                (offset + name_length) (Some (c_service_name c, c_service_kind c))
       else Some (Failure (if \<exists>name kind. previous = Some (name, kind) \<and>
                               (name, u8_of_ServiceKind kind) = capability_key c
                           then DuplicateField else OutOfOrderField) offset))"
proof -
  have reads:
    "byte_at (pre @ b0 # rest) (length pre) = Some b0"
    "byte_at (pre @ b0 # b1 # rest) (Suc (length pre)) = Some b1"
    "read_u16_be (pre @ b0 # b1 # b2 # b3 # rest) (Suc (Suc (length pre))) = Some (of_be16 b2 b3)"
    "read_u32_be (pre @ b0 # b1 # b2 # b3 # b4 # b5 # b6 # b7 # rest) (length pre + 4)
       = Some (of_be32 b4 b5 b6 b7)"
    for b0 b1 b2 b3 b4 b5 b6 b7 rest
    by (simp_all add: nth_append)
  have name: "subspan (pre @ b0 # b1 # b2 # b3 # b4 # b5 # b6 # b7 # rest) (length pre + 8) k
      = Some (take k rest)" if "k \<le> length rest" for k b0 b1 b2 b3 b4 b5 b6 b7 rest
    using that by simp
  have ord: "(case previous of None \<Rightarrow> -1 | Some (previous_name, previous_kind) \<Rightarrow>
       CompareCapabilityKeys previous_name previous_kind nm kd) < 0
     \<longleftrightarrow> after previous \<lparr>c_service_name = nm, c_service_kind = kd,
           c_max_concurrent_streams = of_be32 b4 b5 b6 b7\<rparr>"
    "(case previous of None \<Rightarrow> -1 | Some (previous_name, previous_kind) \<Rightarrow>
       CompareCapabilityKeys previous_name previous_kind nm kd) = 0
     \<longleftrightarrow> (\<exists>name kind. previous = Some (name, kind) \<and> (name, u8_of_ServiceKind kind) =
           capability_key \<lparr>c_service_name = nm, c_service_kind = kd,
             c_max_concurrent_streams = of_be32 b4 b5 b6 b7\<rparr>)"
    for nm kd
    by (auto simp: after_def capability_key_def CompareCapabilityKeys_less
        CompareCapabilityKeys_equal split: option.splits)
  have pick: "(if (x::int) = 0 then A else if x > 0 then B else C)
      = (if x < 0 then C else if x = 0 then A else B)" for x A B C
    by auto
  show ?thesis
    unfolding validate_entries.simps Let_def pick
    by (simp add: reads name ord kCapabilityEntryPrefixSize_def
        del: read_u16_be_in read_u32_be_in byte_at_in subspan_in cong: if_cong) blast
qed


lemma entry_bytes_explicit:
  "length name = unat (of_be16 b2 b3) \<Longrightarrow>
   entry_bytes \<lparr>c_service_name = name, c_service_kind = ServiceKind_of_u8 b0,
     c_max_concurrent_streams = of_be32 b4 b5 b6 b7\<rparr>
   = b0 # 0 # b2 # b3 # b4 # b5 # b6 # b7 # name"
  by (simp add: entry_bytes_def)

lemma buffer_split8:
  assumes "offset + 8 \<le> length payload"
  obtains b0 b1 b2 b3 b4 b5 b6 b7 rest where
    "payload = take offset payload @ b0 # b1 # b2 # b3 # b4 # b5 # b6 # b7 # rest"
    and "length (take offset payload) = offset"
proof -
  have "8 \<le> length (drop offset payload)" using assms by simp
  then obtain b0 b1 b2 b3 b4 b5 b6 b7 rest where
    "drop offset payload = b0 # b1 # b2 # b3 # b4 # b5 # b6 # b7 # rest" by (rule list8E)
  then have "payload = take offset payload @ b0 # b1 # b2 # b3 # b4 # b5 # b6 # b7 # rest"
    by (metis append_take_drop_id)
  then show thesis by (rule that) (use assms in simp)
qed

lemma validate_entries_short:
  "offset \<le> length payload \<Longrightarrow> length payload < offset + 8 \<Longrightarrow>
   validate_entries (Suc n) payload offset previous = Some (Failure Truncated offset)"
  by (simp add: kCapabilityEntryPrefixSize_def less_diff_conv2)

lemma validate_entries_in_bounds:
  "offset \<le> length payload \<Longrightarrow> validate_entries n payload offset previous \<noteq> None"
proof (induction n arbitrary: offset previous)
  case (Suc n)
  show ?case
  proof (cases "offset + 8 \<le> length payload")
    case True
    then obtain b0 b1 b2 b3 b4 b5 b6 b7 rest where
      p: "payload = take offset payload @ b0 # b1 # b2 # b3 # b4 # b5 # b6 # b7 # rest"
      and len: "length (take offset payload) = offset" by (rule buffer_split8)
    have "length payload = offset + 8 + length rest"
      using len by (subst p) simp
    then have "validate_entries n payload (offset + 8 + k) q \<noteq> None" if "k \<le> length rest" for k q
      using that by (intro Suc.IH) simp
    then show ?thesis
      using validate_entries_step [of n "take offset payload" b0 b1 b2 b3 b4 b5 b6 b7 rest previous]
      unfolding p [symmetric] len by (auto simp: Let_def)
  next
    case False
    with Suc.prems show ?thesis by (simp add: validate_entries_short del: validate_entries.simps)
  qed
qed simp

text \<open>What the validator accepts is a run of well-formed entries in strictly rising order.\<close>

lemma validate_entries_sound:
  "validate_entries n payload offset previous = Some (Success end) \<Longrightarrow> offset \<le> length payload \<Longrightarrow>
   \<exists>es. length es = n \<and> list_all entry_ok es \<and> chain previous es \<and>
     end \<le> length payload \<and> drop offset payload = concat (map entry_bytes es) @ drop end payload"
proof (induction n arbitrary: offset previous)
  case 0
  then show ?case by simp
next
  case (Suc n)
  have "offset + 8 \<le> length payload"
    using Suc.prems validate_entries_short [of offset payload n previous]
    by (cases "offset + 8 \<le> length payload") (simp_all del: validate_entries.simps)
  then obtain b0 b1 b2 b3 b4 b5 b6 b7 rest where
    p: "payload = take offset payload @ b0 # b1 # b2 # b3 # b4 # b5 # b6 # b7 # rest"
    and len: "length (take offset payload) = offset" by (rule buffer_split8)
  let ?k = "unat (of_be16 b2 b3)"
  let ?c = "\<lparr>c_service_name = take ?k rest, c_service_kind = ServiceKind_of_u8 b0,
      c_max_concurrent_streams = of_be32 b4 b5 b6 b7\<rparr>"
  have "validate_entries (Suc n) payload offset previous = Some (Success end)" by (rule Suc.prems)
  then have b1: "b1 = 0" and ok: "entry_ok ?c" and order: "after previous ?c" and k: "?k \<le> length rest"
    and rest: "validate_entries n payload (offset + 8 + ?k) (Some (c_service_name ?c, c_service_kind ?c))
      = Some (Success end)"
    using validate_entries_step [of n "take offset payload" b0 b1 b2 b3 b4 b5 b6 b7 rest previous]
    unfolding p [symmetric] len by (auto simp: Let_def entry_ok_def split: if_splits)
  have total: "length payload = offset + 8 + length rest"
    using len by (subst p) simp
  with k have "offset + 8 + ?k \<le> length payload" by simp
  from Suc.IH [OF rest this] obtain es where es: "length es = n" "list_all entry_ok es"
    "chain (Some (c_service_name ?c, c_service_kind ?c)) es" "end \<le> length payload"
    "drop (offset + 8 + ?k) payload = concat (map entry_bytes es) @ drop end payload" by blast
  have tail: "drop offset payload = b0 # b1 # b2 # b3 # b4 # b5 # b6 # b7 # rest"
    using len by (subst p) simp
  have "drop (offset + 8 + ?k) payload = drop ?k (drop 8 (drop offset payload))"
    by (simp add: ac_simps)
  then have "drop (offset + 8 + ?k) payload = drop ?k rest"
    unfolding tail by simp
  moreover have "b0 # 0 # b2 # b3 # b4 # b5 # b6 # b7 # take ?k rest = entry_bytes ?c"
    by (rule entry_bytes_explicit [symmetric]) (use k in simp)
  ultimately have "drop offset payload = entry_bytes ?c @ concat (map entry_bytes es) @ drop end payload"
    using es(5) tail b1 append_take_drop_id [of ?k rest] by (metis append_Cons)
  with es ok order show ?case
    by (intro exI [of _ "?c # es"]) simp
qed


lemma entry_bytes_read:
  assumes "entry_ok c"
  obtains b0 b2 b3 b4 b5 b6 b7 where
    "entry_bytes c = b0 # 0 # b2 # b3 # b4 # b5 # b6 # b7 # c_service_name c"
    and "ServiceKind_of_u8 b0 = c_service_kind c"
    and "of_be16 b2 b3 = of_nat (length (c_service_name c))"
    and "of_be32 b4 b5 b6 b7 = c_max_concurrent_streams c"
    and "unat (of_be16 b2 b3) = length (c_service_name c)"
    and "1 \<le> length (c_service_name c)" and "length (c_service_name c) \<le> 128"
proof -
  from assms valid_service_name_length have len:
    "1 \<le> length (c_service_name c) \<and> length (c_service_name c) \<le> 128"
    by (auto simp: entry_ok_def)
  let ?n = "of_nat (length (c_service_name c)) :: u16" and ?m = "c_max_concurrent_streams c"
  show thesis
    by (rule that [of "u8_of_ServiceKind (c_service_kind c)" "ucast (drop_bit 8 ?n)" "ucast ?n"
          "ucast (drop_bit 24 ?m)" "ucast (drop_bit 16 ?m)" "ucast (drop_bit 8 ?m)" "ucast ?m"])
       (use assms len in \<open>simp_all add: entry_bytes_def be16_def be32_def entry_ok_def\<close>)
qed

lemma validate_entries_complete:
  "list_all entry_ok es \<Longrightarrow> chain previous es \<Longrightarrow>
   validate_entries (length es) (pre @ concat (map entry_bytes es) @ post) (length pre) previous
     = Some (Success (length pre + length (concat (map entry_bytes es))))"
proof (induction es arbitrary: pre previous)
  case (Cons c es)
  then have ok: "entry_ok c" by simp
  let ?tail = "concat (map entry_bytes es) @ post"
  from ok obtain b0 b2 b3 b4 b5 b6 b7 where
    e: "entry_bytes c = b0 # 0 # b2 # b3 # b4 # b5 # b6 # b7 # c_service_name c"
    and c: "ServiceKind_of_u8 b0 = c_service_kind c" "of_be32 b4 b5 b6 b7 = c_max_concurrent_streams c"
    and k: "unat (of_be16 b2 b3) = length (c_service_name c)"
      "1 \<le> length (c_service_name c)" "length (c_service_name c) \<le> 128"
    by (rule entry_bytes_read)
  have facts: "c_service_name c \<noteq> []" "IsKnownServiceKind (c_service_kind c)"
      "valid_service_name (c_service_name c)" "c_max_concurrent_streams c \<noteq> 0"
      "\<not> c_max_concurrent_streams c > kMaxCapabilityConcurrentStreams" "after previous c"
    using ok k Cons.prems(2) by (auto simp: entry_ok_def)
  have same: "\<lparr>c_service_name = c_service_name c, c_service_kind = c_service_kind c,
      c_max_concurrent_streams = c_max_concurrent_streams c\<rparr> = c" by simp
  have P: "pre @ entry_bytes c @ ?tail = pre @ b0 # 0 # b2 # b3 # b4 # b5 # b6 # b7 # (c_service_name c @ ?tail)"
    by (simp add: e)
  have "validate_entries (Suc (length es)) (pre @ entry_bytes c @ ?tail) (length pre) previous =
      validate_entries (length es) (pre @ entry_bytes c @ ?tail) (length pre + 8 + length (c_service_name c))
        (Some (c_service_name c, c_service_kind c))"
    unfolding P by (subst validate_entries_step)
      (use facts k in \<open>simp add: Let_def c same kMaxServiceNameBytes_def\<close>)
  also have "\<dots> = Some (Success (length pre + length (entry_bytes c) + length (concat (map entry_bytes es))))"
    using Cons.IH [of "Some (c_service_name c, c_service_kind c)" "pre @ entry_bytes c"] Cons.prems
    by (simp add: add.assoc)
  finally show ?case by simp
qed simp

lemma decode_entries_complete:
  "list_all entry_ok es \<Longrightarrow>
   decode_entries (length es) (pre @ concat (map entry_bytes es) @ post) (length pre) = Some es"
proof (induction es arbitrary: pre)
  case (Cons c es)
  then have ok: "entry_ok c" by simp
  let ?tail = "concat (map entry_bytes es) @ post"
  from ok obtain b0 b2 b3 b4 b5 b6 b7 where
    e: "entry_bytes c = b0 # 0 # b2 # b3 # b4 # b5 # b6 # b7 # c_service_name c"
    and c: "ServiceKind_of_u8 b0 = c_service_kind c" "of_be32 b4 b5 b6 b7 = c_max_concurrent_streams c"
    and k: "unat (of_be16 b2 b3) = length (c_service_name c)"
    by (rule entry_bytes_read)
  have P: "pre @ entry_bytes c @ ?tail = pre @ b0 # 0 # b2 # b3 # b4 # b5 # b6 # b7 # (c_service_name c @ ?tail)"
    by (simp add: e)
  have "decode_entries (length es) (pre @ entry_bytes c @ ?tail) (length pre + 8 + length (c_service_name c)) = Some es"
    using Cons.IH [of "pre @ entry_bytes c"] Cons.prems by (simp add: add.assoc)
  then show ?case
    by (simp only: concat.simps list.map append_assoc P list.size decode_entries.simps add_Suc_right)
       (simp add: c k nth_append kCapabilityEntryPrefixSize_def)
qed simp

section \<open>The manifest codec\<close>

definition manifest_ok :: "CapabilityManifest \<Rightarrow> bool" where
  "manifest_ok m \<longleftrightarrow> length (m_entries m) \<le> kMaxCapabilities \<and>
     IsValidEpochPayloadBytes (m_max_epoch_bytes m) \<and>
     list_all entry_ok (m_entries m) \<and> distinct (map capability_key (m_entries m))"

definition manifest_norm :: "CapabilityManifest \<Rightarrow> CapabilityManifest" where
  "manifest_norm m = m\<lparr>m_entries := sort_key capability_key (m_entries m)\<rparr>"

definition manifest_bytes :: "CapabilityManifest \<Rightarrow> bytes" where
  "manifest_bytes m = [kCapabilityManifestSchema] @ [0] @ be16 (of_nat (length (m_entries m)))
     @ be32 (m_max_epoch_bytes m) @ concat (map entry_bytes (m_entries m))"

lemma manifest_ok_norm [simp]: "manifest_ok (manifest_norm m) \<longleftrightarrow> manifest_ok m"
proof -
  show ?thesis by (simp add: manifest_ok_def manifest_norm_def list_all_iff)
qed

lemma check_entries_ok: "check_entries es = Success () \<longleftrightarrow> list_all entry_ok es"
  by (induction es) (auto simp: entry_ok_def)

lemma adjacent_duplicate_sorted:
  "sorted (map capability_key es) \<Longrightarrow> adjacent_duplicate es \<longleftrightarrow> \<not> distinct (map capability_key es)"
  by (induction es rule: adjacent_duplicate.induct)
     (fastforce simp: CompareCapabilityKeys_equal capability_key_def)+

lemma concat_entries_length:
  "list_all entry_ok es \<Longrightarrow> length (concat (map entry_bytes es)) \<le> 136 * length es"
  by (induction es) (auto simp: entry_ok_def kMaxServiceNameBytes_def dest!: valid_service_name_length)

lemma manifest_total_eq:
  "list_all entry_ok es \<Longrightarrow> so_far + 136 * length es \<le> kMaxCapabilityManifestSize \<Longrightarrow>
   manifest_total so_far es = Some (Success (so_far + length (concat (map entry_bytes es))))"
proof (induction es arbitrary: so_far)
  case (Cons c es)
  then have "length (c_service_name c) \<le> 128"
    by (auto simp: entry_ok_def kMaxServiceNameBytes_def dest!: valid_service_name_length)
  with Cons show ?case
    by (simp add: kMaxCapabilityManifestSize_def kCapabilityEntryPrefixSize_def)
qed simp

lemma write_entries_eq:
  "length rest = length (concat (map entry_bytes es)) \<Longrightarrow>
   write_entries (pre @ rest) (length pre) es = Some (pre @ concat (map entry_bytes es))"
proof (induction es arbitrary: pre rest)
  case (Cons c es)
  let ?rest = "drop (length (entry_bytes c)) rest"
  have "write_entries (pre @ rest) (length pre) (c # es)
      = write_entries ((pre @ entry_bytes c) @ ?rest) (length (pre @ entry_bytes c)) es"
    using Cons.prems
    by (simp add: wire entry_bytes_def kCapabilityEntryPrefixSize_def Let_def
        del: append_assoc append.simps) (simp add: ac_simps)
  also have "\<dots> = Some ((pre @ entry_bytes c) @ concat (map entry_bytes es))"
    by (rule Cons.IH) (use Cons.prems in simp)
  finally show ?case by simp
qed simp

lemma sorted_capabilities: "std_sort capability_less es = sort_key capability_key es"
  by (rule std_sort_key) (rule capability_less_key)

text \<open>The encoder's result; the size refusal inside it is dead, as 256 entries fit in 34824 bytes.\<close>

lemma EncodeCapabilityManifest_eq:
  "\<exists>e. EncodeCapabilityManifest m =
     Some (if manifest_ok m then Success (manifest_bytes (manifest_norm m)) else Failure e 0)"
proof -
  let ?es = "sort_key capability_key (m_entries m)"
  have dup: "adjacent_duplicate ?es \<longleftrightarrow> \<not> distinct (map capability_key (m_entries m))"
    using adjacent_duplicate_sorted [of ?es] by simp
  have checked: "\<exists>e. check_entries es = (if list_all entry_ok es then Success () else Failure e 0)" for es
    by (induction es) (auto simp: entry_ok_def)
  show ?thesis
  proof (cases "manifest_ok m")
    case True
    then have ok: "list_all entry_ok ?es" and len: "length ?es \<le> 256"
      by (simp_all add: manifest_ok_def list_all_iff kMaxCapabilities_def)
    have "manifest_total kCapabilityPrefixSize ?es
        = Some (Success (8 + length (concat (map entry_bytes ?es))))"
      using manifest_total_eq [OF ok, of kCapabilityPrefixSize] len
      by (simp add: kCapabilityPrefixSize_def kMaxCapabilityManifestSize_def)
    moreover have "write_entries (pre @ replicate (length (concat (map entry_bytes ?es))) 0) 8 ?es
        = Some (pre @ concat (map entry_bytes ?es))" if "length pre = 8" for pre
      using write_entries_eq [of "replicate (length (concat (map entry_bytes ?es))) 0" ?es pre] that
      by simp
    moreover have "check_entries (m_entries m) = Success ()"
      using True by (simp add: manifest_ok_def check_entries_ok)
    ultimately show ?thesis
      using True dup
      by (simp add: EncodeCapabilityManifest_def manifest_ok_def sorted_capabilities Let_def wire
          kCapabilityPrefixSize_def manifest_bytes_def manifest_norm_def del: append_assoc append.simps)
  next
    case False
    with checked [of "m_entries m"] dup show ?thesis
      by (auto simp: EncodeCapabilityManifest_def manifest_ok_def sorted_capabilities)
  qed
qed

lemma ValidateCapabilityManifestEncoding_in_bounds: "ValidateCapabilityManifestEncoding payload \<noteq> None"
proof
  assume run: "ValidateCapabilityManifestEncoding payload = None"
  then have "8 \<le> length payload"
    by (auto simp: ValidateCapabilityManifestEncoding_def kCapabilityPrefixSize_def split: if_splits)
  moreover from this have "0 < length payload" by auto
  moreover from calculation(1) have no: "validate_entries n payload 8 None \<noteq> None" for n
    by (rule validate_entries_in_bounds)
  ultimately show False
    using run by (auto simp: no ValidateCapabilityManifestEncoding_def kCapabilityPrefixSize_def Let_def
        bind_None_iff split: if_splits)
qed

lemma manifest_norm_chain:
  "chain None es \<longleftrightarrow> distinct (map capability_key es) \<and> sort_key capability_key es = es"
proof -
  have "sorted_wrt (\<lambda>a b. capability_key a < capability_key b) es \<longleftrightarrow> sorted_wrt (<) (map capability_key es)"
    by (simp add: sorted_wrt_map)
  also have "\<dots> \<longleftrightarrow> distinct (map capability_key es) \<and> sort_key capability_key es = es"
    by (metis sorted_sort_key sort_key_id_if_sorted strict_sorted_iff)
  finally show ?thesis by (simp add: chain_sorted after_def)
qed

lemma manifest_decoded:
  assumes "manifest_ok m" and "manifest_norm m = m"
  shows "ValidateCapabilityManifestEncoding (manifest_bytes m) = Some (Success ())"
    and "DecodeCapabilityManifest (manifest_bytes m) = Some (Success m)"
proof -
  let ?es = "m_entries m" and ?n = "length (m_entries m)"
  obtain b2 b3 where n: "be16 (of_nat ?n) = [b2, b3]" "of_be16 b2 b3 = of_nat ?n"
    using be16_def of_be16_be16 by blast
  obtain b4 b5 b6 b7 where e: "be32 (m_max_epoch_bytes m) = [b4, b5, b6, b7]"
      "of_be32 b4 b5 b6 b7 = m_max_epoch_bytes m"
    using be32_def of_be32_be32 by blast
  let ?pre = "[kCapabilityManifestSchema, 0, b2, b3, b4, b5, b6, b7]"
  have bytes: "manifest_bytes m = ?pre @ concat (map entry_bytes ?es) @ []"
    by (simp add: manifest_bytes_def n e)
  have ok: "list_all entry_ok ?es" "chain None ?es" and len: "?n \<le> 256"
    using assms by (auto simp: manifest_ok_def manifest_norm_chain manifest_norm_def kMaxCapabilities_def
        dest: arg_cong [where f = m_entries])
  have count: "unat (of_be16 b2 b3) = ?n"
    using len by (simp add: n unat_of_size16)
  have room: "length (manifest_bytes m) \<le> kMaxCapabilityManifestSize"
    using concat_entries_length [OF ok(1)] len by (simp add: bytes kMaxCapabilityManifestSize_def)
  have pre8: "length ?pre = 8" by simp
  have sizes: "8 + length (concat (map entry_bytes ?es)) = length (manifest_bytes m)"
    by (simp add: bytes)
  have walk: "validate_entries ?n (manifest_bytes m) 8 None = Some (Success (length (manifest_bytes m)))"
    using validate_entries_complete [OF ok, of ?pre "[]"] by (simp only: bytes [symmetric] pre8 sizes)
  have entries: "decode_entries ?n (manifest_bytes m) 8 = Some ?es"
    using decode_entries_complete [OF ok(1), of ?pre "[]"] by (simp only: bytes [symmetric] pre8)
  have reads: "8 \<le> length (manifest_bytes m)" "manifest_bytes m \<noteq> []" "manifest_bytes m ! 0 = kCapabilityManifestSchema"
      "manifest_bytes m ! 1 = 0" "read_u16_be (manifest_bytes m) 2 = Some (of_nat ?n)"
      "read_u32_be (manifest_bytes m) 4 = Some (m_max_epoch_bytes m)"
    by (simp_all add: bytes n e)
  have fits: "unat (of_nat ?n :: u16) = ?n" using count n by simp
  show valid: "ValidateCapabilityManifestEncoding (manifest_bytes m) = Some (Success ())"
    using reads room walk fits assms(1)
    by (simp add: ValidateCapabilityManifestEncoding_def kCapabilityPrefixSize_def manifest_ok_def
        del: read_u16_be_in read_u32_be_in)
  show "DecodeCapabilityManifest (manifest_bytes m) = Some (Success m)"
    using reads entries fits valid
    by (simp add: DecodeCapabilityManifest_def kCapabilityPrefixSize_def
        del: read_u16_be_in read_u32_be_in)
qed

lemma manifest_validated:
  assumes "ValidateCapabilityManifestEncoding payload = Some (Success ())"
  obtains m where "manifest_ok m" "manifest_norm m = m" "payload = manifest_bytes m"
proof -
  have long: "8 \<le> length payload"
    using assms by (auto simp: ValidateCapabilityManifestEncoding_def kCapabilityPrefixSize_def split: if_splits)
  then obtain b0 b1 b2 b3 b4 b5 b6 b7 rest where p: "payload = b0 # b1 # b2 # b3 # b4 # b5 # b6 # b7 # rest"
    by (rule list8E)
  let ?n = "unat (of_be16 b2 b3)"
  have at: "payload \<noteq> []" "payload ! 0 = b0" "payload ! 1 = b1" "payload ! 2 = b2" "payload ! 3 = b3"
      "payload ! 4 = b4" "payload ! 5 = b5" "payload ! 6 = b6" "payload ! 7 = b7"
    by (simp_all add: p)
  have head: "b0 = kCapabilityManifestSchema" "b1 = 0" "?n \<le> kMaxCapabilities"
      "IsValidEpochPayloadBytes (of_be32 b4 b5 b6 b7)"
      "validate_entries ?n payload 8 None = Some (Success (length payload))"
    using assms long at by (auto simp: ValidateCapabilityManifestEncoding_def kCapabilityPrefixSize_def Let_def
        bind_eq_Some_conv split: if_splits)
  then obtain es where es: "length es = ?n" "list_all entry_ok es" "chain None es"
      "rest = concat (map entry_bytes es)"
    using validate_entries_sound [OF head(5)] by (auto simp: p)
  let ?m = "\<lparr>m_entries = es, m_max_epoch_bytes = of_be32 b4 b5 b6 b7\<rparr>"
  have "be16 (of_nat (length es)) = [b2, b3]"
    by (simp add: es)
  then have "payload = manifest_bytes ?m"
    using head es(4) by (simp add: manifest_bytes_def p)
  moreover have "manifest_ok ?m" "manifest_norm ?m = ?m"
    using head es by (simp_all add: manifest_ok_def manifest_norm_def manifest_norm_chain)
  ultimately show ?thesis using that by blast
qed

lemma manifest_refused:
  assumes "ValidateCapabilityManifestEncoding payload \<noteq> Some (Success ())"
  obtains e n where "ValidateCapabilityManifestEncoding payload = Some (Failure e n)"
    and "DecodeCapabilityManifest payload = Some (Failure e n)"
proof -
  obtain e n where "ValidateCapabilityManifestEncoding payload = Some (Failure e n)"
    using assms ValidateCapabilityManifestEncoding_in_bounds [of payload]
    by (metis not_None_eq result.exhaust old.unit.exhaust)
  then show ?thesis using that by (simp add: DecodeCapabilityManifest_def)
qed

lemma DecodeCapabilityManifest_iff:
  "DecodeCapabilityManifest payload = Some (Success m) \<longleftrightarrow>
     manifest_ok m \<and> manifest_norm m = m \<and> payload = manifest_bytes m"
proof
  assume run: "DecodeCapabilityManifest payload = Some (Success m)"
  then have "ValidateCapabilityManifestEncoding payload = Some (Success ())"
    using manifest_refused [of payload] by fastforce
  then show "manifest_ok m \<and> manifest_norm m = m \<and> payload = manifest_bytes m"
    using run manifest_decoded(2) by (elim manifest_validated) auto
qed (simp add: manifest_decoded)

lemma DecodeCapabilityManifest_in_bounds: "DecodeCapabilityManifest payload \<noteq> None"
  using manifest_refused [of payload] manifest_validated [of payload] manifest_decoded(2)
  by (metis option.distinct(1))

interpretation manifest:
  wire_codec EncodeCapabilityManifest DecodeCapabilityManifest "\<lambda>_. True" manifest_norm
proof
  fix m bs
  have idem: "manifest_norm (manifest_norm m) = manifest_norm m"
    by (simp add: manifest_norm_def sort_key_id_if_sorted)
  show "EncodeCapabilityManifest m \<noteq> None"
    using EncodeCapabilityManifest_eq [of m] by auto
  show "DecodeCapabilityManifest bs = Some (Success (manifest_norm m))"
    if "EncodeCapabilityManifest m = Some (Success bs)"
    using that EncodeCapabilityManifest_eq [of m] idem
    by (auto simp: DecodeCapabilityManifest_iff split: if_splits)
  show "EncodeCapabilityManifest m = Some (Success bs)"
    if "DecodeCapabilityManifest bs = Some (Success m)"
    using that EncodeCapabilityManifest_eq [of m] by (auto simp: DecodeCapabilityManifest_iff)
qed (simp_all add: DecodeCapabilityManifest_in_bounds)

text \<open>The epoch sizes the bit trick accepts are the powers of two between the bounds.\<close>

lemma and_pred_zero_power:
  "0 < n \<Longrightarrow> n AND (n - 1) = (0 :: nat) \<longleftrightarrow> (\<exists>k. n = 2 ^ k)"
proof (induction n rule: less_induct)
  case (less n)
  have step: "n AND (n - 1) = of_bool (odd n \<and> odd (n - 1)) + 2 * ((n div 2) AND ((n - 1) div 2))"
    by (rule and_rec)
  show ?case
  proof (cases "even n")
    case True
    then obtain m where m: "n = 2 * m" by (rule evenE)
    with less.prems have "0 < m" "(2 * m - 1) div 2 = m - 1" by auto
    then have "n AND (n - 1) = 0 \<longleftrightarrow> (\<exists>k. m = 2 ^ k)"
      using less.IH [of m] step m by simp
    also have "\<dots> \<longleftrightarrow> (\<exists>k. n = 2 ^ k)"
    proof
      assume "\<exists>k. n = 2 ^ k"
      then obtain k where "2 * m = 2 ^ k" using m by auto
      then show "\<exists>k. m = 2 ^ k" by (cases k) auto
    qed (auto simp: m intro: exI [of _ "Suc k" for k])
    finally show ?thesis .
  next
    case False
    then obtain m where m: "n = 2 * m + 1" by (rule oddE)
    have "n = 2 ^ k \<longleftrightarrow> m = 0 \<and> k = 0" for k
      using m by (cases k) (auto dest: arg_cong [where f = even])
    then show ?thesis using step m by auto
  qed
qed

lemma IsValidEpochPayloadBytes_power:
  "IsValidEpochPayloadBytes b \<longleftrightarrow> (\<exists>k. 20 \<le> k \<and> k \<le> 26 \<and> unat b = 2 ^ k)"
proof -
  have range: "b \<ge> kMinEpochPayloadBytes \<longleftrightarrow> 2 ^ 20 \<le> unat b" "b \<le> kMaxEpochPayloadBytes \<longleftrightarrow> unat b \<le> 2 ^ 26"
    by (simp_all add: kMinEpochPayloadBytes_def kMaxEpochPayloadBytes_def word_le_nat_alt)
  have "b AND (b - 1) = 0 \<longleftrightarrow> (\<exists>k. unat b = 2 ^ k)" if "2 ^ 20 \<le> unat b"
  proof -
    from that have pos: "0 < unat b" by simp
    then have "unat (b - 1) = unat b - 1"
      by (simp add: unat_gt_0 unat_minus_one)
    then have "unat (b AND (b - 1)) = unat b AND (unat b - 1)"
      by (simp add: unsigned_and_eq)
    then show ?thesis
      using and_pred_zero_power [OF pos] by (metis unsigned_eq_0_iff)
  qed
  moreover have "2 ^ 20 \<le> (2 :: nat) ^ k \<longleftrightarrow> 20 \<le> k" "(2 :: nat) ^ k \<le> 2 ^ 26 \<longleftrightarrow> k \<le> 26" for k :: nat
    by (simp_all only: power_increasing_iff one_less_numeral_iff semiring_norm)
  ultimately show ?thesis
    unfolding IsValidEpochPayloadBytes_def range by metis
qed

section \<open>Properties\<close>

text \<open>C2: a payload decodes to a capability manifest exactly when the encoder writes that
  payload for it and its entries are in key order; neither side accesses a buffer out of range.\<close>

theorem capability_manifest_canonical:
  "(DecodeCapabilityManifest bs = Some (Success m) \<longleftrightarrow>
      manifest_norm m = m \<and> EncodeCapabilityManifest m = Some (Success bs)) \<and>
   DecodeCapabilityManifest bs \<noteq> None \<and> EncodeCapabilityManifest m \<noteq> None"
  using manifest.decode_iff [of bs m] manifest.decode_in_bounds [of bs] manifest.encode_in_bounds [of m]
  by simp

text \<open>C33: the order in which a caller lists the capabilities does not matter: two accepted
  manifests have the same bytes exactly when they have the same entries as a multiset and the
  same epoch size.\<close>

theorem capability_manifest_order_free:
  assumes "EncodeCapabilityManifest m = Some (Success a)" and "EncodeCapabilityManifest n = Some (Success b)"
  shows "a = b \<longleftrightarrow> mset (m_entries m) = mset (m_entries n) \<and> m_max_epoch_bytes m = m_max_epoch_bytes n"
proof -
  have ok: "distinct (map capability_key (m_entries m))" "distinct (map capability_key (m_entries n))"
    using assms EncodeCapabilityManifest_eq [of m] EncodeCapabilityManifest_eq [of n]
    by (auto simp: manifest_ok_def split: if_splits)
  have "mset (m_entries m) = mset (m_entries n) \<longleftrightarrow>
      sort_key capability_key (m_entries m) = sort_key capability_key (m_entries n)"
  proof
    assume "mset (m_entries m) = mset (m_entries n)"
    moreover have "sorted_wrt (\<lambda>x y. capability_key x < capability_key y) (sort_key capability_key (m_entries m))"
      using ok(1) sorted_sort_key [of capability_key "m_entries m"]
      by (simp add: sorted_wrt_map [symmetric] strict_sorted_iff)
    ultimately show "sort_key capability_key (m_entries m) = sort_key capability_key (m_entries n)"
      by (intro sort_key_unique) simp_all
  qed (metis mset_sort)
  then show ?thesis
    using manifest.encode_eq_iff [OF _ _ assms]
    by (cases m; cases n) (auto simp: manifest_norm_def)
qed

theorem capability_manifest_order_free_witness:
  "let e1 = \<lparr>c_service_name = ascii ''a'', c_service_kind = SK_ByteStream, c_max_concurrent_streams = 1\<rparr>;
       e2 = \<lparr>c_service_name = ascii ''b'', c_service_kind = SK_Packet, c_max_concurrent_streams = 2\<rparr>;
       m = \<lparr>m_entries = [e2, e1], m_max_epoch_bytes = 1048576\<rparr>;
       n = \<lparr>m_entries = [e1, e2], m_max_epoch_bytes = 1048576\<rparr>
   in \<exists>bs. EncodeCapabilityManifest m = Some (Success bs) \<and> EncodeCapabilityManifest n = Some (Success bs)"
proof -
  let ?e1 = "\<lparr>c_service_name = ascii ''a'', c_service_kind = SK_ByteStream, c_max_concurrent_streams = 1\<rparr>"
  let ?e2 = "\<lparr>c_service_name = ascii ''b'', c_service_kind = SK_Packet, c_max_concurrent_streams = 2\<rparr>"
  let ?m = "\<lparr>m_entries = [?e2, ?e1], m_max_epoch_bytes = 1048576\<rparr>"
  let ?n = "\<lparr>m_entries = [?e1, ?e2], m_max_epoch_bytes = 1048576\<rparr>"
  have "manifest_ok ?m" "manifest_ok ?n" by code_simp+
  then obtain a b where run: "EncodeCapabilityManifest ?m = Some (Success a)"
      "EncodeCapabilityManifest ?n = Some (Success b)"
    using EncodeCapabilityManifest_eq [of ?m] EncodeCapabilityManifest_eq [of ?n] by auto
  then have "a = b" using capability_manifest_order_free [OF run] by simp
  with run show ?thesis by (simp add: Let_def)
qed

text \<open>The bit test for an epoch size accepts exactly the powers of two from \<open>2 ^ 20\<close> to
  \<open>2 ^ 26\<close>.\<close>

theorem epoch_size_power_of_two:
  "IsValidEpochPayloadBytes b \<longleftrightarrow> (\<exists>k. 20 \<le> k \<and> k \<le> 26 \<and> unat b = 2 ^ k)"
  by (rule IsValidEpochPayloadBytes_power)

end
