(* ===== verification/Ytp_Auth.thy ===== *)
theory Ytp_Auth
  imports Ytp_Capabilities
begin

text \<open>
  The AUTH record of YTP/1 (\<^verbatim>\<open>src/src/ytp/security.cpp\<close>): a message type and a list of tagged
  fields with strictly increasing identifiers. Suite, security parameters and sender role
  are written by the encoder and checked by the decoder; the other fields are the caller's.
\<close>

section \<open>Data\<close>

definition kEpochPayloadBytesPerRecord :: u64 where "kEpochPayloadBytesPerRecord = 2048"

definition EpochRecordLimit :: "u32 \<Rightarrow> u64" where
  "EpochRecordLimit epoch_payload_bytes = ucast epoch_payload_bytes div kEpochPayloadBytesPerRecord"

definition kSuiteId :: bytes where
  "kSuiteId = ascii (''YTP/1:TLS13:H2:ED25519+ML-DSA-87:X25519+ML-KEM-1024:''
     @ ''HKDF-SHA256:AES-256-GCM'')"

definition kTranscriptHashSize :: nat where "kTranscriptHashSize = 32"
definition kX25519PublicKeySize :: nat where "kX25519PublicKeySize = 32"
definition kMlKem1024PublicKeySize :: nat where "kMlKem1024PublicKeySize = 1568"
definition kMlKem1024CiphertextSize :: nat where "kMlKem1024CiphertextSize = 1568"
definition kEd25519SignatureSize :: nat where "kEd25519SignatureSize = 64"
definition kMlDsa87SignatureSize :: nat where "kMlDsa87SignatureSize = 4627"
definition kCompositeSignatureSize :: nat where
  "kCompositeSignatureSize = kEd25519SignatureSize + kMlDsa87SignatureSize"
definition kMaxCompositeIdentitySize :: nat where "kMaxCompositeIdentitySize = 16384"

definition kRequiredSecurityParameters :: bytes where
  "kRequiredSecurityParameters =
     [1, 1, 1, 1, 1, 1, 1, 1, 1, 32, 12, 16, 32, 32, 32, 32, 0x06, 0x20, 0x06, 0x20, 0x00, 0x40, 1, 0]"

definition IsRequiredSecurityParameters :: "bytes \<Rightarrow> bool" where
  "IsRequiredSecurityParameters encoded \<longleftrightarrow> encoded = kRequiredSecurityParameters"

datatype AuthMessageType =
    AMT_Challenge | AMT_Response | AMT_Accepted | AMT_RekeyInit | AMT_RekeyAck | AMT_other u8

definition AuthMessageType_of_u8 :: "u8 \<Rightarrow> AuthMessageType" where
  "AuthMessageType_of_u8 v =
     (if v = 1 then AMT_Challenge else if v = 2 then AMT_Response else if v = 3 then AMT_Accepted
      else if v = 4 then AMT_RekeyInit else if v = 5 then AMT_RekeyAck else AMT_other v)"

fun u8_of_AuthMessageType :: "AuthMessageType \<Rightarrow> u8" where
  "u8_of_AuthMessageType AMT_Challenge = 1"
| "u8_of_AuthMessageType AMT_Response = 2"
| "u8_of_AuthMessageType AMT_Accepted = 3"
| "u8_of_AuthMessageType AMT_RekeyInit = 4"
| "u8_of_AuthMessageType AMT_RekeyAck = 5"
| "u8_of_AuthMessageType (AMT_other v) = v"

datatype AuthFieldId =
    AF_SuiteId | AF_SecurityParameters | AF_SenderRole | AF_TranscriptHash | AF_Identity
  | AF_CompositeSignature | AF_MlKemPublicKey | AF_MlKemCiphertext | AF_X25519PublicKey
  | AF_CapabilityManifest | AF_Nonce | AF_PskAuthenticator | AF_KeyConfirmation | AF_other u16

definition AuthFieldId_of_u16 :: "u16 \<Rightarrow> AuthFieldId" where
  "AuthFieldId_of_u16 v =
     (if v = 1 then AF_SuiteId else if v = 2 then AF_SecurityParameters
      else if v = 3 then AF_SenderRole else if v = 4 then AF_TranscriptHash
      else if v = 5 then AF_Identity else if v = 6 then AF_CompositeSignature
      else if v = 7 then AF_MlKemPublicKey else if v = 8 then AF_MlKemCiphertext
      else if v = 9 then AF_X25519PublicKey else if v = 10 then AF_CapabilityManifest
      else if v = 11 then AF_Nonce else if v = 12 then AF_PskAuthenticator
      else if v = 13 then AF_KeyConfirmation else AF_other v)"

definition kAuthFieldFlagCritical :: u16 where "kAuthFieldFlagCritical = 0x0001"
definition kMaxAuthFields :: nat where "kMaxAuthFields = 32"
definition kMaxAuthRecordSize :: nat where "kMaxAuthRecordSize = 65536"
definition kAuthPrefixSize :: nat where "kAuthPrefixSize = 8"
definition kAuthFieldPrefixSize :: nat where "kAuthFieldPrefixSize = 8"
definition kAuthSchema :: u8 where "kAuthSchema = 1"
definition kMandatoryAuthFieldCount :: nat where "kMandatoryAuthFieldCount = 3"

record AuthField =
  af_id :: u16
  af_critical :: bool
  af_value :: bytes

record AuthRecord =
  ar_type :: AuthMessageType
  ar_sender_role :: EndpointRole
  ar_fields :: "AuthField list"

section \<open>Operations\<close>

fun IsKnownAuthMessageType :: "AuthMessageType \<Rightarrow> bool" where
  "IsKnownAuthMessageType (AMT_other v) = False"
| "IsKnownAuthMessageType _ = True"

definition IsKnownRole :: "EndpointRole \<Rightarrow> bool" where
  "IsKnownRole role \<longleftrightarrow> role = Role_Client \<or> role = Role_Server"

definition IsKnownAuthField :: "u16 \<Rightarrow> bool" where
  "IsKnownAuthField i \<longleftrightarrow> i \<ge> 1 \<and> i \<le> 13"

definition require_length :: "bytes \<Rightarrow> nat \<Rightarrow> nat \<Rightarrow> Status" where
  "require_length v required_length value_offset =
     (if length v \<noteq> required_length then Failure InvalidLength value_offset else Success ())"

definition ValidateAdditionalAuthField :: "u16 \<Rightarrow> bool \<Rightarrow> bytes \<Rightarrow> nat \<Rightarrow> Status option" where
  "ValidateAdditionalAuthField i critical v value_offset =
     (if i \<le> 3 then Some (Failure InvalidField value_offset)
      else if \<not> IsKnownAuthField i
        then Some (if critical then Failure UnknownCriticalField value_offset else Success ())
      else if \<not> critical then Some (Failure InvalidField value_offset)
      else case AuthFieldId_of_u16 i of
        AF_TranscriptHash \<Rightarrow> Some (require_length v kTranscriptHashSize value_offset)
      | AF_Identity \<Rightarrow>
          Some (if v = [] \<or> length v > kMaxCompositeIdentitySize
                then Failure InvalidLength value_offset else Success ())
      | AF_CompositeSignature \<Rightarrow> Some (require_length v kCompositeSignatureSize value_offset)
      | AF_MlKemPublicKey \<Rightarrow> Some (require_length v kMlKem1024PublicKeySize value_offset)
      | AF_MlKemCiphertext \<Rightarrow> Some (require_length v kMlKem1024CiphertextSize value_offset)
      | AF_X25519PublicKey \<Rightarrow> Some (require_length v kX25519PublicKeySize value_offset)
      | AF_CapabilityManifest \<Rightarrow> do {
          status \<leftarrow> ValidateCapabilityManifestEncoding v;
          case status of
            Failure e n \<Rightarrow> Some (Failure e (value_offset + n))
          | Success _ \<Rightarrow> Some (Success ())
        }
      | AF_Nonce \<Rightarrow> Some (require_length v 32 value_offset)
      | AF_PskAuthenticator \<Rightarrow> Some (require_length v 32 value_offset)
      | AF_KeyConfirmation \<Rightarrow> Some (require_length v 32 value_offset)
      | AF_SuiteId \<Rightarrow> Some (Failure InvalidField value_offset)
      | AF_SecurityParameters \<Rightarrow> Some (Failure InvalidField value_offset)
      | AF_SenderRole \<Rightarrow> Some (Failure InvalidField value_offset)
      | AF_other _ \<Rightarrow> Some (require_length v 0 value_offset))"

text \<open>Writes one field at the offset and returns the buffer with the offset behind the field.\<close>

definition WriteAuthField ::
  "bytes \<Rightarrow> nat \<Rightarrow> u16 \<Rightarrow> bool \<Rightarrow> bytes \<Rightarrow> (bytes \<times> nat) option" where
  "WriteAuthField output offset i critical v = do {
     output \<leftarrow> write_u16_be output offset i;
     output \<leftarrow> write_u16_be output (offset + 2) (if critical then kAuthFieldFlagCritical else 0);
     output \<leftarrow> write_u32_be output (offset + 4) (of_nat (length v));
     let offset = offset + kAuthFieldPrefixSize;
     output \<leftarrow> copy_to output offset v;
     Some (output, offset + length v)
   }"

text \<open>The validation loop of the encoder.\<close>

primrec check_auth_fields :: "AuthField list \<Rightarrow> Status option" where
  "check_auth_fields [] = Some (Success ())"
| "check_auth_fields (field # rest) = do {
     status \<leftarrow> ValidateAdditionalAuthField (af_id field) (af_critical field) (af_value field) 0;
     case status of
       Failure e n \<Rightarrow> Some (Failure e n)
     | Success _ \<Rightarrow> check_auth_fields rest
   }"

fun adjacent_duplicate_id :: "AuthField list \<Rightarrow> bool" where
  "adjacent_duplicate_id (a # b # rest) = (af_id a = af_id b \<or> adjacent_duplicate_id (b # rest))"
| "adjacent_duplicate_id _ = False"

text \<open>
  The size loops: the encoded size of a sequence of tagged values, each with a prefix of
  \<open>prefix\<close> bytes, refused when it exceeds \<open>limit\<close>.
\<close>

primrec tagged_total :: "nat \<Rightarrow> nat \<Rightarrow> nat \<Rightarrow> bytes list \<Rightarrow> nat Result option" where
  "tagged_total limit prefix so_far [] = Some (Success so_far)"
| "tagged_total limit prefix so_far (v # vs) = do {
     room \<leftarrow> size_sub limit prefix;
     if so_far > room then Some (Failure PayloadTooLarge 0)
     else do {
       left \<leftarrow> size_sub limit so_far;
       left \<leftarrow> size_sub left prefix;
       if length v > left then Some (Failure PayloadTooLarge 0)
       else tagged_total limit prefix (so_far + prefix + length v) vs
     }
   }"

primrec write_auth_fields :: "bytes \<Rightarrow> nat \<Rightarrow> AuthField list \<Rightarrow> bytes option" where
  "write_auth_fields output offset [] = Some output"
| "write_auth_fields output offset (field # rest) = do {
     (output, offset) \<leftarrow> WriteAuthField output offset (af_id field) (af_critical field) (af_value field);
     write_auth_fields output offset rest
   }"

definition EncodeAuthRecord :: "AuthRecord \<Rightarrow> bytes Result option" where
  "EncodeAuthRecord record =
     (if \<not> IsKnownAuthMessageType (ar_type record) \<or> \<not> IsKnownRole (ar_sender_role record)
      then Some (Failure InvalidEnum 0)
      else if length (ar_fields record) > kMaxAuthFields - kMandatoryAuthFieldCount
      then Some (Failure TooManyFields 0)
      else do {
        checked \<leftarrow> check_auth_fields (ar_fields record);
        case checked of
          Failure e n \<Rightarrow> Some (Failure e n)
        | Success _ \<Rightarrow>
            let fields = std_sort (\<lambda>lhs rhs. af_id lhs < af_id rhs) (ar_fields record) in
            if adjacent_duplicate_id fields then Some (Failure DuplicateField 0)
            else do {
              let role = [u8_of_EndpointRole (ar_sender_role record)];
              let mandatory = [kSuiteId, kRequiredSecurityParameters, role];
              measured \<leftarrow> tagged_total kMaxAuthRecordSize kAuthFieldPrefixSize kAuthPrefixSize
                (mandatory @ map af_value fields);
              case measured of
                Failure e n \<Rightarrow> Some (Failure e n)
              | Success bytes_needed \<Rightarrow> do {
                  let output = replicate bytes_needed 0;
                  output \<leftarrow> put_byte output 0 kAuthSchema;
                  output \<leftarrow> put_byte output 1 (u8_of_AuthMessageType (ar_type record));
                  output \<leftarrow> write_u16_be output 2 (of_nat (kMandatoryAuthFieldCount + length fields));
                  output \<leftarrow> write_u32_be output 4 (of_nat (bytes_needed - kAuthPrefixSize));
                  (output, offset) \<leftarrow> WriteAuthField output kAuthPrefixSize 1 True kSuiteId;
                  (output, offset) \<leftarrow> WriteAuthField output offset 2 True kRequiredSecurityParameters;
                  (output, offset) \<leftarrow> WriteAuthField output offset 3 True role;
                  output \<leftarrow> write_auth_fields output offset fields;
                  Some (Success output)
                }
            }
      })"

text \<open>The variables of the decoder's loop.\<close>

record AuthScan =
  as_record :: AuthRecord
  as_have_suite :: bool
  as_have_security_parameters :: bool
  as_have_role :: bool
  as_previous_id :: u16
  as_offset :: nat

text \<open>The \<^verbatim>\<open>switch\<close> of the loop: \<open>offset\<close> is the value's.\<close>

definition decode_auth_value ::
  "AuthScan \<Rightarrow> u16 \<Rightarrow> bool \<Rightarrow> bytes \<Rightarrow> nat \<Rightarrow> AuthScan Result option" where
  "decode_auth_value scan i critical v offset =
     (case AuthFieldId_of_u16 i of
        AF_SuiteId \<Rightarrow>
          Some (if \<not> critical \<or> v \<noteq> kSuiteId then Failure InvalidField offset
                else Success (scan\<lparr>as_have_suite := True\<rparr>))
      | AF_SecurityParameters \<Rightarrow>
          Some (if \<not> critical \<or> \<not> IsRequiredSecurityParameters v then Failure InvalidField offset
                else Success (scan\<lparr>as_have_security_parameters := True\<rparr>))
      | AF_SenderRole \<Rightarrow>
          if \<not> critical \<or> length v \<noteq> 1 then Some (Failure InvalidField offset)
          else do {
            raw_role \<leftarrow> byte_at v 0;
            let role = EndpointRole_of_u8 raw_role;
            Some (if \<not> IsKnownRole role then Failure InvalidEnum offset
                  else Success (scan\<lparr>as_record := (as_record scan)\<lparr>ar_sender_role := role\<rparr>,
                                     as_have_role := True\<rparr>))
          }
      | _ \<Rightarrow> do {
          status \<leftarrow> ValidateAdditionalAuthField i critical v offset;
          case status of
            Failure e n \<Rightarrow> Some (Failure e n)
          | Success _ \<Rightarrow>
              let field = \<lparr>af_id = i, af_critical = critical, af_value = v\<rparr>
              in Some (Success (scan\<lparr>as_record := (as_record scan)
                   \<lparr>ar_fields := ar_fields (as_record scan) @ [field]\<rparr>\<rparr>))
        })"

definition decode_auth_field :: "bytes \<Rightarrow> AuthScan \<Rightarrow> AuthScan Result option" where
  "decode_auth_field encoded scan = do {
     let offset = as_offset scan;
     remaining \<leftarrow> size_sub (length encoded) offset;
     if remaining < kAuthFieldPrefixSize then Some (Failure Truncated offset)
     else do {
       i \<leftarrow> read_u16_be encoded offset;
       flags \<leftarrow> read_u16_be encoded (offset + 2);
       raw_length \<leftarrow> read_u32_be encoded (offset + 4);
       if i = 0 then Some (Failure InvalidField offset)
       else if i = as_previous_id scan then Some (Failure DuplicateField offset)
       else if i < as_previous_id scan then Some (Failure OutOfOrderField offset)
       else if flags AND NOT kAuthFieldFlagCritical \<noteq> 0 then Some (Failure InvalidFlags (offset + 2))
       else do {
         let critical = (flags AND kAuthFieldFlagCritical \<noteq> 0);
         let offset = offset + kAuthFieldPrefixSize;
         remaining \<leftarrow> size_sub (length encoded) offset;
         if unat raw_length > remaining then Some (Failure Truncated offset)
         else do {
           v \<leftarrow> subspan encoded offset (unat raw_length);
           switched \<leftarrow> decode_auth_value (scan\<lparr>as_previous_id := i\<rparr>) i critical v offset;
           case switched of
             Failure e n \<Rightarrow> Some (Failure e n)
           | Success scan \<Rightarrow> Some (Success (scan\<lparr>as_offset := offset + unat raw_length\<rparr>))
         }
       }
     }
   }"

primrec decode_auth_fields :: "nat \<Rightarrow> bytes \<Rightarrow> AuthScan \<Rightarrow> AuthScan Result option" where
  "decode_auth_fields 0 encoded scan = Some (Success scan)"
| "decode_auth_fields (Suc n) encoded scan = do {
     decoded \<leftarrow> decode_auth_field encoded scan;
     case decoded of
       Failure e k \<Rightarrow> Some (Failure e k)
     | Success scan \<Rightarrow> decode_auth_fields n encoded scan
   }"

text \<open>The scan the loop starts from; the record's role is the member's default.\<close>

definition initial_auth_scan :: "AuthMessageType \<Rightarrow> AuthScan" where
  "initial_auth_scan message_type =
     \<lparr>as_record = \<lparr>ar_type = message_type, ar_sender_role = Role_Client, ar_fields = []\<rparr>,
      as_have_suite = False, as_have_security_parameters = False, as_have_role = False,
      as_previous_id = 0, as_offset = kAuthPrefixSize\<rparr>"

definition DecodeAuthRecord :: "bytes \<Rightarrow> AuthRecord Result option" where
  "DecodeAuthRecord encoded =
     (if length encoded > kMaxAuthRecordSize then Some (Failure PayloadTooLarge 0)
      else if length encoded < kAuthPrefixSize then Some (Failure Truncated (length encoded))
      else do {
        schema \<leftarrow> byte_at encoded 0;
        if schema \<noteq> kAuthSchema then Some (Failure UnsupportedVersion 0)
        else do {
          raw_type \<leftarrow> byte_at encoded 1;
          let message_type = AuthMessageType_of_u8 raw_type;
          if \<not> IsKnownAuthMessageType message_type then Some (Failure InvalidEnum 1)
          else do {
            raw_count \<leftarrow> read_u16_be encoded 2;
            let field_count = unat raw_count;
            if field_count > kMaxAuthFields then Some (Failure TooManyFields 2)
            else if field_count < kMandatoryAuthFieldCount then Some (Failure MissingField 2)
            else do {
              raw_length \<leftarrow> read_u32_be encoded 4;
              let body_length = unat raw_length;
              remaining \<leftarrow> size_sub (length encoded) kAuthPrefixSize;
              if body_length > remaining then Some (Failure Truncated (length encoded))
              else if body_length < remaining then Some (Failure TrailingData (kAuthPrefixSize + body_length))
              else do {
                scanned \<leftarrow> decode_auth_fields field_count encoded (initial_auth_scan message_type);
                case scanned of
                  Failure e n \<Rightarrow> Some (Failure e n)
                | Success scan \<Rightarrow>
                    if as_offset scan \<noteq> length encoded then Some (Failure TrailingData (as_offset scan))
                    else if \<not> as_have_suite scan \<or> \<not> as_have_security_parameters scan \<or>
                            \<not> as_have_role scan
                      then Some (Failure MissingField (as_offset scan))
                    else Some (Success (as_record scan))
              }
            }
          }
        }
      })"

section \<open>Fields\<close>

text \<open>The values a caller may add, by identifier; the manifest field holds a canonical manifest.\<close>

definition additional_ok :: "AuthField \<Rightarrow> bool" where
  "additional_ok f \<longleftrightarrow> af_id f > 3 \<and> (af_critical f \<longleftrightarrow> af_id f \<le> 13) \<and>
     (af_id f \<in> {4, 9, 11, 12, 13} \<longrightarrow> length (af_value f) = 32) \<and>
     (af_id f = 5 \<longrightarrow> 1 \<le> length (af_value f) \<and> length (af_value f) \<le> 16384) \<and>
     (af_id f = 6 \<longrightarrow> length (af_value f) = 4691) \<and>
     (af_id f \<in> {7, 8} \<longrightarrow> length (af_value f) = 1568) \<and>
     (af_id f = 10 \<longrightarrow> (\<exists>m. manifest_ok m \<and> manifest_norm m = m \<and> af_value f = manifest_bytes m))"

lemmas auth_sizes = kTranscriptHashSize_def kX25519PublicKeySize_def kMlKem1024PublicKeySize_def
  kMlKem1024CiphertextSize_def kEd25519SignatureSize_def kMlDsa87SignatureSize_def
  kCompositeSignatureSize_def kMaxCompositeIdentitySize_def

lemma field_id_cases:
  obtains "i \<le> 3" | "i = 4" | "i = 5" | "i = 6" | "i = 7" | "i = 8" | "i = 9" | "i = 10"
    | "i = 11" | "i = 12" | "i = 13" | "13 < (i :: u16)"
proof -
  have "i \<le> 3 \<or> i \<in> {4, 5, 6, 7, 8, 9, 10, 11, 12, 13} \<or> 13 < i"
    by (simp add: word_le_nat_alt word_less_nat_alt word_unat_eq_iff) arith
  then show ?thesis using that by blast
qed

lemma manifest_field_ok:
  "ValidateCapabilityManifestEncoding v = Some (Success ()) \<longleftrightarrow>
     (\<exists>m. manifest_ok m \<and> manifest_norm m = m \<and> v = manifest_bytes m)"
  using manifest_validated manifest_decoded(1) by metis

lemma ValidateAdditionalAuthField_ok:
  "ValidateAdditionalAuthField i c v offset = Some (Success ()) \<longleftrightarrow>
     additional_ok \<lparr>af_id = i, af_critical = c, af_value = v\<rparr>"
proof -
  have manifest: "ValidateCapabilityManifestEncoding v \<bind>
      case_result (\<lambda>e n. Some (Failure e (offset + n))) (\<lambda>_. Some (Success ())) = Some (Success ())
      \<longleftrightarrow> ValidateCapabilityManifestEncoding v = Some (Success ())"
    by (auto simp: bind_eq_Some_conv)
  have high: "\<not> i \<le> 3" "\<not> i \<le> 13" "i \<notin> {4, 9, 11, 12, 13}" "i \<noteq> 5" "i \<noteq> 6" "i \<notin> {7, 8}" "i \<noteq> 10"
    if "13 < i" using that by (auto dest: less_le_trans)
  show ?thesis
  proof (cases i rule: field_id_cases)
    case 1
    then show ?thesis by (simp add: ValidateAdditionalAuthField_def additional_ok_def not_less)
  next
    case 12
    then show ?thesis
      using high by (simp add: ValidateAdditionalAuthField_def additional_ok_def IsKnownAuthField_def not_le)
  qed (simp_all add: ValidateAdditionalAuthField_def additional_ok_def require_length_def
      AuthFieldId_of_u16_def IsKnownAuthField_def auth_sizes manifest manifest_field_ok Suc_le_eq not_less)
qed

lemma ValidateAdditionalAuthField_in_bounds: "ValidateAdditionalAuthField i c v offset \<noteq> None"
  using ValidateCapabilityManifestEncoding_in_bounds [of v]
  by (auto simp: ValidateAdditionalAuthField_def bind_None_iff
      split: AuthFieldId.split simp del: not_None_eq)

definition tlv :: "AuthField \<Rightarrow> bytes" where
  "tlv f = be16 (af_id f) @ be16 (if af_critical f then 1 else 0)
     @ be32 (of_nat (length (af_value f))) @ af_value f"

lemma length_tlv [simp]: "length (tlv f) = 8 + length (af_value f)"
  by (simp add: tlv_def)

lemma auth_field_eta [simp]:
  "\<lparr>af_id = af_id f, af_critical = af_critical f, af_value = af_value f\<rparr> = f"
  by simp

lemma WriteAuthField_next [wire]:
  assumes "offset = length pre" and "8 + length v \<le> length rest"
  shows "WriteAuthField (pre @ rest) offset i c v =
    Some ((pre @ tlv \<lparr>af_id = i, af_critical = c, af_value = v\<rparr>) @ drop (8 + length v) rest,
          length pre + 8 + length v)"
  using assms
  by (simp add: WriteAuthField_def wire tlv_def kAuthFieldPrefixSize_def kAuthFieldFlagCritical_def Let_def
      del: append_assoc append.simps) (simp add: ac_simps)

lemma write_auth_fields_eq:
  "length rest = length (concat (map tlv fs)) \<Longrightarrow>
   write_auth_fields (pre @ rest) (length pre) fs = Some (pre @ concat (map tlv fs))"
proof (induction fs arbitrary: pre rest)
  case (Cons f fs)
  have "write_auth_fields (pre @ rest) (length pre) (f # fs)
      = write_auth_fields ((pre @ tlv f) @ drop (length (tlv f)) rest) (length (pre @ tlv f)) fs"
    using Cons.prems by (simp add: WriteAuthField_next add.assoc del: append_assoc)
  also have "\<dots> = Some ((pre @ tlv f) @ concat (map tlv fs))"
    by (rule Cons.IH) (use Cons.prems in simp)
  finally show ?case by simp
qed simp

lemma tagged_total_eq:
  "prefix \<le> limit \<Longrightarrow> so_far \<le> limit \<Longrightarrow>
   tagged_total limit prefix so_far vs =
     Some (let needed = so_far + (\<Sum>v\<leftarrow>vs. prefix + length v)
           in if needed \<le> limit then Success needed else Failure PayloadTooLarge 0)"
  by (induction vs arbitrary: so_far) (auto simp: Let_def size_sub_def)

section \<open>The decoder's loop\<close>

definition suite_field :: AuthField where
  "suite_field = \<lparr>af_id = 1, af_critical = True, af_value = kSuiteId\<rparr>"

definition parameters_field :: AuthField where
  "parameters_field = \<lparr>af_id = 2, af_critical = True, af_value = kRequiredSecurityParameters\<rparr>"

definition role_field :: "EndpointRole \<Rightarrow> AuthField" where
  "role_field role = \<lparr>af_id = 3, af_critical = True, af_value = [u8_of_EndpointRole role]\<rparr>"

definition field_ok :: "AuthField \<Rightarrow> bool" where
  "field_ok f \<longleftrightarrow> f = suite_field \<or> f = parameters_field \<or>
     (\<exists>role. IsKnownRole role \<and> f = role_field role) \<or> additional_ok f"

lemma field_ids [simp]:
  "af_id suite_field = 1" "af_id parameters_field = 2" "af_id (role_field role) = 3"
  "af_value suite_field = kSuiteId" "af_value parameters_field = kRequiredSecurityParameters"
  "af_value (role_field role) = [u8_of_EndpointRole role]"
  by (simp_all add: suite_field_def parameters_field_def role_field_def)

text \<open>What one accepted field does to the variables of the loop.\<close>

definition absorb :: "AuthField \<Rightarrow> AuthScan \<Rightarrow> AuthScan" where
  "absorb f scan =
     (if af_id f = 1 then scan\<lparr>as_have_suite := True\<rparr>
      else if af_id f = 2 then scan\<lparr>as_have_security_parameters := True\<rparr>
      else if af_id f = 3 then scan\<lparr>as_record := (as_record scan)
        \<lparr>ar_sender_role := EndpointRole_of_u8 (hd (af_value f))\<rparr>, as_have_role := True\<rparr>
      else scan\<lparr>as_record := (as_record scan)\<lparr>ar_fields := ar_fields (as_record scan) @ [f]\<rparr>\<rparr>)"

definition advance :: "AuthField \<Rightarrow> AuthScan \<Rightarrow> AuthScan" where
  "advance f scan = (absorb f (scan\<lparr>as_previous_id := af_id f\<rparr>))
     \<lparr>as_offset := as_offset scan + 8 + length (af_value f)\<rparr>"

lemma role_field_iff:
  "(\<exists>role. IsKnownRole role \<and> f = role_field role) \<longleftrightarrow>
     af_id f = 3 \<and> af_critical f \<and> length (af_value f) = 1 \<and>
     IsKnownRole (EndpointRole_of_u8 (hd (af_value f)))"
proof
  assume right: "af_id f = 3 \<and> af_critical f \<and> length (af_value f) = 1 \<and>
     IsKnownRole (EndpointRole_of_u8 (hd (af_value f)))"
  then have "f = role_field (EndpointRole_of_u8 (hd (af_value f)))"
    by (cases f) (auto simp: role_field_def length_Suc_conv)
  with right show "\<exists>role. IsKnownRole role \<and> f = role_field role" by blast
qed (auto simp: role_field_def IsKnownRole_def EndpointRole_of_u8_def)

lemma additional_id:
  assumes "additional_ok f"
  shows "af_id f \<noteq> 0" "af_id f \<noteq> 1" "af_id f \<noteq> 2" "af_id f \<noteq> 3" "3 < af_id f"
proof -
  show gt: "3 < af_id f" using assms by (simp add: additional_ok_def)
  then show "af_id f \<noteq> 0" "af_id f \<noteq> 1" "af_id f \<noteq> 2" "af_id f \<noteq> 3" by auto
qed

lemma field_ok_additional:
  assumes "i \<noteq> 1" and "i \<noteq> 2" and "i \<noteq> 3"
  shows "field_ok \<lparr>af_id = i, af_critical = c, af_value = v\<rparr> \<longleftrightarrow>
    ValidateAdditionalAuthField i c v offset = Some (Success ())"
  using assms
  by (auto simp: field_ok_def suite_field_def parameters_field_def role_field_def
      ValidateAdditionalAuthField_ok)

lemma decode_auth_value_ok:
  "decode_auth_value scan i c v offset = Some (Success scan') \<longleftrightarrow>
     field_ok \<lparr>af_id = i, af_critical = c, af_value = v\<rparr> \<and>
     scan' = absorb \<lparr>af_id = i, af_critical = c, af_value = v\<rparr> scan"
proof -
  let ?f = "\<lparr>af_id = i, af_critical = c, af_value = v\<rparr>"
  consider (suite) "i = 1" | (parameters) "i = 2" | (role) "i = 3" | (other) "i \<noteq> 1" "i \<noteq> 2" "i \<noteq> 3"
    by blast
  then show ?thesis
  proof cases
    case role
    have "field_ok ?f \<longleftrightarrow> c \<and> length v = 1 \<and> IsKnownRole (EndpointRole_of_u8 (hd v))"
      unfolding field_ok_def role_field_iff using role
      by (auto simp: suite_field_def parameters_field_def additional_ok_def)
    with role show ?thesis
      by (auto simp: decode_auth_value_def AuthFieldId_of_u16_def absorb_def hd_conv_nth Let_def
          length_Suc_conv split: if_splits)
  next
    case other
    have "decode_auth_value scan i c v offset = ValidateAdditionalAuthField i c v offset \<bind>
        case_result (\<lambda>e n. Some (Failure e n)) (\<lambda>_. Some (Success (absorb ?f scan)))"
      using other by (auto simp: decode_auth_value_def AuthFieldId_of_u16_def absorb_def Let_def)
    then show ?thesis
      using other by (auto simp: field_ok_additional [of i c v offset] bind_eq_Some_conv)
  qed (auto simp: decode_auth_value_def AuthFieldId_of_u16_def absorb_def field_ok_def suite_field_def
      parameters_field_def role_field_def additional_ok_def IsRequiredSecurityParameters_def)
qed

lemma decode_auth_value_in_bounds: "decode_auth_value scan i c v offset \<noteq> None"
  using ValidateAdditionalAuthField_in_bounds [of i c v offset]
  by (auto simp: decode_auth_value_def bind_None_iff Let_def simp del: not_None_eq
      split: AuthFieldId.split)

lemma flag_bits:
  "(flags :: u16) AND NOT 1 = 0 \<longleftrightarrow> flags = (if flags AND 1 \<noteq> 0 then 1 else 0)"
proof -
  have "flags = (flags AND 1) OR (flags AND NOT 1)"
    by (rule bit_word_eqI) (auto simp: bit_simps)
  moreover have "flags AND 1 = 0 \<or> flags AND 1 = 1"
    by (simp add: and_one_eq mod_2_eq_odd)
  ultimately show ?thesis by (auto simp: and.assoc)
qed

lemma decode_auth_field_step:
  assumes "as_offset scan = length pre"
  shows "decode_auth_field (pre @ b0 # b1 # b2 # b3 # b4 # b5 # b6 # b7 # rest) scan =
   (let i = of_be16 b0 b1; flags = of_be16 b2 b3; n = unat (of_be32 b4 b5 b6 b7); start = length pre
    in if i = 0 then Some (Failure InvalidField start)
       else if i = as_previous_id scan then Some (Failure DuplicateField start)
       else if i < as_previous_id scan then Some (Failure OutOfOrderField start)
       else if flags AND NOT 1 \<noteq> 0 then Some (Failure InvalidFlags (start + 2))
       else if n > length rest then Some (Failure Truncated (start + 8))
       else decode_auth_value (scan\<lparr>as_previous_id := i\<rparr>) i (flags AND 1 \<noteq> 0) (take n rest) (start + 8) \<bind>
         (\<lambda>r. case r of Failure e k \<Rightarrow> Some (Failure e k)
            | Success s \<Rightarrow> Some (Success (s\<lparr>as_offset := start + 8 + n\<rparr>))))"
proof -
  have reads: "read_u16_be (pre @ b0 # b1 # rest) (length pre) = Some (of_be16 b0 b1)"
    "read_u16_be (pre @ b0 # b1 # b2 # b3 # rest) (Suc (Suc (length pre))) = Some (of_be16 b2 b3)"
    "read_u32_be (pre @ b0 # b1 # b2 # b3 # b4 # b5 # b6 # b7 # rest) (length pre + 4)
       = Some (of_be32 b4 b5 b6 b7)"
    for b0 b1 b2 b3 b4 b5 b6 b7 rest
    by (simp_all add: nth_append)
  show ?thesis
    by (simp add: decode_auth_field_def assms reads kAuthFieldPrefixSize_def kAuthFieldFlagCritical_def
        Let_def del: read_u16_be_in read_u32_be_in)
qed

lemma decode_auth_field_short:
  assumes "as_offset scan \<le> length e" and "\<not> as_offset scan + 8 \<le> length e"
  shows "decode_auth_field e scan = Some (Failure Truncated (as_offset scan))"
proof -
  from assms have "length e - as_offset scan < 8" by simp
  with assms(1) show ?thesis by (simp add: decode_auth_field_def kAuthFieldPrefixSize_def)
qed

lemma decode_auth_field_in_bounds:
  assumes "as_offset scan \<le> length e"
  shows "decode_auth_field e scan \<noteq> None"
proof (cases "as_offset scan + 8 \<le> length e")
  case True
  then obtain b0 b1 b2 b3 b4 b5 b6 b7 rest where
    p: "e = take (as_offset scan) e @ b0 # b1 # b2 # b3 # b4 # b5 # b6 # b7 # rest"
    and len: "length (take (as_offset scan) e) = as_offset scan" by (rule buffer_split8)
  then show ?thesis
    using decode_auth_field_step [OF len [symmetric], of b0 b1 b2 b3 b4 b5 b6 b7 rest]
      decode_auth_value_in_bounds
    by (auto simp: Let_def bind_None_iff simp del: not_None_eq split: if_splits)
qed (simp add: decode_auth_field_short assms)

text \<open>An accepted field is one tagged value at the offset.\<close>

lemma decode_auth_field_sound:
  assumes "decode_auth_field e scan = Some (Success scan')" and "as_offset scan \<le> length e"
  obtains f where "field_ok f" "as_previous_id scan < af_id f" "scan' = advance f scan"
    "drop (as_offset scan) e = tlv f @ drop (as_offset scan') e" "as_offset scan' \<le> length e"
proof -
  have "as_offset scan + 8 \<le> length e"
    using assms decode_auth_field_short [of scan e] by fastforce
  then obtain b0 b1 b2 b3 b4 b5 b6 b7 rest where
    p: "e = take (as_offset scan) e @ b0 # b1 # b2 # b3 # b4 # b5 # b6 # b7 # rest"
    and len: "length (take (as_offset scan) e) = as_offset scan" by (rule buffer_split8)
  let ?n = "unat (of_be32 b4 b5 b6 b7)"
  let ?f = "\<lparr>af_id = of_be16 b0 b1, af_critical = of_be16 b2 b3 AND 1 \<noteq> 0, af_value = take ?n rest\<rparr>"
  have run: "decode_auth_field (take (as_offset scan) e @ b0 # b1 # b2 # b3 # b4 # b5 # b6 # b7 # rest) scan
      = Some (Success scan')"
    using assms(1) by (simp only: p [symmetric])
  have ok: "\<not> of_be16 b0 b1 \<le> as_previous_id scan" "of_be16 b2 b3 AND NOT 1 = 0" "?n \<le> length rest"
      "field_ok ?f" "scan' = advance ?f scan"
    using run unfolding decode_auth_field_step [OF len [symmetric]] len
    by (auto simp: Let_def bind_eq_Some_conv decode_auth_value_ok advance_def split: if_splits)
  from ok(2) have "be16 (if of_be16 b2 b3 AND 1 \<noteq> 0 then 1 else 0) = [b2, b3]"
    unfolding flag_bits using be16_of_be16 [of b2 b3] by argo
  moreover have "length (take ?n rest) = ?n" using ok(3) by simp
  ultimately have "tlv ?f = b0 # b1 # b2 # b3 # b4 # b5 # b6 # b7 # take ?n rest"
    by (simp add: tlv_def)
  moreover have d: "drop (as_offset scan) e = b0 # b1 # b2 # b3 # b4 # b5 # b6 # b7 # rest"
    using append_eq_conv_conj [THEN iffD1, OF p [symmetric]] unfolding len by simp
  moreover have "drop (as_offset scan') e = drop ?n rest"
  proof -
    have "drop (8 + ?n) (b0 # b1 # b2 # b3 # b4 # b5 # b6 # b7 # rest) = drop ?n rest"
      by (simp add: eval_nat_numeral)
    then show ?thesis
      using arg_cong [OF d, of "drop (8 + ?n)"] ok(3,5) by (simp add: advance_def ac_simps)
  qed
  ultimately have "drop (as_offset scan) e = tlv ?f @ drop (as_offset scan') e" by simp
  moreover have "as_offset scan' \<le> length e"
    using arg_cong [OF d, of length] ok(3,5) assms(2) by (simp add: advance_def)
  ultimately show ?thesis using that [of ?f] ok by simp
qed

lemma decode_auth_field_complete:
  assumes "field_ok f" and "as_previous_id scan < af_id f" and "as_offset scan = length pre"
    and "length (af_value f) < 2 ^ 32"
  shows "decode_auth_field (pre @ tlv f @ post) scan = Some (Success (advance f scan))"
proof -
  obtain b0 b1 where i: "be16 (af_id f) = [b0, b1]" "of_be16 b0 b1 = af_id f"
    using be16_def of_be16_be16 by blast
  obtain b2 b3 where c: "be16 (if af_critical f then 1 else 0) = [b2, b3]"
      "of_be16 b2 b3 = (if af_critical f then 1 else 0)"
    using be16_def of_be16_be16 by blast
  obtain b4 b5 b6 b7 where n: "be32 (of_nat (length (af_value f))) = [b4, b5, b6, b7]"
      "of_be32 b4 b5 b6 b7 = of_nat (length (af_value f))"
    using be32_def of_be32_be32 by blast
  have P: "pre @ tlv f @ post = pre @ b0 # b1 # b2 # b3 # b4 # b5 # b6 # b7 # (af_value f @ post)"
    by (simp add: tlv_def i c n)
  have "decode_auth_value scan' (af_id f) (af_critical f) (af_value f) offset
      = Some (Success (absorb f scan'))" for scan' offset
    using assms(1) by (simp add: decode_auth_value_ok)
  moreover have "unat (of_be32 b4 b5 b6 b7) = length (af_value f)"
    using assms(4) by (simp add: n unat_of_size32)
  moreover have "af_id f \<noteq> 0" using assms(2) by auto
  moreover have "((if af_critical f then 1 else 0 :: u16) AND NOT 1 \<noteq> 0) = False"
      "((if af_critical f then 1 else 0 :: u16) AND 1 \<noteq> 0) = af_critical f"
    by auto
  ultimately show ?thesis
    unfolding P decode_auth_field_step [OF assms(3)] Let_def i c
    using assms(2,3) by (simp add: advance_def) (auto dest: less_asym)
qed

primrec id_chain :: "u16 \<Rightarrow> AuthField list \<Rightarrow> bool" where
  "id_chain previous [] = True"
| "id_chain previous (f # fs) = (previous < af_id f \<and> id_chain (af_id f) fs)"

lemma advance_simps [simp]:
  "as_previous_id (advance f scan) = af_id f"
  "as_offset (advance f scan) = as_offset scan + 8 + length (af_value f)"
  by (simp_all add: advance_def absorb_def)

lemma decode_auth_fields_in_bounds:
  "as_offset scan \<le> length e \<Longrightarrow> decode_auth_fields n e scan \<noteq> None"
proof (induction n arbitrary: scan)
  case (Suc n)
  obtain r where r: "decode_auth_field e scan = Some r"
    using decode_auth_field_in_bounds [OF Suc.prems] by blast
  show ?case
  proof (cases r)
    case (Success scan')
    with r Suc.prems have "as_offset scan' \<le> length e"
      by (metis decode_auth_field_sound)
    with Suc.IH show ?thesis by (simp add: r Success del: not_None_eq)
  qed (simp add: r)
qed simp

lemma decode_auth_fields_sound:
  "decode_auth_fields n e scan = Some (Success scan') \<Longrightarrow> as_offset scan \<le> length e \<Longrightarrow>
   \<exists>fs. length fs = n \<and> list_all field_ok fs \<and> id_chain (as_previous_id scan) fs \<and>
     scan' = fold advance fs scan \<and> as_offset scan' \<le> length e \<and>
     drop (as_offset scan) e = concat (map tlv fs) @ drop (as_offset scan') e"
proof (induction n arbitrary: scan)
  case (Suc n)
  from Suc.prems(1) obtain scan1 where first: "decode_auth_field e scan = Some (Success scan1)"
    and later: "decode_auth_fields n e scan1 = Some (Success scan')"
    by (auto simp: bind_eq_Some_conv)
  from first Suc.prems(2) obtain f where f: "field_ok f" "as_previous_id scan < af_id f"
    "scan1 = advance f scan" "drop (as_offset scan) e = tlv f @ drop (as_offset scan1) e"
    "as_offset scan1 \<le> length e"
    by (rule decode_auth_field_sound)
  from Suc.IH [OF later f(5)] obtain fs where "length fs = n" "list_all field_ok fs"
    "id_chain (as_previous_id scan1) fs" "scan' = fold advance fs scan1" "as_offset scan' \<le> length e"
    "drop (as_offset scan1) e = concat (map tlv fs) @ drop (as_offset scan') e" by blast
  with f show ?case by (intro exI [of _ "f # fs"]) simp
qed simp

lemma decode_auth_fields_complete:
  "list_all field_ok fs \<Longrightarrow> id_chain (as_previous_id scan) fs \<Longrightarrow> as_offset scan = length pre \<Longrightarrow>
   list_all (\<lambda>f. length (af_value f) < 2 ^ 32) fs \<Longrightarrow>
   decode_auth_fields (length fs) (pre @ concat (map tlv fs) @ post) scan
     = Some (Success (fold advance fs scan))"
proof (induction fs arbitrary: scan pre)
  case (Cons f fs)
  have "decode_auth_field (pre @ tlv f @ concat (map tlv fs) @ post) scan = Some (Success (advance f scan))"
    using Cons.prems by (intro decode_auth_field_complete) simp_all
  moreover have "decode_auth_fields (length fs) ((pre @ tlv f) @ concat (map tlv fs) @ post) (advance f scan)
      = Some (Success (fold advance fs (advance f scan)))"
    by (rule Cons.IH) (use Cons.prems in simp_all)
  ultimately show ?case by simp
qed simp

section \<open>The record codec\<close>

definition auth_tlvs :: "AuthRecord \<Rightarrow> AuthField list" where
  "auth_tlvs r = suite_field # parameters_field # role_field (ar_sender_role r) # ar_fields r"

definition auth_bytes :: "AuthRecord \<Rightarrow> bytes" where
  "auth_bytes r = [kAuthSchema] @ [u8_of_AuthMessageType (ar_type r)]
     @ be16 (of_nat (length (auth_tlvs r))) @ be32 (of_nat (length (concat (map tlv (auth_tlvs r)))))
     @ concat (map tlv (auth_tlvs r))"

definition auth_ok :: "AuthRecord \<Rightarrow> bool" where
  "auth_ok r \<longleftrightarrow> IsKnownAuthMessageType (ar_type r) \<and> IsKnownRole (ar_sender_role r) \<and>
     length (ar_fields r) \<le> 29 \<and> list_all additional_ok (ar_fields r) \<and>
     distinct (map af_id (ar_fields r)) \<and> length (auth_bytes r) \<le> kMaxAuthRecordSize"

definition auth_norm :: "AuthRecord \<Rightarrow> AuthRecord" where
  "auth_norm r = r\<lparr>ar_fields := sort_key af_id (ar_fields r)\<rparr>"

lemma length_auth_bytes: "length (auth_bytes r) = 8 + length (concat (map tlv (auth_tlvs r)))"
  by (simp add: auth_bytes_def)

lemma auth_norm_simps [simp]:
  "ar_type (auth_norm r) = ar_type r" "ar_sender_role (auth_norm r) = ar_sender_role r"
  "ar_fields (auth_norm r) = sort_key af_id (ar_fields r)"
  by (simp_all add: auth_norm_def)

lemma length_concat_sort [simp]:
  "length (concat (map g (sort_key key xs))) = length (concat (map g xs))"
proof -
  have "length (concat (map g ys)) = sum_mset (image_mset (length \<circ> g) (mset ys))" for ys
    by (induction ys) simp_all
  then show ?thesis by simp
qed

lemma auth_ok_norm [simp]: "auth_ok (auth_norm r) \<longleftrightarrow> auth_ok r"
  by (simp add: auth_ok_def length_auth_bytes auth_tlvs_def list_all_iff)

lemma id_chain_sorted:
  "id_chain p fs \<longleftrightarrow> sorted_wrt (<) (p # map af_id fs)"
  by (induction fs arbitrary: p) auto

lemma id_chain_norm:
  "id_chain 3 fs \<longleftrightarrow> distinct (map af_id fs) \<and> sort_key af_id fs = fs \<and> (\<forall>f \<in> set fs. 3 < af_id f)"
proof -
  have "sorted_wrt (<) (map af_id fs) \<longleftrightarrow> distinct (map af_id fs) \<and> sort_key af_id fs = fs"
    by (metis sorted_sort_key sort_key_id_if_sorted strict_sorted_iff)
  then show ?thesis by (auto simp: id_chain_sorted)
qed

lemma check_auth_fields_eq:
  "\<exists>e n. check_auth_fields fs = Some (if list_all additional_ok fs then Success () else Failure e n)"
proof (induction fs)
  case (Cons f fs)
  obtain status where s:
      "ValidateAdditionalAuthField (af_id f) (af_critical f) (af_value f) 0 = Some status"
    using ValidateAdditionalAuthField_in_bounds by blast
  have "status = Success () \<longleftrightarrow> additional_ok f"
    using ValidateAdditionalAuthField_ok [of "af_id f" "af_critical f" "af_value f" 0] s by simp
  with s Cons show ?case by (cases status) auto
qed simp

lemma adjacent_duplicate_id_sorted:
  "sorted (map af_id fs) \<Longrightarrow> adjacent_duplicate_id fs \<longleftrightarrow> \<not> distinct (map af_id fs)"
  by (induction fs rule: adjacent_duplicate_id.induct) fastforce+

lemma length_concat_tlv: "length (concat (map tlv fs)) = (\<Sum>v\<leftarrow>map af_value fs. 8 + length v)"
  by (induction fs) simp_all

lemma auth_total:
  "tagged_total kMaxAuthRecordSize kAuthFieldPrefixSize kAuthPrefixSize
     ([kSuiteId, kRequiredSecurityParameters, [u8_of_EndpointRole (ar_sender_role r)]] @ map af_value (ar_fields r))
   = Some (if length (auth_bytes r) \<le> kMaxAuthRecordSize then Success (length (auth_bytes r))
           else Failure PayloadTooLarge 0)"
proof -
  have "[kSuiteId, kRequiredSecurityParameters, [u8_of_EndpointRole (ar_sender_role r)]] @ map af_value (ar_fields r)
      = map af_value (auth_tlvs r)"
    by (simp add: auth_tlvs_def)
  then show ?thesis
    by (simp add: tagged_total_eq length_auth_bytes length_concat_tlv kMaxAuthRecordSize_def
        kAuthFieldPrefixSize_def kAuthPrefixSize_def Let_def del: map_append)
qed

lemma EncodeAuthRecord_eq:
  "\<exists>e n. EncodeAuthRecord r =
     Some (if auth_ok r then Success (auth_bytes (auth_norm r)) else Failure e n)"
proof -
  let ?fs = "sort_key af_id (ar_fields r)"
  have sorted: "std_sort (\<lambda>lhs rhs. af_id lhs < af_id rhs) (ar_fields r) = ?fs"
    by (rule std_sort_key) simp
  have dup: "adjacent_duplicate_id ?fs \<longleftrightarrow> \<not> distinct (map af_id (ar_fields r))"
    using adjacent_duplicate_id_sorted [of ?fs] by simp
  obtain e n where check: "check_auth_fields (ar_fields r) =
      Some (if list_all additional_ok (ar_fields r) then Success () else Failure e n)"
    using check_auth_fields_eq by blast
  note measured = auth_total [of "auth_norm r", unfolded auth_norm_simps]
  have size_norm: "length (auth_bytes (auth_norm r)) = length (auth_bytes r)"
    by (simp add: length_auth_bytes auth_tlvs_def)
  show ?thesis
  proof (cases "auth_ok r")
    case True
    let ?size = "length (auth_bytes (auth_norm r))"
    have room: "?size = 32 + length kSuiteId + length kRequiredSecurityParameters + 1
        + length (concat (map tlv ?fs))"
      by (simp add: length_auth_bytes auth_tlvs_def)
    have finish: "write_auth_fields (pre @ replicate (length (concat (map tlv (ar_fields r)))) 0) offset ?fs
        = Some (pre @ concat (map tlv ?fs))" if "offset = length pre" for pre offset
      using write_auth_fields_eq [of "replicate (length (concat (map tlv ?fs))) 0" ?fs pre] that by simp
    show ?thesis
      using True check dup measured size_norm room
      by (simp add: finish EncodeAuthRecord_def auth_ok_def sorted Let_def wire kMaxAuthFields_def
          kMandatoryAuthFieldCount_def kAuthPrefixSize_def auth_bytes_def auth_tlvs_def
          suite_field_def parameters_field_def role_field_def del: append_assoc append.simps)
  next
    case False
    with check dup measured size_norm show ?thesis
      by (auto simp: EncodeAuthRecord_def auth_ok_def sorted Let_def kMaxAuthFields_def
          kMandatoryAuthFieldCount_def simp del: append.simps tagged_total.simps)
  qed
qed

lemma fold_advance_flags:
  "as_have_suite (fold advance fs scan) \<longleftrightarrow> as_have_suite scan \<or> 1 \<in> af_id ` set fs"
  "as_have_security_parameters (fold advance fs scan) \<longleftrightarrow>
     as_have_security_parameters scan \<or> 2 \<in> af_id ` set fs"
  "as_have_role (fold advance fs scan) \<longleftrightarrow> as_have_role scan \<or> 3 \<in> af_id ` set fs"
  by (induction fs arbitrary: scan) (auto simp: advance_def absorb_def)

lemma fold_advance_additional:
  "list_all additional_ok fs \<Longrightarrow>
   as_record (fold advance fs scan) = (as_record scan)\<lparr>ar_fields := ar_fields (as_record scan) @ fs\<rparr>"
  by (induction fs arbitrary: scan) (simp_all add: advance_def absorb_def additional_id)

lemma fold_advance_offset:
  "as_offset (fold advance fs scan) = as_offset scan + length (concat (map tlv fs))"
  by (induction fs arbitrary: scan) simp_all

lemma id_chain_first:
  assumes "id_chain p fs" and "q \<in> af_id ` set fs" and "\<And>x. p < x \<Longrightarrow> q \<le> x"
  obtains f rest where "fs = f # rest" "af_id f = q"
proof (cases fs)
  case (Cons f rest)
  have "q \<le> af_id f" using assms Cons by simp
  moreover have "af_id f < q" if "q \<in> af_id ` set rest"
    using that assms(1) Cons by (auto simp: id_chain_sorted)
  ultimately have "af_id f = q" using assms(2) Cons by auto
  with Cons show ?thesis using that by simp
qed (use assms in simp)

text \<open>With all three flags set the first three fields are the mandatory ones.\<close>

lemma mandatory_first:
  assumes "id_chain 0 fs" and "list_all field_ok fs"
    and "1 \<in> af_id ` set fs" "2 \<in> af_id ` set fs" "3 \<in> af_id ` set fs"
  obtains role rest where "fs = suite_field # parameters_field # role_field role # rest"
    "IsKnownRole role" "id_chain 3 rest" "list_all additional_ok rest"
proof -
  have succ: "0 < x \<Longrightarrow> 1 \<le> x" "1 < x \<Longrightarrow> 2 \<le> x" "2 < x \<Longrightarrow> 3 \<le> x" for x :: u16
    by (simp_all add: word_le_nat_alt word_less_nat_alt)
  obtain f1 r1 where 1: "fs = f1 # r1" "af_id f1 = 1"
    using id_chain_first [OF assms(1,3) succ(1)] by blast
  then have c1: "id_chain 1 r1" "2 \<in> af_id ` set r1" "3 \<in> af_id ` set r1"
    using assms by auto
  obtain f2 r2 where 2: "r1 = f2 # r2" "af_id f2 = 2"
    using id_chain_first [OF c1(1,2) succ(2)] by blast
  then have c2: "id_chain 2 r2" "3 \<in> af_id ` set r2"
    using c1 by auto
  obtain f3 r3 where 3: "r2 = f3 # r3" "af_id f3 = 3"
    using id_chain_first [OF c2 succ(3)] by blast
  have ok: "field_ok f1" "field_ok f2" "field_ok f3" "list_all field_ok r3"
    using assms(2) by (simp_all add: 1 2 3)
  have "f1 = suite_field" using ok(1) 1(2) by (auto simp: field_ok_def dest: additional_id)
  moreover have "f2 = parameters_field" using ok(2) 2(2) by (auto simp: field_ok_def dest: additional_id)
  moreover have "\<exists>role. IsKnownRole role \<and> f3 = role_field role"
    using ok(3) 3(2) by (auto simp: field_ok_def dest: additional_id)
  moreover have c3: "id_chain 3 r3" using c2(1) 3 by simp
  moreover have "additional_ok f" if "f \<in> set r3" for f
  proof -
    have "3 < af_id f" using that c3 by (auto simp: id_chain_sorted)
    then show ?thesis using that ok(4) by (auto simp: list_all_iff field_ok_def)
  qed
  ultimately show ?thesis using that 1(1) 2(1) 3(1) by (auto simp: list_all_iff)
qed

lemma auth_type_known:
  "IsKnownAuthMessageType t \<Longrightarrow> AuthMessageType_of_u8 (u8_of_AuthMessageType t) = t"
  "u8_of_AuthMessageType (AuthMessageType_of_u8 v) = v"
  by (cases t) (simp_all add: AuthMessageType_of_u8_def)

lemma role_known: "IsKnownRole role \<Longrightarrow> EndpointRole_of_u8 (u8_of_EndpointRole role) = role"
  by (auto simp: IsKnownRole_def EndpointRole_of_u8_def)

lemma DecodeAuthRecord_in_bounds: "DecodeAuthRecord e \<noteq> None"
proof
  assume run: "DecodeAuthRecord e = None"
  then have long: "8 \<le> length e"
    by (auto simp: DecodeAuthRecord_def kAuthPrefixSize_def split: if_splits)
  then have no: "decode_auth_fields n e (initial_auth_scan t) \<noteq> None" for n t
    by (intro decode_auth_fields_in_bounds) (simp add: initial_auth_scan_def kAuthPrefixSize_def)
  moreover have "0 < length e" using long by auto
  ultimately show False
    using run long by (auto simp: no DecodeAuthRecord_def kAuthPrefixSize_def Let_def bind_None_iff
        split: if_splits)
qed

lemma DecodeAuthRecord_sound:
  assumes "DecodeAuthRecord e = Some (Success r)"
  shows "auth_ok r \<and> auth_norm r = r \<and> e = auth_bytes r"
proof -
  have long: "8 \<le> length e"
    using assms by (auto simp: DecodeAuthRecord_def kAuthPrefixSize_def split: if_splits)
  then obtain b0 b1 b2 b3 b4 b5 b6 b7 body where
    p: "e = b0 # b1 # b2 # b3 # b4 # b5 # b6 # b7 # body" by (rule list8E)
  have at: "e \<noteq> []" "e ! 0 = b0" "e ! 1 = b1" "e ! 2 = b2" "e ! 3 = b3" "e ! 4 = b4" "e ! 5 = b5"
      "e ! 6 = b6" "e ! 7 = b7"
    by (simp_all add: p)
  let ?n = "unat (of_be16 b2 b3)" and ?init = "initial_auth_scan (AuthMessageType_of_u8 b1)"
  have head: "length e \<le> kMaxAuthRecordSize" "b0 = kAuthSchema"
      "IsKnownAuthMessageType (AuthMessageType_of_u8 b1)" "?n \<le> 32" "3 \<le> ?n"
      "unat (of_be32 b4 b5 b6 b7) = length e - 8"
    and scan: "\<exists>scan. decode_auth_fields ?n e ?init = Some (Success scan) \<and> as_offset scan = length e \<and>
      as_have_suite scan \<and> as_have_security_parameters scan \<and> as_have_role scan \<and> r = as_record scan"
    using assms long at
    by (auto simp: DecodeAuthRecord_def kAuthPrefixSize_def kMaxAuthFields_def
        kMandatoryAuthFieldCount_def Let_def bind_eq_Some_conv split: if_splits)
  from scan obtain scan where scan: "decode_auth_fields ?n e ?init = Some (Success scan)"
    "as_offset scan = length e" "as_have_suite scan" "as_have_security_parameters scan"
    "as_have_role scan" "r = as_record scan" by blast
  have init: "as_offset ?init = 8" "as_previous_id ?init = 0"
    by (simp_all add: initial_auth_scan_def kAuthPrefixSize_def)
  obtain fs where fs: "length fs = ?n" "list_all field_ok fs" "id_chain 0 fs"
      "scan = fold advance fs ?init" "body = concat (map tlv fs)"
    using decode_auth_fields_sound [OF scan(1)] long scan(2) by (auto simp: init p)
  have "1 \<in> af_id ` set fs" "2 \<in> af_id ` set fs" "3 \<in> af_id ` set fs"
    using scan(3,4,5) by (simp_all add: fs(4) fold_advance_flags initial_auth_scan_def)
  then obtain role rest where
    m: "fs = suite_field # parameters_field # role_field role # rest" "IsKnownRole role"
      "id_chain 3 rest" "list_all additional_ok rest"
    using mandatory_first [OF fs(3,2)] by blast
  have r: "r = \<lparr>ar_type = AuthMessageType_of_u8 b1, ar_sender_role = role, ar_fields = rest\<rparr>"
    using m(2,4) by (simp add: scan(6) fs(4) m(1) fold_advance_additional advance_def absorb_def
        initial_auth_scan_def role_known)
  have tlvs: "auth_tlvs r = fs" by (simp add: auth_tlvs_def r m(1))
  have "be16 (of_nat (length fs)) = [b2, b3]" by (simp add: fs(1))
  moreover have "length (concat (map tlv fs)) = unat (of_be32 b4 b5 b6 b7)"
    using head(6) by (simp add: p fs(5))
  then have "be32 (of_nat (length (concat (map tlv fs)))) = [b4, b5, b6, b7]" by simp
  ultimately have e: "e = auth_bytes r"
    using head(2) by (simp add: auth_bytes_def tlvs p fs(5)) (simp add: r auth_type_known)
  moreover have "auth_norm r = r" "auth_ok r"
    using m head fs(1) e id_chain_norm [of rest] by (simp_all add: auth_norm_def auth_ok_def r)
  ultimately show ?thesis by blast
qed

lemma tlv_value_size: "f \<in> set fs \<Longrightarrow> length (af_value f) \<le> length (concat (map tlv fs))"
  by (induction fs) auto

lemma DecodeAuthRecord_complete:
  assumes "auth_ok r" and "auth_norm r = r"
  shows "DecodeAuthRecord (auth_bytes r) = Some (Success r)"
proof -
  let ?fs = "auth_tlvs r" and ?init = "initial_auth_scan (ar_type r)"
  let ?body = "concat (map tlv ?fs)"
  have ok: "IsKnownAuthMessageType (ar_type r)" "IsKnownRole (ar_sender_role r)"
      "list_all additional_ok (ar_fields r)" "length (auth_bytes r) \<le> kMaxAuthRecordSize"
      "length (ar_fields r) \<le> 29" "sort_key af_id (ar_fields r) = ar_fields r"
    using assms by (auto simp: auth_ok_def auth_norm_def dest: arg_cong [where f = ar_fields])
  have small: "8 + length ?body \<le> 65536"
    using ok(4) by (simp add: length_auth_bytes kMaxAuthRecordSize_def)
  have fields: "list_all field_ok ?fs"
    using ok(2,3) by (auto simp: auth_tlvs_def field_ok_def list_all_iff)
  have "id_chain 3 (ar_fields r)"
    using assms(1) ok by (auto simp: id_chain_norm auth_ok_def list_all_iff dest: additional_id)
  then have chain: "id_chain 0 ?fs" by (simp add: auth_tlvs_def)
  have lens: "list_all (\<lambda>f. length (af_value f) < 2 ^ 32) ?fs"
    using small tlv_value_size [of _ ?fs] by (fastforce simp: list_all_iff)
  obtain b2 b3 where n: "be16 (of_nat (length ?fs)) = [b2, b3]" "of_be16 b2 b3 = of_nat (length ?fs)"
    using be16_def of_be16_be16 by blast
  obtain b4 b5 b6 b7 where l: "be32 (of_nat (length ?body)) = [b4, b5, b6, b7]"
      "of_be32 b4 b5 b6 b7 = of_nat (length ?body)"
    using be32_def of_be32_be32 by blast
  let ?pre = "[kAuthSchema, u8_of_AuthMessageType (ar_type r), b2, b3, b4, b5, b6, b7]"
  have bytes: "auth_bytes r = ?pre @ ?body @ []" by (simp add: auth_bytes_def n l)
  have scan: "decode_auth_fields (length ?fs) (auth_bytes r) ?init = Some (Success (fold advance ?fs ?init))"
    unfolding bytes using fields chain lens
    by (intro decode_auth_fields_complete) (simp_all add: initial_auth_scan_def kAuthPrefixSize_def)
  have result: "as_record (fold advance ?fs ?init) = r"
    using ok(2,3) by (cases r) (simp add: auth_tlvs_def fold_advance_additional advance_def absorb_def
        initial_auth_scan_def role_known)
  have flags: "as_have_suite (fold advance ?fs ?init)" "as_have_security_parameters (fold advance ?fs ?init)"
      "as_have_role (fold advance ?fs ?init)" "as_offset (fold advance ?fs ?init) = length (auth_bytes r)"
    by (simp_all add: fold_advance_flags fold_advance_offset auth_tlvs_def initial_auth_scan_def
        kAuthPrefixSize_def length_auth_bytes advance_def absorb_def)
  have reads: "8 \<le> length (auth_bytes r)" "auth_bytes r \<noteq> []" "auth_bytes r ! 0 = kAuthSchema"
      "auth_bytes r ! 1 = u8_of_AuthMessageType (ar_type r)"
      "read_u16_be (auth_bytes r) 2 = Some (of_nat (length ?fs))"
      "read_u32_be (auth_bytes r) 4 = Some (of_nat (length ?body))"
    by (simp_all add: bytes n l)
  have range: "3 \<le> length ?fs" "length ?fs \<le> 32"
    using ok(5) by (simp_all add: auth_tlvs_def)
  then have count: "unat (of_nat (length ?fs) :: u16) = length ?fs"
      "unat (of_nat (length ?body) :: u32) = length (auth_bytes r) - 8"
    using small by (simp_all add: length_auth_bytes unat_of_size16)
  show ?thesis
    using reads range count scan result flags ok(1,4)
    by (simp add: DecodeAuthRecord_def kAuthPrefixSize_def kMaxAuthFields_def auth_type_known
        kMandatoryAuthFieldCount_def Let_def del: read_u16_be_in read_u32_be_in)
qed

interpretation auth_record: wire_codec EncodeAuthRecord DecodeAuthRecord "\<lambda>_. True" auth_norm
proof
  fix r bs
  have idem: "auth_norm (auth_norm r) = auth_norm r"
    by (simp add: auth_norm_def sort_key_id_if_sorted)
  show "EncodeAuthRecord r \<noteq> None" using EncodeAuthRecord_eq [of r] by auto
  show "DecodeAuthRecord bs = Some (Success (auth_norm r))" if "EncodeAuthRecord r = Some (Success bs)"
    using that EncodeAuthRecord_eq [of r] idem DecodeAuthRecord_complete [of "auth_norm r"]
    by (auto split: if_splits)
  show "EncodeAuthRecord r = Some (Success bs)" if "DecodeAuthRecord bs = Some (Success r)"
    using DecodeAuthRecord_sound [OF that] EncodeAuthRecord_eq [of r] by auto
qed (simp_all add: DecodeAuthRecord_in_bounds)

section \<open>Properties\<close>

text \<open>C1: an AUTH record decodes exactly from what the encoder writes for it, with the fields in
  increasing order of identifier, so no accepted record has a second encoding. No input makes
  either side access a buffer out of range.\<close>

theorem auth_record_canonical:
  "(DecodeAuthRecord bs = Some (Success r) \<longleftrightarrow>
      auth_norm r = r \<and> EncodeAuthRecord r = Some (Success bs)) \<and>
   DecodeAuthRecord bs \<noteq> None \<and> EncodeAuthRecord r \<noteq> None"
  using auth_record.decode_iff [of bs r] auth_record.decode_in_bounds [of bs]
    auth_record.encode_in_bounds [of r]
  by simp

text \<open>C34: the encoder of AUTH records accepts exactly the records of a known type and role with
  at most 29 valid fields of distinct identifiers whose encoding fits 64 KiB, and writes the
  suite, the security parameters and the role, each marked critical, before the caller's
  fields in increasing order of identifier.\<close>

theorem auth_record_encoder:
  "EncodeAuthRecord r = Some (Success bs) \<longleftrightarrow> auth_ok r \<and> bs = auth_bytes (auth_norm r)"
  using EncodeAuthRecord_eq [of r] by (auto split: if_splits)

end
