(* ===== verification/Ytp_Key_Schedule.thy ===== *)
theory Ytp_Key_Schedule
  imports Ytp_Auth
begin

text \<open>
  The key-schedule input of YTP/1 (\<^verbatim>\<open>src/src/ytp/security.cpp\<close>): eighteen tagged fields, most of
  them borrowed from caller memory, written into a caller's buffer. The spans carry their
  addresses and the operations work on an explicit memory, because the encoder reads its
  inputs while it writes its output and refuses buffers that overlap.
\<close>

section \<open>Data\<close>

definition kExporterSize :: nat where "kExporterSize = 32"
definition kPskSize :: nat where "kPskSize = 32"
definition kX25519SharedSecretSize :: nat where "kX25519SharedSecretSize = 32"
definition kMlKem1024SharedSecretSize :: nat where "kMlKem1024SharedSecretSize = 32"
definition kRootDomain :: bytes where "kRootDomain = ascii ''yume/ytp/1/root/v1''"
definition kMaxKeyScheduleInputSize :: nat where "kMaxKeyScheduleInputSize = 131072"
definition kKeyScheduleFieldCount :: nat where "kKeyScheduleFieldCount = 18"
definition kKeySchedulePrefixSize :: nat where "kKeySchedulePrefixSize = 4"
definition kKeyScheduleFieldPrefixSize :: nat where "kKeyScheduleFieldPrefixSize = 6"

type_synonym mem = "nat \<Rightarrow> u8"

record Span =
  sp_data :: nat
  sp_size :: nat

definition span_bytes :: "mem \<Rightarrow> Span \<Rightarrow> bytes" where
  "span_bytes m s = map m [sp_data s ..< sp_data s + sp_size s]"

record KeyScheduleInput =
  ks_initiator_role :: EndpointRole
  ks_responder_role :: EndpointRole
  ks_transcript_hash :: Span
  ks_exporter :: Span
  ks_client_identity :: Span
  ks_server_identity :: Span
  ks_client_capability_manifest :: Span
  ks_server_capability_manifest :: Span
  ks_access_psk :: Span
  ks_client_x25519_public_key :: Span
  ks_server_x25519_public_key :: Span
  ks_x25519_shared_secret :: Span
  ks_mlkem_public_key :: Span
  ks_mlkem_ciphertext :: Span
  ks_mlkem_shared_secret :: Span

text \<open>
  A field's bytes lie in the program's own constants and locals, which share no memory with
  a caller's buffer, or in a span of the caller's.
\<close>

datatype FieldSource = Own bytes | Borrowed Span

record TaggedView =
  tv_id :: u16
  tv_value :: FieldSource

fun source_bytes :: "mem \<Rightarrow> FieldSource \<Rightarrow> bytes" where
  "source_bytes m (Own bs) = bs"
| "source_bytes m (Borrowed s) = span_bytes m s"

section \<open>Operations\<close>

definition BuffersOverlap :: "Span \<Rightarrow> Span \<Rightarrow> bool" where
  "BuffersOverlap lhs rhs \<longleftrightarrow>
     (if sp_size lhs = 0 \<or> sp_size rhs = 0 then False
      else if sp_data lhs \<le> sp_data rhs then sp_data rhs - sp_data lhs < sp_size lhs
      else sp_data lhs - sp_data rhs < sp_size rhs)"

fun overlaps_source :: "Span \<Rightarrow> FieldSource \<Rightarrow> bool" where
  "overlaps_source destination (Own bs) = False"
| "overlaps_source destination (Borrowed s) = BuffersOverlap destination s"

definition KeyScheduleFields :: "KeyScheduleInput \<Rightarrow> bytes \<Rightarrow> bytes \<Rightarrow> TaggedView list" where
  "KeyScheduleFields input initiator_role responder_role =
     [\<lparr>tv_id = 1, tv_value = Own kRootDomain\<rparr>,
      \<lparr>tv_id = 2, tv_value = Own kSuiteId\<rparr>,
      \<lparr>tv_id = 3, tv_value = Own initiator_role\<rparr>,
      \<lparr>tv_id = 4, tv_value = Own responder_role\<rparr>,
      \<lparr>tv_id = 5, tv_value = Borrowed (ks_transcript_hash input)\<rparr>,
      \<lparr>tv_id = 6, tv_value = Borrowed (ks_exporter input)\<rparr>,
      \<lparr>tv_id = 7, tv_value = Borrowed (ks_client_identity input)\<rparr>,
      \<lparr>tv_id = 8, tv_value = Borrowed (ks_server_identity input)\<rparr>,
      \<lparr>tv_id = 9, tv_value = Borrowed (ks_client_capability_manifest input)\<rparr>,
      \<lparr>tv_id = 10, tv_value = Borrowed (ks_server_capability_manifest input)\<rparr>,
      \<lparr>tv_id = 11, tv_value = Own kRequiredSecurityParameters\<rparr>,
      \<lparr>tv_id = 12, tv_value = Borrowed (ks_access_psk input)\<rparr>,
      \<lparr>tv_id = 13, tv_value = Borrowed (ks_client_x25519_public_key input)\<rparr>,
      \<lparr>tv_id = 14, tv_value = Borrowed (ks_server_x25519_public_key input)\<rparr>,
      \<lparr>tv_id = 15, tv_value = Borrowed (ks_x25519_shared_secret input)\<rparr>,
      \<lparr>tv_id = 16, tv_value = Borrowed (ks_mlkem_public_key input)\<rparr>,
      \<lparr>tv_id = 17, tv_value = Borrowed (ks_mlkem_ciphertext input)\<rparr>,
      \<lparr>tv_id = 18, tv_value = Borrowed (ks_mlkem_shared_secret input)\<rparr>]"

definition ValidateKeyScheduleInput :: "mem \<Rightarrow> KeyScheduleInput \<Rightarrow> Status option" where
  "ValidateKeyScheduleInput m input =
     (if \<not> IsKnownRole (ks_initiator_role input) \<or> \<not> IsKnownRole (ks_responder_role input)
      then Some (Failure InvalidEnum 0)
      else if ks_initiator_role input = ks_responder_role input then Some (Failure InvalidField 0)
      else if sp_size (ks_transcript_hash input) \<noteq> kTranscriptHashSize \<or>
        sp_size (ks_exporter input) \<noteq> kExporterSize \<or>
        sp_size (ks_access_psk input) \<noteq> kPskSize \<or>
        sp_size (ks_client_x25519_public_key input) \<noteq> kX25519PublicKeySize \<or>
        sp_size (ks_server_x25519_public_key input) \<noteq> kX25519PublicKeySize \<or>
        sp_size (ks_x25519_shared_secret input) \<noteq> kX25519SharedSecretSize \<or>
        sp_size (ks_mlkem_public_key input) \<noteq> kMlKem1024PublicKeySize \<or>
        sp_size (ks_mlkem_ciphertext input) \<noteq> kMlKem1024CiphertextSize \<or>
        sp_size (ks_mlkem_shared_secret input) \<noteq> kMlKem1024SharedSecretSize
      then Some (Failure InvalidLength 0)
      else if sp_size (ks_client_identity input) = 0 \<or> sp_size (ks_server_identity input) = 0 \<or>
        sp_size (ks_client_identity input) > kMaxCompositeIdentitySize \<or>
        sp_size (ks_server_identity input) > kMaxCompositeIdentitySize
      then Some (Failure InvalidLength 0)
      else do {
        client_capabilities \<leftarrow>
          ValidateCapabilityManifestEncoding (span_bytes m (ks_client_capability_manifest input));
        case client_capabilities of
          Failure e n \<Rightarrow> Some (Failure e n)
        | Success _ \<Rightarrow> do {
            server_capabilities \<leftarrow>
              ValidateCapabilityManifestEncoding (span_bytes m (ks_server_capability_manifest input));
            case server_capabilities of
              Failure e n \<Rightarrow> Some (Failure e n)
            | Success _ \<Rightarrow> Some (Success ())
          }
      })"

definition KeyScheduleInputEncodedSize :: "mem \<Rightarrow> KeyScheduleInput \<Rightarrow> nat Result option" where
  "KeyScheduleInputEncodedSize m input = do {
     status \<leftarrow> ValidateKeyScheduleInput m input;
     case status of
       Failure e n \<Rightarrow> Some (Failure e n)
     | Success _ \<Rightarrow> do {
         let initiator = [u8_of_EndpointRole (ks_initiator_role input)];
         let responder = [u8_of_EndpointRole (ks_responder_role input)];
         let views = KeyScheduleFields input initiator responder;
         tagged_total kMaxKeyScheduleInputSize kKeyScheduleFieldPrefixSize kKeySchedulePrefixSize
           (map (\<lambda>f. source_bytes m (tv_value f)) views)
       }
   }"

text \<open>Writes inside the output span; \<open>None\<close> is a write past its end.\<close>

definition mem_put :: "Span \<Rightarrow> nat \<Rightarrow> bytes \<Rightarrow> mem \<Rightarrow> mem option" where
  "mem_put output offset bs m =
     (if offset + length bs \<le> sp_size output
      then Some (\<lambda>a. if sp_data output + offset \<le> a \<and> a < sp_data output + offset + length bs
                     then bs ! (a - (sp_data output + offset)) else m a)
      else None)"

definition mem_write_u16_be :: "Span \<Rightarrow> nat \<Rightarrow> u16 \<Rightarrow> mem \<Rightarrow> mem option" where
  "mem_write_u16_be output offset v m = do {
     m \<leftarrow> mem_put output offset [ucast (drop_bit 8 v)] m;
     mem_put output (offset + 1) [ucast v] m
   }"

definition mem_write_u32_be :: "Span \<Rightarrow> nat \<Rightarrow> u32 \<Rightarrow> mem \<Rightarrow> mem option" where
  "mem_write_u32_be output offset v m = do {
     m \<leftarrow> mem_put output offset [ucast (drop_bit 24 v)] m;
     m \<leftarrow> mem_put output (offset + 1) [ucast (drop_bit 16 v)] m;
     m \<leftarrow> mem_put output (offset + 2) [ucast (drop_bit 8 v)] m;
     mem_put output (offset + 3) [ucast v] m
   }"

text \<open>The write loop; each \<^verbatim>\<open>memmove\<close> reads its source in the memory written so far.\<close>

primrec write_key_fields :: "Span \<Rightarrow> nat \<Rightarrow> TaggedView list \<Rightarrow> mem \<Rightarrow> (nat \<times> mem) option" where
  "write_key_fields output offset [] m = Some (offset, m)"
| "write_key_fields output offset (view # views) m = do {
     m \<leftarrow> mem_write_u16_be output offset (tv_id view) m;
     m \<leftarrow> mem_write_u32_be output (offset + 2) (of_nat (length (source_bytes m (tv_value view)))) m;
     let offset = offset + kKeyScheduleFieldPrefixSize;
     m \<leftarrow> mem_put output offset (source_bytes m (tv_value view)) m;
     write_key_fields output (offset + length (source_bytes m (tv_value view))) views m
   }"

definition EncodeKeyScheduleInput ::
  "KeyScheduleInput \<Rightarrow> Span \<Rightarrow> mem \<Rightarrow> (Status \<times> nat \<times> mem) option" where
  "EncodeKeyScheduleInput input output m = do {
     required \<leftarrow> KeyScheduleInputEncodedSize m input;
     case required of
       Failure e n \<Rightarrow> Some (Failure e n, 0, m)
     | Success needed \<Rightarrow>
         if sp_size output < needed then Some (Failure OutputTooSmall (sp_size output), 0, m)
         else
           let initiator = [u8_of_EndpointRole (ks_initiator_role input)];
               responder = [u8_of_EndpointRole (ks_responder_role input)];
               views = KeyScheduleFields input initiator responder;
               destination = \<lparr>sp_data = sp_data output, sp_size = needed\<rparr>
           in if list_ex (\<lambda>f. overlaps_source destination (tv_value f)) views
              then Some (Failure OverlappingBuffer 0, 0, m)
              else do {
                m \<leftarrow> mem_put output 0 [kWireVersion] m;
                m \<leftarrow> mem_put output 1 [0] m;
                m \<leftarrow> mem_write_u16_be output 2 (of_nat kKeyScheduleFieldCount) m;
                (written, m) \<leftarrow> write_key_fields output kKeySchedulePrefixSize views m;
                Some (Success (), written, m)
              }
   }"

section \<open>Overlap\<close>

lemma length_span_bytes [simp]: "length (span_bytes m s) = sp_size s"
  by (simp add: span_bytes_def)

lemma BuffersOverlap_iff:
  "BuffersOverlap lhs rhs \<longleftrightarrow>
     {sp_data lhs ..< sp_data lhs + sp_size lhs} \<inter> {sp_data rhs ..< sp_data rhs + sp_size rhs} \<noteq> {}"
  by (auto simp: BuffersOverlap_def ex_in_conv [symmetric] Bex_def
      intro: exI [of _ "sp_data lhs"] exI [of _ "sp_data rhs"])

section \<open>The writer\<close>

text \<open>Memory with a block of bytes laid over it.\<close>

definition overlay :: "mem \<Rightarrow> nat \<Rightarrow> bytes \<Rightarrow> mem" where
  "overlay m start bs = (\<lambda>a. if start \<le> a \<and> a < start + length bs then bs ! (a - start) else m a)"

lemma overlay_Nil [simp]: "overlay m start [] = m"
  by (rule ext) (auto simp: overlay_def)

lemma span_overlay: "span_bytes (overlay m start bs) \<lparr>sp_data = start, sp_size = length bs\<rparr> = bs"
  by (rule nth_equalityI) (simp_all add: span_bytes_def overlay_def)

lemma mem_put_overlay:
  assumes "offset = length pre" and "offset + length bs \<le> sp_size output"
  shows "mem_put output offset bs (overlay m (sp_data output) pre)
    = Some (overlay m (sp_data output) (pre @ bs))"
  using assms by (auto simp: mem_put_def overlay_def nth_append fun_eq_iff)

lemma mem_put_first:
  "length bs \<le> sp_size output \<Longrightarrow> mem_put output 0 bs m = Some (overlay m (sp_data output) bs)"
  using mem_put_overlay [of 0 "[]" bs "output" m] by simp

lemma mem_write_u16_be_overlay:
  assumes "offset = length pre" and "offset + 2 \<le> sp_size output"
  shows "mem_write_u16_be output offset v (overlay m (sp_data output) pre)
    = Some (overlay m (sp_data output) (pre @ be16 v))"
  using assms by (simp add: mem_write_u16_be_def mem_put_overlay be16_def)

lemma mem_write_u32_be_overlay:
  assumes "offset = length pre" and "offset + 4 \<le> sp_size output"
  shows "mem_write_u32_be output offset v (overlay m (sp_data output) pre)
    = Some (overlay m (sp_data output) (pre @ be32 v))"
  using assms by (simp add: mem_write_u32_be_def mem_put_overlay be32_def)

lemma source_overlay:
  assumes "\<not> overlaps_source \<lparr>sp_data = start, sp_size = n\<rparr> src" and "length bs \<le> n"
  shows "source_bytes (overlay m start bs) src = source_bytes m src"
proof (cases src)
  case (Borrowed s)
  with assms(1) have "{start ..< start + n} \<inter> {sp_data s ..< sp_data s + sp_size s} = {}"
    by (simp add: BuffersOverlap_iff)
  then have "overlay m start bs a = m a" if "sp_data s \<le> a" "a < sp_data s + sp_size s" for a
    using that assms(2) by (fastforce simp: overlay_def)
  then show ?thesis by (simp add: Borrowed span_bytes_def)
qed simp

definition key_tlv :: "mem \<Rightarrow> TaggedView \<Rightarrow> bytes" where
  "key_tlv m view = be16 (tv_id view) @ be32 (of_nat (length (source_bytes m (tv_value view))))
     @ source_bytes m (tv_value view)"

lemma length_key_tlv [simp]: "length (key_tlv m view) = 6 + length (source_bytes m (tv_value view))"
  by (simp add: key_tlv_def)

lemma write_key_fields_eq:
  "list_all (\<lambda>f. \<not> overlaps_source \<lparr>sp_data = sp_data output, sp_size = needed\<rparr> (tv_value f)) views \<Longrightarrow>
   needed \<le> sp_size output \<Longrightarrow> length pre + length (concat (map (key_tlv m) views)) \<le> needed \<Longrightarrow>
   write_key_fields output (length pre) views (overlay m (sp_data output) pre)
     = Some (length pre + length (concat (map (key_tlv m) views)),
             overlay m (sp_data output) (pre @ concat (map (key_tlv m) views)))"
proof (induction views arbitrary: pre)
  case (Cons view views)
  have same: "source_bytes (overlay m (sp_data output) bs) (tv_value view) = source_bytes m (tv_value view)"
    if "length bs \<le> needed" for bs
    using source_overlay [OF _ that] Cons.prems(1) by simp
  have "write_key_fields output (length pre) (view # views) (overlay m (sp_data output) pre)
      = write_key_fields output (length (pre @ key_tlv m view)) views
          (overlay m (sp_data output) (pre @ key_tlv m view))"
    using Cons.prems(2,3)
    by (simp add: same mem_write_u16_be_overlay mem_write_u32_be_overlay mem_put_overlay
        kKeyScheduleFieldPrefixSize_def key_tlv_def ac_simps)
  also have "\<dots> = Some (length (pre @ key_tlv m view) + length (concat (map (key_tlv m) views)),
             overlay m (sp_data output) ((pre @ key_tlv m view) @ concat (map (key_tlv m) views)))"
    by (rule Cons.IH) (use Cons.prems in simp_all)
  finally show ?case by simp
qed simp

section \<open>The encoding\<close>

definition key_fields :: "KeyScheduleInput \<Rightarrow> TaggedView list" where
  "key_fields input = KeyScheduleFields input [u8_of_EndpointRole (ks_initiator_role input)]
     [u8_of_EndpointRole (ks_responder_role input)]"

definition key_schedule_bytes :: "mem \<Rightarrow> KeyScheduleInput \<Rightarrow> bytes" where
  "key_schedule_bytes m input =
     [kWireVersion] @ [0] @ be16 18 @ concat (map (key_tlv m) (key_fields input))"

definition key_schedule_ok :: "mem \<Rightarrow> KeyScheduleInput \<Rightarrow> bool" where
  "key_schedule_ok m input \<longleftrightarrow> ValidateKeyScheduleInput m input = Some (Success ())"

lemma manifest_size:
  assumes "ValidateCapabilityManifestEncoding v = Some (Success ())"
  shows "length v \<le> 34824"
proof -
  obtain c where c: "manifest_ok c" "v = manifest_bytes c"
    using assms by (rule manifest_validated)
  then show ?thesis
    using concat_entries_length [of "m_entries c"]
    by (simp add: manifest_ok_def kMaxCapabilities_def manifest_bytes_def)
qed

lemma key_schedule_sizes:
  assumes "key_schedule_ok m input"
  shows "sp_size (ks_transcript_hash input) = 32" "sp_size (ks_exporter input) = 32"
    "sp_size (ks_access_psk input) = 32" "sp_size (ks_client_x25519_public_key input) = 32"
    "sp_size (ks_server_x25519_public_key input) = 32" "sp_size (ks_x25519_shared_secret input) = 32"
    "sp_size (ks_mlkem_public_key input) = 1568" "sp_size (ks_mlkem_ciphertext input) = 1568"
    "sp_size (ks_mlkem_shared_secret input) = 32" "sp_size (ks_client_identity input) \<le> 16384"
    "sp_size (ks_server_identity input) \<le> 16384"
    "sp_size (ks_client_capability_manifest input) \<le> 34824"
    "sp_size (ks_server_capability_manifest input) \<le> 34824"
    "IsKnownRole (ks_initiator_role input)" "IsKnownRole (ks_responder_role input)"
    "ks_initiator_role input \<noteq> ks_responder_role input"
  using assms
    manifest_size [of "span_bytes m (ks_client_capability_manifest input)"]
    manifest_size [of "span_bytes m (ks_server_capability_manifest input)"]
  by (auto simp: key_schedule_ok_def ValidateKeyScheduleInput_def bind_eq_Some_conv auth_sizes
      kExporterSize_def kPskSize_def kX25519SharedSecretSize_def kMlKem1024SharedSecretSize_def
      split: if_splits)

lemma length_own_fields [simp]:
  "length kRootDomain = 18" "length kSuiteId = 75" "length kRequiredSecurityParameters = 24"
  by (simp_all add: kRootDomain_def kSuiteId_def kRequiredSecurityParameters_def)

text \<open>A valid input always fits: the encoder's size refusal is dead code.\<close>

lemma key_schedule_fits:
  assumes "key_schedule_ok m input"
  shows "length (key_schedule_bytes m input) \<le> 106135"
  using key_schedule_sizes [OF assms]
  by (simp add: key_schedule_bytes_def key_fields_def KeyScheduleFields_def)

lemma ValidateKeyScheduleInput_in_bounds: "ValidateKeyScheduleInput m input \<noteq> None"
  using ValidateCapabilityManifestEncoding_in_bounds
  by (auto simp: ValidateKeyScheduleInput_def bind_None_iff simp del: not_None_eq)

lemma KeyScheduleInputEncodedSize_eq:
  "\<exists>e n. KeyScheduleInputEncodedSize m input =
     Some (if key_schedule_ok m input then Success (length (key_schedule_bytes m input)) else Failure e n)"
proof -
  obtain status where status: "ValidateKeyScheduleInput m input = Some status"
    using ValidateKeyScheduleInput_in_bounds by blast
  show ?thesis
  proof (cases status)
    case (Success u)
    then have ok: "key_schedule_ok m input" by (simp add: key_schedule_ok_def status)
    have "(\<Sum>v\<leftarrow>map (\<lambda>f. source_bytes m (tv_value f)) vs. 6 + length v)
        = length (concat (map (key_tlv m) vs))" for vs
      by (induction vs) simp_all
    then have "length (key_schedule_bytes m input) =
        4 + (\<Sum>v\<leftarrow>map (\<lambda>f. source_bytes m (tv_value f)) (key_fields input). 6 + length v)"
      by (simp add: key_schedule_bytes_def)
    with key_schedule_fits [OF ok] ok show ?thesis
      by (simp add: KeyScheduleInputEncodedSize_def status Success kMaxKeyScheduleInputSize_def
          kKeyScheduleFieldPrefixSize_def kKeySchedulePrefixSize_def tagged_total_eq Let_def
          flip: key_fields_def)
  qed (simp add: KeyScheduleInputEncodedSize_def status key_schedule_ok_def)
qed

definition overlapping :: "KeyScheduleInput \<Rightarrow> Span \<Rightarrow> mem \<Rightarrow> bool" where
  "overlapping input output m \<longleftrightarrow>
     list_ex (\<lambda>f. overlaps_source
       \<lparr>sp_data = sp_data output, sp_size = length (key_schedule_bytes m input)\<rparr> (tv_value f))
       (key_fields input)"

lemma EncodeKeyScheduleInput_eq:
  "\<exists>e n. EncodeKeyScheduleInput input output m = Some
     (if \<not> key_schedule_ok m input then (Failure e n, 0, m)
      else if sp_size output < length (key_schedule_bytes m input)
        then (Failure OutputTooSmall (sp_size output), 0, m)
      else if overlapping input output m then (Failure OverlappingBuffer 0, 0, m)
      else (Success (), length (key_schedule_bytes m input),
            overlay m (sp_data output) (key_schedule_bytes m input)))"
proof -
  obtain e n where size: "KeyScheduleInputEncodedSize m input =
      Some (if key_schedule_ok m input then Success (length (key_schedule_bytes m input)) else Failure e n)"
    using KeyScheduleInputEncodedSize_eq by blast
  let ?body = "concat (map (key_tlv m) (key_fields input))"
  let ?pre = "[kWireVersion] @ [0] @ be16 18"
  have bytes: "key_schedule_bytes m input = ?pre @ ?body" by (simp add: key_schedule_bytes_def)
  have finish: "write_key_fields output 4 (key_fields input) (overlay m (sp_data output) ?pre)
      = Some (length (key_schedule_bytes m input), overlay m (sp_data output) (key_schedule_bytes m input))"
    if "\<not> overlapping input output m" "length (key_schedule_bytes m input) \<le> sp_size output"
    using write_key_fields_eq [of "output" "length (key_schedule_bytes m input)" "key_fields input" ?pre m] that
    by (simp add: overlapping_def bytes list_ex_iff list_all_iff)
  have start: "mem_put output 0 [kWireVersion] m \<bind> (\<lambda>m. mem_put output 1 [0] m \<bind>
      (\<lambda>m. mem_write_u16_be output 2 (of_nat kKeyScheduleFieldCount) m \<bind> k))
      = k (overlay m (sp_data output) ?pre)" if "4 \<le> sp_size output" for k :: "mem \<Rightarrow> (Status \<times> nat \<times> mem) option"
    using that by (simp add: mem_put_first mem_put_overlay mem_write_u16_be_overlay kKeyScheduleFieldCount_def)
  show ?thesis
  proof (cases "key_schedule_ok m input \<and> length (key_schedule_bytes m input) \<le> sp_size output
      \<and> \<not> overlapping input output m")
    case True
    then have "4 \<le> sp_size output" by (simp add: bytes)
    from start [OF this] finish True show ?thesis
      by (simp add: EncodeKeyScheduleInput_def size overlapping_def Let_def kKeySchedulePrefixSize_def
          flip: key_fields_def)
  next
    case False
    then show ?thesis
      by (auto simp: EncodeKeyScheduleInput_def size overlapping_def Let_def simp flip: key_fields_def)
  qed
qed

text \<open>The encoding determines every field: tags and lengths delimit the values.\<close>

lemma tagged_concat_inj:
  assumes "length xs = length ys"
    and "list_all (\<lambda>b. length (snd b) < 2 ^ 32) xs" and "list_all (\<lambda>b. length (snd b) < 2 ^ 32) ys"
    and "concat (map (\<lambda>(i, b). be16 i @ be32 (of_nat (length b)) @ b) xs)
       = concat (map (\<lambda>(i, b). be16 i @ be32 (of_nat (length b)) @ b) ys)"
  shows "xs = ys"
  using assms
proof (induction xs ys rule: list_induct2)
  case (Cons x xs y ys)
  obtain i a j b where xy: "x = (i, a)" "y = (j, b)" by (metis surj_pair)
  from Cons.prems have "i = j" "of_nat (length a) = (of_nat (length b) :: u32)"
      "a @ concat (map (\<lambda>(i, b). be16 i @ be32 (of_nat (length b)) @ b) xs)
     = b @ concat (map (\<lambda>(i, b). be16 i @ be32 (of_nat (length b)) @ b) ys)"
    by (simp_all add: xy)
  moreover have "length a = length b"
    using arg_cong [OF calculation(2), of unat] Cons.prems(1,2) by (simp add: xy)
  ultimately show ?case using Cons by (simp add: xy)
qed simp

text \<open>The values of the eighteen fields, in order.\<close>

definition key_contents :: "mem \<Rightarrow> KeyScheduleInput \<Rightarrow> bytes list" where
  "key_contents m input = map (\<lambda>f. source_bytes m (tv_value f)) (key_fields input)"

text \<open>The thirteen spans of an input, in the order of the record.\<close>

definition input_spans :: "KeyScheduleInput \<Rightarrow> Span list" where
  "input_spans input =
     map (\<lambda>f. f input) [ks_transcript_hash, ks_exporter, ks_client_identity, ks_server_identity,
       ks_client_capability_manifest, ks_server_capability_manifest, ks_access_psk,
       ks_client_x25519_public_key, ks_server_x25519_public_key, ks_x25519_shared_secret,
       ks_mlkem_public_key, ks_mlkem_ciphertext, ks_mlkem_shared_secret]"

lemma key_contents_spans:
  assumes "key_contents m1 a = key_contents m2 b"
  shows "map (span_bytes m1) (input_spans a) = map (span_bytes m2) (input_spans b)"
  using assms by (simp add: key_contents_def key_fields_def KeyScheduleFields_def input_spans_def)

lemma key_field_ids: "map tv_id (key_fields input) = map of_nat [1 ..< 19]"
  by (simp add: key_fields_def KeyScheduleFields_def upt_rec)

lemma key_schedule_bytes_inject:
  assumes "key_schedule_ok m1 a" and "key_schedule_ok m2 b"
    and "key_schedule_bytes m1 a = key_schedule_bytes m2 b"
  shows "key_contents m1 a = key_contents m2 b"
    and "ks_initiator_role a = ks_initiator_role b" and "ks_responder_role a = ks_responder_role b"
proof -
  let ?pairs = "\<lambda>m i. zip (map of_nat [1 ..< 19]) (key_contents m i) :: (u16 \<times> bytes) list"
  have tlvs: "map (key_tlv m) (key_fields i)
      = map (\<lambda>(i, b). be16 i @ be32 (of_nat (length b)) @ b) (?pairs m i)" for m i
    unfolding key_field_ids [of i, symmetric] key_contents_def
    by (simp add: key_tlv_def zip_map_map zip_same_conv_map comp_def)
  have n: "length (key_contents m i) = 18" for m i
    by (simp add: key_contents_def key_fields_def KeyScheduleFields_def)
  have fits: "list_all (\<lambda>p. length (snd p) < 2 ^ 32) (?pairs m i)" if "key_schedule_ok m i" for m i
  proof -
    have "list_all (\<lambda>v. length v < 2 ^ 32) (key_contents m i)"
      using key_schedule_sizes [OF that] by (simp add: key_contents_def key_fields_def KeyScheduleFields_def)
    then show ?thesis by (auto simp: list_all_iff dest: set_zip_rightD)
  qed
  have "?pairs m1 a = ?pairs m2 b"
    using assms(3) fits [OF assms(1)] fits [OF assms(2)]
    by (intro tagged_concat_inj) (simp_all add: n key_schedule_bytes_def tlvs)
  moreover have "map snd (?pairs m i) = key_contents m i" for m i
    by (rule map_snd_zip) (simp add: n)
  ultimately show eq: "key_contents m1 a = key_contents m2 b" by metis
  then have "u8_of_EndpointRole (ks_initiator_role a) = u8_of_EndpointRole (ks_initiator_role b)"
      "u8_of_EndpointRole (ks_responder_role a) = u8_of_EndpointRole (ks_responder_role b)"
    by (simp_all add: key_contents_def key_fields_def KeyScheduleFields_def)
  then show "ks_initiator_role a = ks_initiator_role b" "ks_responder_role a = ks_responder_role b"
    using key_schedule_sizes(14,15) [OF assms(1)] key_schedule_sizes(14,15) [OF assms(2)]
    by (auto simp: IsKnownRole_def)
qed

section \<open>Properties\<close>

text \<open>Smallest valid inputs: empty manifests at address 0, identities at address \<open>k\<close>, everything
  else zero.\<close>

definition sample_mem :: mem where
  "sample_mem = (\<lambda>a. if a < 8 then [2, 0, 0, 0, 0, 0x10, 0, 0] ! a else 0)"

definition sample_output :: Span where
  "sample_output = \<lparr>sp_data = 10000, sp_size = 106135\<rparr>"

definition sample_input :: "nat \<Rightarrow> KeyScheduleInput" where
  "sample_input k = (let key = \<lparr>sp_data = 100, sp_size = 32\<rparr>; kem = \<lparr>sp_data = 200, sp_size = 1568\<rparr>;
       manifest = \<lparr>sp_data = 0, sp_size = 8\<rparr>; identity = \<lparr>sp_data = k, sp_size = 1\<rparr>
     in \<lparr>ks_initiator_role = Role_Client, ks_responder_role = Role_Server,
         ks_transcript_hash = key, ks_exporter = key, ks_client_identity = identity,
         ks_server_identity = identity, ks_client_capability_manifest = manifest,
         ks_server_capability_manifest = manifest, ks_access_psk = key,
         ks_client_x25519_public_key = key, ks_server_x25519_public_key = key,
         ks_x25519_shared_secret = key, ks_mlkem_public_key = kem, ks_mlkem_ciphertext = kem,
         ks_mlkem_shared_secret = key\<rparr>)"

lemma sample_ok: "key_schedule_ok sample_mem (sample_input k)"
proof -
  have "span_bytes sample_mem \<lparr>sp_data = 0, sp_size = 8\<rparr> = [2, 0, 0, 0, 0, 0x10, 0, 0]"
    by code_simp
  moreover have "manifest_bytes \<lparr>m_entries = [], m_max_epoch_bytes = 0x100000\<rparr> = [2, 0, 0, 0, 0, 0x10, 0, 0]"
    by code_simp
  moreover have "ValidateCapabilityManifestEncoding (manifest_bytes \<lparr>m_entries = [], m_max_epoch_bytes = 0x100000\<rparr>)
      = Some (Success ())"
    by (rule manifest_decoded) (code_simp, simp add: manifest_norm_def)
  ultimately show ?thesis
    by (simp add: key_schedule_ok_def ValidateKeyScheduleInput_def sample_input_def Let_def IsKnownRole_def
        auth_sizes kExporterSize_def kPskSize_def kX25519SharedSecretSize_def
        kMlKem1024SharedSecretSize_def)
qed

lemma sample_encoded:
  assumes "k < 9999"
  shows "EncodeKeyScheduleInput (sample_input k) sample_output sample_mem
      = Some (Success (), length (key_schedule_bytes sample_mem (sample_input k)),
          overlay sample_mem 10000 (key_schedule_bytes sample_mem (sample_input k)))"
proof -
  have "\<not> overlapping (sample_input k) sample_output sample_mem"
    using assms by (simp add: overlapping_def key_fields_def KeyScheduleFields_def sample_input_def
        sample_output_def BuffersOverlap_def Let_def)
  then show ?thesis
    using EncodeKeyScheduleInput_eq [of "sample_input k" sample_output sample_mem] sample_ok [of k]
      key_schedule_fits [OF sample_ok, of k]
    by (auto simp: sample_output_def)
qed

text \<open>The overlap test on two spans holds exactly when they share an address.\<close>

theorem buffers_overlap_exact:
  "BuffersOverlap a b \<longleftrightarrow>
     (\<exists>x. sp_data a \<le> x \<and> x < sp_data a + sp_size a \<and> sp_data b \<le> x \<and> x < sp_data b + sp_size b)"
  unfolding BuffersOverlap_iff
  by (simp only: ex_in_conv [symmetric] Int_iff atLeastLessThan_iff) blast

text \<open>C3: for every input, output span and memory the key-schedule encoder returns: it never tries
  to write past the end of its output span or to read past the end of a field. It writes only
  when it succeeds. Then the first \<open>written\<close> bytes of the span, which are within it, are the
  canonical encoding of the fields as they were before the call, although the encoder reads
  them while it writes, and every other byte of memory is unchanged. When it refuses, no byte
  of memory is changed; a valid input whose encoding does not fit the span is refused.\<close>

theorem key_schedule_writes:
  "\<exists>status written m'. EncodeKeyScheduleInput input output m = Some (status, written, m') \<and>
     (status = Success () \<and> written \<le> sp_size output \<and>
        span_bytes m' \<lparr>sp_data = sp_data output, sp_size = written\<rparr> = key_schedule_bytes m input \<and>
        {a. m' a \<noteq> m a} \<subseteq> {sp_data output ..< sp_data output + written} \<or>
      (\<exists>e n. status = Failure e n) \<and> written = 0 \<and> m' = m) \<and>
     (sp_size output < length (key_schedule_bytes m input) \<longrightarrow> (\<exists>e n. status = Failure e n))"
proof -
  have "{a. overlay m s bs a \<noteq> m a} \<subseteq> {s ..< s + length bs}" for s bs
    by (auto simp: overlay_def split: if_splits)
  then show ?thesis
    using EncodeKeyScheduleInput_eq [of input "output" m] by (auto simp: span_overlay not_less)
qed

theorem key_schedule_writes_witness:
  "\<exists>n m'. EncodeKeyScheduleInput (sample_input 50) sample_output sample_mem = Some (Success (), n, m') \<and>
    m' 0 = 2"
proof -
  obtain n m' where run:
      "EncodeKeyScheduleInput (sample_input 50) sample_output sample_mem = Some (Success (), n, m')"
    using sample_encoded [of 50] by simp
  with key_schedule_writes [of "sample_input 50" sample_output sample_mem] have "0 \<notin> {a. m' a \<noteq> sample_mem a}"
    by (auto simp: sample_output_def)
  with run show ?thesis by (auto simp: sample_mem_def)
qed

text \<open>C4: two inputs that encode successfully to the same bytes, wherever their fields and their
  outputs lie in memory, have the same roles and the same bytes in each of their thirteen spans.\<close>

theorem key_schedule_injective:
  assumes "EncodeKeyScheduleInput a out1 m1 = Some (Success (), n1, m1')"
    and "EncodeKeyScheduleInput b out2 m2 = Some (Success (), n2, m2')"
    and "span_bytes m1' \<lparr>sp_data = sp_data out1, sp_size = n1\<rparr>
       = span_bytes m2' \<lparr>sp_data = sp_data out2, sp_size = n2\<rparr>"
  shows "ks_initiator_role a = ks_initiator_role b \<and> ks_responder_role a = ks_responder_role b \<and>
    map (span_bytes m1) (input_spans a) = map (span_bytes m2) (input_spans b)"
proof -
  have "key_schedule_ok m i \<and> span_bytes m' \<lparr>sp_data = sp_data out, sp_size = n\<rparr> = key_schedule_bytes m i"
    if "EncodeKeyScheduleInput i out m = Some (Success (), n, m')" for i out m n m'
    using EncodeKeyScheduleInput_eq [of i out m] that by (auto simp: span_overlay split: if_splits)
  then show ?thesis using assms key_schedule_bytes_inject key_contents_spans by metis
qed

theorem key_schedule_injective_witness:
  "sample_input 50 \<noteq> sample_input 60 \<and>
   (\<exists>n m'. EncodeKeyScheduleInput (sample_input 50) sample_output sample_mem = Some (Success (), n, m') \<and>
      EncodeKeyScheduleInput (sample_input 60) sample_output sample_mem = Some (Success (), n, m')) \<and>
   map (span_bytes sample_mem) (input_spans (sample_input 50))
     = map (span_bytes sample_mem) (input_spans (sample_input 60))"
proof -
  have "span_bytes sample_mem \<lparr>sp_data = 50, sp_size = 1\<rparr> = span_bytes sample_mem \<lparr>sp_data = 60, sp_size = 1\<rparr>"
    by code_simp
  then have "key_schedule_bytes sample_mem (sample_input 50) = key_schedule_bytes sample_mem (sample_input 60)"
    by (simp add: key_schedule_bytes_def key_fields_def KeyScheduleFields_def sample_input_def Let_def
        key_tlv_def)
  moreover have "sample_input 50 \<noteq> sample_input 60" by (simp add: sample_input_def Let_def)
  ultimately show ?thesis
    using key_schedule_injective [OF sample_encoded sample_encoded, of 50 60] sample_encoded [of 50] sample_encoded [of 60]
    by simp
qed

end
