(* ===== verification/Circuit_Cells.thy ===== *)
theory Circuit_Cells
  imports Codec_Interface
begin

text \<open>
  The cell layer of Circuit 1 (\<^verbatim>\<open>src/src/circuit/protocol.cpp\<close>): the buckets of each direction,
  the capacity of a bucket for a relay message under one to three encryption layers, and the
  codec of a cell, which fills its bucket exactly.
\<close>

section \<open>Data\<close>

datatype CircuitError =
    C_Ok | C_Truncated | C_TrailingData | C_UnsupportedVersion | C_InvalidCommand
  | C_InvalidBucket | C_InvalidLength | C_NonzeroFiller | C_NonzeroReserved | C_InvalidDepth
  | C_InvalidType | C_WrongDirection | C_InvalidStream | C_InvalidReason | C_InvalidDestination
  | C_InvalidCredit | C_OutputTooSmall

type_synonym CStatus = "CircuitError status"
type_synonym 'a CResult = "(CircuitError, 'a) result"

datatype Direction = Forward | Backward | Direction_other u8

definition kCellVersion :: u8 where "kCellVersion = 1"
definition kCellHeaderBytes :: nat where "kCellHeaderBytes = 4"
definition kForwardBuckets :: "nat list" where "kForwardBuckets = [512, 4096, 16311]"
definition kBackwardBuckets :: "nat list" where "kBackwardBuckets = [512, 4096, 16315]"
definition kMaxCellBytes :: nat where "kMaxCellBytes = kBackwardBuckets ! 2"
definition kMaxHops :: nat where "kMaxHops = 3"
definition kLayerTagBytes :: nat where "kLayerTagBytes = 16"
definition kRelayHeaderBytes :: nat where "kRelayHeaderBytes = 8"
definition kFingerprintBytes :: nat where "kFingerprintBytes = 32"
definition kNonceBytes :: nat where "kNonceBytes = 32"
definition kX25519Bytes :: nat where "kX25519Bytes = 32"
definition kMlKemPublicBytes :: nat where "kMlKemPublicBytes = 1568"
definition kMlKemCiphertextBytes :: nat where "kMlKemCiphertextBytes = 1568"
definition kConfirmationBytes :: nat where "kConfirmationBytes = 32"
definition kSignatureBytes :: nat where "kSignatureBytes = 4691"
definition kHandshakeSchema :: u8 where "kHandshakeSchema = 1"
definition kClientHandshakeBytes :: nat where
  "kClientHandshakeBytes = 4 + kNonceBytes + kX25519Bytes + kMlKemPublicBytes"
definition kHopHandshakeBytes :: nat where
  "kHopHandshakeBytes =
     4 + kX25519Bytes + kMlKemCiphertextBytes + kConfirmationBytes + kSignatureBytes"
definition kCreateBodyBytes :: nat where "kCreateBodyBytes = 2 + kClientHandshakeBytes"
definition kCreateBucket :: nat where "kCreateBucket = 4096"
definition kCreatedBucket :: nat where "kCreatedBucket = kBackwardBuckets ! 2"
definition kExtendPayloadBytes :: nat where
  "kExtendPayloadBytes = kFingerprintBytes + kClientHandshakeBytes"

datatype Command = Create | Created | Relay | Command_other u8

definition Command_of_u8 :: "u8 \<Rightarrow> Command" where
  "Command_of_u8 v = (if v = 1 then Create else if v = 2 then Created else if v = 3 then Relay
     else Command_other v)"

fun u8_of_Command :: "Command \<Rightarrow> u8" where
  "u8_of_Command Create = 1"
| "u8_of_Command Created = 2"
| "u8_of_Command Relay = 3"
| "u8_of_Command (Command_other v) = v"

record CellView =
  cv_command :: Command
  cv_bucket :: nat
  cv_body :: bytes
  cv_layers :: nat

section \<open>Helpers shared by the codecs\<close>

definition read_u16 :: "bytes \<Rightarrow> nat \<Rightarrow> u16 option" where
  "read_u16 input offset = do {
     b0 \<leftarrow> byte_at input offset;
     b1 \<leftarrow> byte_at input (offset + 1);
     Some (push_bit 8 (ucast b0) OR ucast b1)
   }"

definition read_u32 :: "bytes \<Rightarrow> nat \<Rightarrow> u32 option" where
  "read_u32 input offset = do {
     b0 \<leftarrow> byte_at input offset;
     b1 \<leftarrow> byte_at input (offset + 1);
     b2 \<leftarrow> byte_at input (offset + 2);
     b3 \<leftarrow> byte_at input (offset + 3);
     Some (push_bit 24 (ucast b0) OR push_bit 16 (ucast b1) OR push_bit 8 (ucast b2) OR ucast b3)
   }"

definition write_u16 :: "bytes \<Rightarrow> nat \<Rightarrow> u16 \<Rightarrow> bytes option" where
  "write_u16 output offset v = do {
     output \<leftarrow> put_byte output offset (ucast (drop_bit 8 v));
     put_byte output (offset + 1) (ucast v)
   }"

definition write_u32 :: "bytes \<Rightarrow> nat \<Rightarrow> u32 \<Rightarrow> bytes option" where
  "write_u32 output offset v = do {
     output \<leftarrow> put_byte output offset (ucast (drop_bit 24 v));
     output \<leftarrow> put_byte output (offset + 1) (ucast (drop_bit 16 v));
     output \<leftarrow> put_byte output (offset + 2) (ucast (drop_bit 8 v));
     put_byte output (offset + 3) (ucast v)
   }"

text \<open>The offset of the first nonzero byte at or after start; the outer \<open>None\<close> is a start past the end.\<close>

definition first_nonzero :: "bytes \<Rightarrow> nat \<Rightarrow> nat option option" where
  "first_nonzero bs start =
     (if start \<le> length bs then Some (find (\<lambda>i. bs ! i \<noteq> 0) [start ..< length bs]) else None)"

definition exact_size :: "bytes \<Rightarrow> nat \<Rightarrow> CStatus" where
  "exact_size input expected =
     (if length input < expected then Failure C_Truncated (length input)
      else if length input > expected then Failure C_TrailingData expected
      else Success ())"

definition fill_zero :: "bytes \<Rightarrow> nat \<Rightarrow> bytes option" where
  "fill_zero output start =
     (if start \<le> length output then Some (take start output @ replicate (length output - start) 0)
      else None)"

section \<open>Buckets\<close>

definition is_known_direction :: "Direction \<Rightarrow> bool" where
  "is_known_direction direction \<longleftrightarrow> direction = Forward \<or> direction = Backward"

definition buckets_of :: "Direction \<Rightarrow> nat list" where
  "buckets_of direction = (if direction = Forward then kForwardBuckets else kBackwardBuckets)"

definition IsBucket :: "Direction \<Rightarrow> nat \<Rightarrow> bool" where
  "IsBucket direction n \<longleftrightarrow>
     (if direction \<noteq> Forward \<and> direction \<noteq> Backward then False
      else let buckets = (if direction = Forward then kForwardBuckets else kBackwardBuckets)
           in n = buckets ! 0 \<or> n = buckets ! 1 \<or> n = buckets ! 2)"

definition RelayCapacity :: "Direction \<Rightarrow> nat \<Rightarrow> nat option" where
  "RelayCapacity direction bucket =
     (if IsBucket direction bucket
      then do { left \<leftarrow> size_sub bucket kCellHeaderBytes; size_sub left (kMaxHops * kLayerTagBytes) }
      else Some 0)"

definition MaxDataPayload :: "Direction \<Rightarrow> nat option" where
  "MaxDataPayload direction =
     (if direction \<noteq> Forward \<and> direction \<noteq> Backward then Some 0
      else do {
        let buckets = (if direction = Forward then kForwardBuckets else kBackwardBuckets);
        capacity \<leftarrow> RelayCapacity direction (buckets ! 2);
        size_sub capacity kRelayHeaderBytes
      })"

primrec first_fitting :: "Direction \<Rightarrow> nat \<Rightarrow> nat list \<Rightarrow> nat option option" where
  "first_fitting direction payload_bytes [] = Some None"
| "first_fitting direction payload_bytes (bucket # buckets) = do {
     capacity \<leftarrow> RelayCapacity direction bucket;
     room \<leftarrow> size_sub capacity kRelayHeaderBytes;
     if payload_bytes \<le> room then Some (Some bucket)
     else first_fitting direction payload_bytes buckets
   }"

definition BucketForPayload :: "Direction \<Rightarrow> nat \<Rightarrow> nat option option" where
  "BucketForPayload direction payload_bytes =
     (if direction \<noteq> Forward \<and> direction \<noteq> Backward then Some None
      else first_fitting direction payload_bytes (buckets_of direction))"

section \<open>Cells\<close>

definition is_known_command :: "u8 \<Rightarrow> bool" where
  "is_known_command v \<longleftrightarrow> v \<ge> u8_of_Command Create \<and> v \<le> u8_of_Command Relay"

definition check_body :: "Direction \<Rightarrow> Command \<Rightarrow> nat \<Rightarrow> nat \<Rightarrow> CStatus option" where
  "check_body direction command bucket body_bytes =
     (case command of
        Create \<Rightarrow>
          Some (if direction \<noteq> Forward then Failure C_WrongDirection 1
                else if bucket \<noteq> kCreateBucket then Failure C_InvalidBucket 0
                else if body_bytes = kCreateBodyBytes then Success () else Failure C_InvalidLength 2)
      | Created \<Rightarrow>
          Some (if direction \<noteq> Backward then Failure C_WrongDirection 1
                else if bucket \<noteq> kCreatedBucket then Failure C_InvalidBucket 0
                else if body_bytes = kHopHandshakeBytes then Success () else Failure C_InvalidLength 2)
      | Relay \<Rightarrow> do {
          capacity \<leftarrow> RelayCapacity direction bucket;
          if body_bytes \<le> capacity then Some (Failure C_InvalidLength 2)
          else do {
            extra \<leftarrow> size_sub body_bytes capacity;
            Some (if extra mod kLayerTagBytes \<noteq> 0 \<or> extra div kLayerTagBytes > kMaxHops
                  then Failure C_InvalidLength 2 else Success ())
          }
        }
      | Command_other _ \<Rightarrow> Some (Failure C_InvalidCommand 1))"

definition DecodeCell :: "Direction \<Rightarrow> bytes \<Rightarrow> CellView CResult option" where
  "DecodeCell direction cell =
     (if \<not> IsBucket direction (length cell) then Some (Failure C_InvalidBucket 0)
      else do {
        version \<leftarrow> byte_at cell 0;
        if version \<noteq> kCellVersion then Some (Failure C_UnsupportedVersion 0)
        else do {
          raw_command \<leftarrow> byte_at cell 1;
          if \<not> is_known_command raw_command then Some (Failure C_InvalidCommand 1)
          else do {
            let command = Command_of_u8 raw_command;
            raw_bytes \<leftarrow> read_u16 cell 2;
            let body_bytes = unat raw_bytes;
            room \<leftarrow> size_sub (length cell) kCellHeaderBytes;
            if body_bytes > room then Some (Failure C_InvalidLength 2)
            else do {
              rule \<leftarrow> check_body direction command (length cell) body_bytes;
              case rule of
                Failure e n \<Rightarrow> Some (Failure e n)
              | Success _ \<Rightarrow> do {
                  nonzero \<leftarrow> first_nonzero cell (kCellHeaderBytes + body_bytes);
                  case nonzero of
                    Some at \<Rightarrow> Some (Failure C_NonzeroFiller at)
                  | None \<Rightarrow> do {
                      body \<leftarrow> subspan cell kCellHeaderBytes body_bytes;
                      layers \<leftarrow> (if command = Relay then do {
                          capacity \<leftarrow> RelayCapacity direction (length cell);
                          extra \<leftarrow> size_sub body_bytes capacity;
                          Some (extra div kLayerTagBytes)
                        } else Some 0);
                      Some (Success \<lparr>cv_command = command, cv_bucket = length cell, cv_body = body,
                                     cv_layers = layers\<rparr>)
                    }
                }
            }
          }
        }
      })"

text \<open>The overload that writes into a span: the status and the buffer after the call.\<close>

definition EncodeCell_into ::
  "Direction \<Rightarrow> Command \<Rightarrow> nat \<Rightarrow> bytes \<Rightarrow> bytes \<Rightarrow> (CStatus \<times> bytes) option" where
  "EncodeCell_into direction command bucket body output =
     (if \<not> IsBucket direction bucket then Some (Failure C_InvalidBucket 0, output)
      else if length output \<noteq> bucket then Some (Failure C_OutputTooSmall 0, output)
      else if \<not> is_known_command (u8_of_Command command) then Some (Failure C_InvalidCommand 1, output)
      else do {
        room \<leftarrow> size_sub bucket kCellHeaderBytes;
        if length body > room then Some (Failure C_InvalidLength 2, output)
        else do {
          rule \<leftarrow> check_body direction command bucket (length body);
          case rule of
            Failure e n \<Rightarrow> Some (Failure e n, output)
          | Success _ \<Rightarrow> do {
              output \<leftarrow> put_byte output 0 kCellVersion;
              output \<leftarrow> put_byte output 1 (u8_of_Command command);
              output \<leftarrow> write_u16 output 2 (of_nat (length body));
              output \<leftarrow> copy_to output kCellHeaderBytes body;
              output \<leftarrow> fill_zero output (kCellHeaderBytes + length body);
              Some (Success (), output)
            }
        }
      })"

definition EncodeCell :: "Direction \<Rightarrow> Command \<Rightarrow> nat \<Rightarrow> bytes \<Rightarrow> bytes CResult option" where
  "EncodeCell direction command bucket body =
     (if \<not> IsBucket direction bucket then Some (Failure C_InvalidBucket 0)
      else do {
        (status, output) \<leftarrow> EncodeCell_into direction command bucket body (replicate bucket 0);
        case status of
          Failure e n \<Rightarrow> Some (Failure e n)
        | Success _ \<Rightarrow> Some (Success output)
      })"

definition ErrorName :: "CircuitError \<Rightarrow> bytes" where
  "ErrorName code = ascii (case code of
     C_Ok \<Rightarrow> ''ok'' | C_Truncated \<Rightarrow> ''truncated'' | C_TrailingData \<Rightarrow> ''trailing data''
   | C_UnsupportedVersion \<Rightarrow> ''unsupported version'' | C_InvalidCommand \<Rightarrow> ''invalid command''
   | C_InvalidBucket \<Rightarrow> ''invalid bucket'' | C_InvalidLength \<Rightarrow> ''invalid length''
   | C_NonzeroFiller \<Rightarrow> ''nonzero filler'' | C_NonzeroReserved \<Rightarrow> ''nonzero reserved''
   | C_InvalidDepth \<Rightarrow> ''invalid depth'' | C_InvalidType \<Rightarrow> ''invalid type''
   | C_WrongDirection \<Rightarrow> ''wrong direction'' | C_InvalidStream \<Rightarrow> ''invalid stream''
   | C_InvalidReason \<Rightarrow> ''invalid reason'' | C_InvalidDestination \<Rightarrow> ''invalid destination''
   | C_InvalidCredit \<Rightarrow> ''invalid credit'' | C_OutputTooSmall \<Rightarrow> ''output too small'')"

section \<open>Helper lemmas\<close>

lemma circuit_reads [simp]:
  "read_u16 = read_u16_be" "read_u32 = read_u32_be" "write_u16 = write_u16_be" "write_u32 = write_u32_be"
  by (simp_all add: fun_eq_iff read_u16_def read_u16_be_def read_u32_def read_u32_be_def
      write_u16_def write_u16_be_def write_u32_def write_u32_be_def)

lemmas circuit_sizes = kCellHeaderBytes_def kMaxHops_def kLayerTagBytes_def kRelayHeaderBytes_def
  kFingerprintBytes_def kNonceBytes_def kX25519Bytes_def kMlKemPublicBytes_def
  kMlKemCiphertextBytes_def kConfirmationBytes_def kSignatureBytes_def kClientHandshakeBytes_def
  kHopHandshakeBytes_def kCreateBodyBytes_def kCreateBucket_def kExtendPayloadBytes_def

lemma kCreatedBucket_eq [simp]: "kCreatedBucket = 16315"
  by (simp add: kCreatedBucket_def kBackwardBuckets_def)

lemma fill_zero_next [wire]:
  assumes "start = length pre"
  shows "fill_zero (pre @ rest) start = Some (pre @ replicate (length rest) 0)"
  using assms by (simp add: fill_zero_def)

lemma find_None_range: "find P [a ..< b] = None \<longleftrightarrow> (\<forall>i. a \<le> i \<and> i < b \<longrightarrow> \<not> P i)"
  by (auto simp: find_None_iff)

lemma first_nonzero_None:
  "start \<le> length bs \<Longrightarrow>
   first_nonzero bs start = Some None \<longleftrightarrow> bs = take start bs @ replicate (length bs - start) 0"
proof -
  assume start: "start \<le> length bs"
  have "first_nonzero bs start = Some None \<longleftrightarrow> (\<forall>i. start \<le> i \<and> i < length bs \<longrightarrow> bs ! i = 0)"
    using start by (simp add: first_nonzero_def find_None_range)
  also have "\<dots> \<longleftrightarrow> drop start bs = replicate (length bs - start) 0"
  proof
    assume zero: "\<forall>i. start \<le> i \<and> i < length bs \<longrightarrow> bs ! i = 0"
    show "drop start bs = replicate (length bs - start) 0"
      by (rule nth_equalityI) (use zero start in simp_all)
  next
    assume d: "drop start bs = replicate (length bs - start) 0"
    show "\<forall>i. start \<le> i \<and> i < length bs \<longrightarrow> bs ! i = 0"
    proof (intro allI impI)
      fix i assume i: "start \<le> i \<and> i < length bs"
      then have "drop start bs ! (i - start) = bs ! i" "i - start < length bs - start" by auto
      with d show "bs ! i = 0" by simp
    qed
  qed
  also have "\<dots> \<longleftrightarrow> bs = take start bs @ replicate (length bs - start) 0"
    by (metis append_take_drop_id same_append_eq)
  finally show ?thesis .
qed

lemma first_nonzero_in_bounds: "start \<le> length bs \<Longrightarrow> \<exists>r. first_nonzero bs start = Some r"
  by (simp add: first_nonzero_def)

lemma first_nonzero_Some:
  "first_nonzero bs start = Some (Some i) \<Longrightarrow> start \<le> i \<and> i < length bs \<and> bs ! i \<noteq> 0"
  by (auto simp: first_nonzero_def find_Some_iff split: if_splits)

section \<open>Buckets and capacities\<close>

lemma IsBucket_iff:
  "IsBucket direction n \<longleftrightarrow> is_known_direction direction \<and>
     (n = 512 \<or> n = 4096 \<or> n = (if direction = Forward then 16311 else 16315))"
  by (auto simp: IsBucket_def is_known_direction_def kForwardBuckets_def kBackwardBuckets_def Let_def)

lemma IsBucket_buckets_of:
  "IsBucket direction n \<longleftrightarrow> is_known_direction direction \<and> n \<in> set (buckets_of direction)"
  by (auto simp: IsBucket_iff buckets_of_def kForwardBuckets_def kBackwardBuckets_def)

lemma IsBucket_range: "IsBucket direction n \<Longrightarrow> 512 \<le> n \<and> n \<le> 16315"
  by (auto simp: IsBucket_iff split: if_splits)

lemma RelayCapacity_bucket: "IsBucket direction n \<Longrightarrow> RelayCapacity direction n = Some (n - 52)"
  using IsBucket_range [of direction n] by (auto simp: RelayCapacity_def circuit_sizes size_sub_def)

lemma RelayCapacity_in_bounds: "RelayCapacity direction n \<noteq> None"
  using RelayCapacity_bucket [of direction n] by (cases "IsBucket direction n") (auto simp: RelayCapacity_def)

lemma first_fitting_eq:
  "(\<And>b. b \<in> set bs \<Longrightarrow> IsBucket direction b) \<Longrightarrow>
   first_fitting direction n bs = Some (find (\<lambda>b. n + 60 \<le> b) bs)"
proof (induction bs)
  case (Cons b bs)
  then have "IsBucket direction b" by simp
  then have "RelayCapacity direction b = Some (b - 52)" "512 \<le> b"
    using RelayCapacity_bucket IsBucket_range by blast+
  with Cons show ?case by (auto simp: circuit_sizes size_sub_def)
qed simp

lemma BucketForPayload_eq:
  "is_known_direction direction \<Longrightarrow>
   BucketForPayload direction n = Some (find (\<lambda>b. n + 60 \<le> b) (buckets_of direction))"
  using first_fitting_eq [of "buckets_of direction" direction n]
  by (auto simp: BucketForPayload_def is_known_direction_def IsBucket_buckets_of)

section \<open>The cell codec\<close>

text \<open>The body sizes a cell of a bucket may have; a relay body carries one to three layer tags.\<close>

definition body_rule :: "Direction \<Rightarrow> Command \<Rightarrow> nat \<Rightarrow> nat \<Rightarrow> bool" where
  "body_rule direction command bucket n \<longleftrightarrow>
     (case command of
        Create \<Rightarrow> direction = Forward \<and> bucket = 4096 \<and> n = 1638
      | Created \<Rightarrow> direction = Backward \<and> bucket = 16315 \<and> n = 6327
      | Relay \<Rightarrow> n \<in> {bucket - 36, bucket - 20, bucket - 4}
      | Command_other _ \<Rightarrow> False)"

lemma body_rule_fits: "IsBucket direction bucket \<Longrightarrow> body_rule direction command bucket n \<Longrightarrow> n + 4 \<le> bucket"
  using IsBucket_range [of direction bucket]
  by (auto simp: body_rule_def split: Command.splits)

lemma layer_arith:
  assumes "(60 :: nat) \<le> b"
  shows "\<not> n \<le> b - 52 \<and> (n - (b - 52)) mod 16 = 0 \<and> (n - (b - 52)) div 16 \<le> 3 \<longleftrightarrow>
    n \<in> {b - 36, b - 20, b - 4}"
proof
  assume h: "\<not> n \<le> b - 52 \<and> (n - (b - 52)) mod 16 = 0 \<and> (n - (b - 52)) div 16 \<le> 3"
  define k where "k = (n - (b - 52)) div 16"
  have "16 dvd n - (b - 52)" using h by (simp add: dvd_eq_mod_eq_0)
  then have "n - (b - 52) = 16 * k" unfolding k_def by (rule dvd_mult_div_cancel [symmetric])
  moreover from h have "k \<le> 3" by (simp add: k_def)
  then have "k = 0 \<or> k = 1 \<or> k = 2 \<or> k = 3" by auto
  ultimately show "n \<in> {b - 36, b - 20, b - 4}" using h assms by auto
next
  have sizes: "b - 36 = 16 + (b - 52)" "b - 20 = 32 + (b - 52)" "b - 4 = 48 + (b - 52)"
    using assms by auto
  assume "n \<in> {b - 36, b - 20, b - 4}"
  then show "\<not> n \<le> b - 52 \<and> (n - (b - 52)) mod 16 = 0 \<and> (n - (b - 52)) div 16 \<le> 3"
    unfolding sizes by auto
qed

lemma check_body_eq:
  assumes "IsBucket direction bucket"
  shows "\<exists>e k. check_body direction command bucket n =
    Some (if body_rule direction command bucket n then Success () else Failure e k)"
proof (cases command)
  case Relay
  have "60 \<le> bucket" using IsBucket_range [OF assms] by simp
  note arith = layer_arith [OF this, of n]
  have "check_body direction command bucket n = Some
      (if \<not> n \<le> bucket - 52 \<and> (n - (bucket - 52)) mod 16 = 0 \<and> (n - (bucket - 52)) div 16 \<le> 3
       then Success () else Failure C_InvalidLength 2)"
    by (simp add: check_body_def Relay RelayCapacity_bucket [OF assms] kLayerTagBytes_def kMaxHops_def
        not_less del: diff_diff_left)
  then show ?thesis unfolding arith by (auto simp: body_rule_def Relay)
qed (auto simp: check_body_def body_rule_def circuit_sizes)

lemma known_command: "is_known_command (u8_of_Command c) \<Longrightarrow> body_rule d c b n \<Longrightarrow> Command_of_u8 (u8_of_Command c) = c"
  by (cases c) (simp_all add: body_rule_def Command_of_u8_def)

lemma body_rule_known: "body_rule d c b n \<Longrightarrow> is_known_command (u8_of_Command c)"
  by (cases c) (simp_all add: body_rule_def is_known_command_def)

lemma u8_of_Command_of_u8 [simp]: "u8_of_Command (Command_of_u8 v) = v"
  by (simp add: Command_of_u8_def)

definition cell_bytes :: "Command \<Rightarrow> nat \<Rightarrow> bytes \<Rightarrow> bytes" where
  "cell_bytes command bucket body =
     [kCellVersion] @ [u8_of_Command command] @ be16 (of_nat (length body)) @ body
     @ replicate (bucket - 4 - length body) 0"

definition cell_valid :: "Direction \<Rightarrow> CellView \<Rightarrow> bool" where
  "cell_valid direction v \<longleftrightarrow>
     cv_layers v = (if cv_command v = Relay then (length (cv_body v) + 52 - cv_bucket v) div 16 else 0)"

definition cell_ok :: "Direction \<Rightarrow> Command \<Rightarrow> nat \<Rightarrow> bytes \<Rightarrow> bool" where
  "cell_ok direction command bucket body \<longleftrightarrow>
     IsBucket direction bucket \<and> body_rule direction command bucket (length body)"

lemma EncodeCell_into_eq:
  "\<exists>e k. EncodeCell_into direction command bucket body output =
     Some (if cell_ok direction command bucket body \<and> length output = bucket
           then (Success (), cell_bytes command bucket body) else (Failure e k, output))"
proof (cases "IsBucket direction bucket \<and> length output = bucket")
  case True
  obtain e k where rule: "check_body direction command bucket (length body) =
      Some (if body_rule direction command bucket (length body) then Success () else Failure e k)"
    using check_body_eq True by blast
  have range: "512 \<le> bucket" "bucket \<le> 16315" using IsBucket_range True by blast+
  show ?thesis
  proof (cases "body_rule direction command bucket (length body)")
    case body: True
    have fits: "length body + 4 \<le> bucket" using body_rule_fits True body by blast
    have known: "is_known_command (u8_of_Command command)" using body_rule_known [OF body] .
    show ?thesis
      using True body fits known rule range
      by (simp add: EncodeCell_into_def cell_ok_def circuit_sizes wire cell_bytes_def
          del: append_assoc append.simps) (simp add: algebra_simps)
  next
    case False
    with True rule range show ?thesis
      by (auto simp: EncodeCell_into_def cell_ok_def circuit_sizes)
  qed
qed (auto simp: EncodeCell_into_def cell_ok_def)

lemma EncodeCell_eq:
  "\<exists>e k. EncodeCell direction command bucket body =
     Some (if cell_ok direction command bucket body then Success (cell_bytes command bucket body)
           else Failure e k)"
proof -
  obtain e k where "EncodeCell_into direction command bucket body (replicate bucket 0) =
     Some (if cell_ok direction command bucket body then (Success (), cell_bytes command bucket body)
           else (Failure e k, replicate bucket 0))"
    using EncodeCell_into_eq [of direction command bucket body "replicate bucket 0"] by auto
  then show ?thesis by (auto simp: EncodeCell_def cell_ok_def)
qed

lemma DecodeCell_in_bounds: "DecodeCell direction cell \<noteq> None"
proof (cases "IsBucket direction (length cell)")
  case True
  note range = IsBucket_range [OF True]
  from range have start: "cell \<noteq> []" "1 < length cell" "4 \<le> length cell" "3 < length cell" by auto
  have rule: "\<exists>r. check_body direction c (length cell) n = Some r \<and>
      (r = Success () \<longrightarrow> body_rule direction c (length cell) n)" for c n
    using check_body_eq [OF True, of c n] by fastforce
  have capacity: "RelayCapacity direction (length cell) = Some (length cell - 52)"
    by (rule RelayCapacity_bucket [OF True])
  show ?thesis
  proof
    assume run: "DecodeCell direction cell = None"
    let ?n = "unat (of_be16 (cell ! 2) (cell ! 3))" and ?c = "Command_of_u8 (cell ! 1)"
    obtain r where r: "check_body direction ?c (length cell) ?n = Some r"
        "r = Success () \<longrightarrow> body_rule direction ?c (length cell) ?n"
      using rule by blast
    have fits: "?n + 4 \<le> length cell" "?c = Relay \<longrightarrow> length cell - 52 \<le> ?n"
      if "r = Success ()"
      using that r(2) body_rule_fits [OF True] range by (auto simp: body_rule_def)
    then obtain f where f: "r = Success () \<longrightarrow> first_nonzero cell (4 + ?n) = Some f"
      using first_nonzero_in_bounds [of "4 + ?n" cell] by (auto simp: add.commute)
    show False
      using run True start r(1) fits f
      by (cases r) (auto simp: DecodeCell_def kCellHeaderBytes_def capacity Let_def bind_None_iff
          split: option.splits if_splits)
  qed
qed (simp add: DecodeCell_def)

lemma DecodeCell_sound:
  assumes run: "DecodeCell direction cell = Some (Success v)"
  shows "cell_ok direction (cv_command v) (cv_bucket v) (cv_body v) \<and> cell_valid direction v \<and>
    cell = cell_bytes (cv_command v) (cv_bucket v) (cv_body v)"
proof -
  from run have bucket: "IsBucket direction (length cell)" by (auto simp: DecodeCell_def split: if_splits)
  note range = IsBucket_range [OF bucket] and capacity = RelayCapacity_bucket [OF bucket]
  from range have "4 \<le> length cell" by simp
  then obtain b0 b1 b2 b3 rest where p: "cell = b0 # b1 # b2 # b3 # rest" by (rule list4E)
  have at: "cell \<noteq> []" "1 < length cell" "3 < length cell" "cell ! 0 = b0" "cell ! 1 = b1"
      "cell ! 2 = b2" "cell ! 3 = b3"
    by (simp_all add: p)
  let ?n = "unat (of_be16 b2 b3)" and ?c = "Command_of_u8 b1"
  obtain e k where rule: "check_body direction ?c (length cell) ?n =
      Some (if body_rule direction ?c (length cell) ?n then Success () else Failure e k)"
    using check_body_eq [OF bucket] by blast
  have ok: "b0 = kCellVersion" "?n + 4 \<le> length cell" "body_rule direction ?c (length cell) ?n"
      "first_nonzero cell (4 + ?n) = Some None" "cv_command v = ?c" "cv_bucket v = length cell"
      "cv_body v = take ?n (drop 4 cell)"
      "cv_layers v = (if ?c = Relay then (?n - (length cell - 52)) div 16 else 0)"
    using run bucket at rule capacity range
    by (simp_all add: DecodeCell_def circuit_sizes Let_def bind_eq_Some_conv size_sub_eq_Some
        split: if_splits option.splits) auto
  then have len: "length (cv_body v) = ?n" and body: "cv_body v = take ?n rest" by (simp_all add: p)
  have "cell = take (4 + ?n) cell @ replicate (length cell - (4 + ?n)) 0"
    using ok(2,4) by (intro first_nonzero_None [THEN iffD1]) simp_all
  also have "take (4 + ?n) cell = b0 # b1 # b2 # b3 # take ?n rest"
    by (simp add: p eval_nat_numeral)
  also have "(b0 # b1 # b2 # b3 # take ?n rest) @ replicate (length cell - (4 + ?n)) 0
      = cell_bytes (cv_command v) (cv_bucket v) (cv_body v)"
    unfolding cell_bytes_def len ok(5,6) using ok(1) by (simp add: body)
  finally have "cell = cell_bytes (cv_command v) (cv_bucket v) (cv_body v)" .
  moreover have "cell_ok direction (cv_command v) (cv_bucket v) (cv_body v)"
    using bucket ok(3,5,6) len by (simp add: cell_ok_def)
  moreover have "cell_valid direction v"
    using ok(5,6,8) len range by (simp add: cell_valid_def)
  ultimately show ?thesis by blast
qed

lemma DecodeCell_complete:
  assumes right: "cell_ok direction (cv_command v) (cv_bucket v) (cv_body v)" "cell_valid direction v"
    and bytes: "cell = cell_bytes (cv_command v) (cv_bucket v) (cv_body v)"
  shows "DecodeCell direction cell = Some (Success v)"
proof -
  let ?n = "length (cv_body v)" and ?b = "cv_bucket v" and ?c = "cv_command v"
  have bucket: "IsBucket direction ?b" and body: "body_rule direction ?c ?b ?n"
    using right by (simp_all add: cell_ok_def)
  note range = IsBucket_range [OF bucket] and capacity = RelayCapacity_bucket [OF bucket]
  have fits: "?n + 4 \<le> ?b" using body_rule_fits [OF bucket body] .
  have len: "length cell = ?b" using bytes fits by (simp add: cell_bytes_def)
  obtain b2 b3 where n: "be16 (of_nat ?n) = [b2, b3]" "of_be16 b2 b3 = of_nat ?n"
    using be16_def of_be16_be16 by blast
  let ?pre = "[kCellVersion, u8_of_Command ?c, b2, b3] @ cv_body v"
  have cell: "cell = ?pre @ replicate (?b - 4 - ?n) 0"
    using bytes by (simp add: cell_bytes_def n)
  have "unat (of_be16 b2 b3) = ?n" using fits range by (simp add: n unat_of_size16)
  moreover have front: "take (4 + ?n) cell = ?pre"
    using append_eq_conv_conj [THEN iffD1, OF cell [symmetric]] by (simp add: eval_nat_numeral)
  have "cell = take (4 + ?n) cell @ replicate (length cell - (4 + ?n)) 0"
    unfolding len front by (simp add: cell)
  then have "first_nonzero cell (4 + ?n) = Some None"
    by (intro first_nonzero_None [THEN iffD2]) (use fits len in simp_all)
  moreover have "check_body direction ?c ?b ?n = Some (Success ())"
    using check_body_eq [OF bucket, of ?c ?n] body by auto
  moreover have "?c = Relay \<longrightarrow> ?b - 52 \<le> ?n"
    using body range by (auto simp: body_rule_def)
  moreover note known_command [OF body_rule_known [OF body] body] body_rule_known [OF body]
  moreover have "cell \<noteq> []" "cell ! 0 = kCellVersion" "cell ! 1 = u8_of_Command ?c"
      "cell ! 2 = b2" "cell ! 3 = b3" "take ?n (drop 4 cell) = cv_body v"
    by (simp_all add: cell)
  moreover have "?n + 52 - ?b = ?n - (?b - 52)" using range by auto
  ultimately show ?thesis
    using right(2) bucket capacity len fits range
    by (cases v) (simp add: DecodeCell_def circuit_sizes Let_def cell_valid_def, auto)
qed

lemma DecodeCell_iff:
  "DecodeCell direction cell = Some (Success v) \<longleftrightarrow>
     cell_ok direction (cv_command v) (cv_bucket v) (cv_body v) \<and> cell_valid direction v \<and>
     cell = cell_bytes (cv_command v) (cv_bucket v) (cv_body v)"
  using DecodeCell_sound DecodeCell_complete by blast

definition encode_cell :: "Direction \<Rightarrow> CellView \<Rightarrow> bytes CResult option" where
  "encode_cell direction v = EncodeCell direction (cv_command v) (cv_bucket v) (cv_body v)"

interpretation cell: exact_codec "encode_cell direction" "DecodeCell direction" "cell_valid direction"
  for direction
proof
  fix v bs
  show "encode_cell direction v \<noteq> None"
    using EncodeCell_eq [of direction "cv_command v" "cv_bucket v" "cv_body v"]
    by (auto simp: encode_cell_def)
  show "DecodeCell direction bs = Some (Success v)"
    if "cell_valid direction v" "encode_cell direction v = Some (Success bs)"
    using that EncodeCell_eq [of direction "cv_command v" "cv_bucket v" "cv_body v"]
    by (auto simp: encode_cell_def DecodeCell_iff split: if_splits)
  show "encode_cell direction v = Some (Success bs)" "cell_valid direction v"
    if "DecodeCell direction bs = Some (Success v)"
    using that EncodeCell_eq [of direction "cv_command v" "cv_bucket v" "cv_body v"]
    by (auto simp: encode_cell_def DecodeCell_iff)
qed (rule DecodeCell_in_bounds)

section \<open>Properties\<close>

text \<open>C29: a cell decodes exactly from what the encoder writes for its command, bucket and body,
  and reports as layer count how many 16-byte tags the relay body carries beyond the bucket's
  capacity; the decoder never reads outside the cell.\<close>

theorem cell_canonical:
  "(DecodeCell direction cell = Some (Success v) \<longleftrightarrow>
      EncodeCell direction (cv_command v) (cv_bucket v) (cv_body v) = Some (Success cell) \<and>
      cv_layers v = (if cv_command v = Relay then (length (cv_body v) + 52 - cv_bucket v) div 16 else 0)) \<and>
   DecodeCell direction cell \<noteq> None"
  using cell.exact_iff [of direction cell v] DecodeCell_in_bounds [of direction cell]
  by (auto simp: cell_valid_def encode_cell_def)

text \<open>A cell the encoder accepts fills its bucket exactly, whatever its body, so the bucket
  is all that its size tells; the encoder leaves the output untouched when it refuses.\<close>

theorem cell_fills_bucket:
  "(\<exists>e k. EncodeCell_into direction command bucket body output = Some (Failure e k, output)) \<or>
   (\<exists>cell. EncodeCell_into direction command bucket body output = Some (Success (), cell) \<and>
      length cell = bucket \<and> IsBucket direction bucket \<and> take (length body) (drop 4 cell) = body)"
proof -
  have "length (cell_bytes command bucket body) = bucket \<and>
      take (length body) (drop 4 (cell_bytes command bucket body)) = body"
    if "cell_ok direction command bucket body"
    using that body_rule_fits by (force simp: cell_ok_def cell_bytes_def be16_def)
  then show ?thesis
    using EncodeCell_into_eq [of direction command bucket body "output"] by (auto simp: cell_ok_def)
qed

lemma find_least:
  assumes "sorted_wrt (<) xs"
  shows "find P xs = Some (b :: nat) \<longleftrightarrow> b \<in> set xs \<and> P b \<and> (\<forall>b' \<in> set xs. P b' \<longrightarrow> b \<le> b')"
  using assms
proof (induction xs)
  case (Cons x xs)
  show ?case
  proof (cases "P x")
    case True
    have "x < y" if "y \<in> set xs" for y using that Cons.prems by simp
    with True show ?thesis by (auto intro: order.strict_implies_order dest: leD)
  next
    case False
    with Cons show ?thesis by auto
  qed
qed simp

text \<open>C32: the bucket chosen for a payload is a bucket of the direction whose relay capacity
  holds the payload and its header, and no smaller bucket of the direction does.\<close>

theorem bucket_for_payload_least:
  assumes "is_known_direction direction"
  shows "BucketForPayload direction n = Some (Some b) \<longleftrightarrow>
      (\<exists>c. IsBucket direction b \<and> RelayCapacity direction b = Some c \<and> n + 8 \<le> c \<and>
        (\<forall>b' c'. IsBucket direction b' \<longrightarrow> RelayCapacity direction b' = Some c' \<longrightarrow> n + 8 \<le> c' \<longrightarrow> b \<le> b'))"
    (is "?run \<longleftrightarrow> ?least")
proof -
  let ?bs = "buckets_of direction"
  have sorted: "sorted_wrt (<) ?bs"
    by (simp add: buckets_of_def kForwardBuckets_def kBackwardBuckets_def)
  have fits: "IsBucket direction b \<and> (\<exists>c. RelayCapacity direction b = Some c \<and> n + 8 \<le> c)
      \<longleftrightarrow> b \<in> set ?bs \<and> n + 60 \<le> b" for b
    using RelayCapacity_bucket [of direction b] IsBucket_range [of direction b] assms
    by (auto simp: IsBucket_buckets_of)
  have "?run \<longleftrightarrow> b \<in> set ?bs \<and> n + 60 \<le> b \<and> (\<forall>b' \<in> set ?bs. n + 60 \<le> b' \<longrightarrow> b \<le> b')"
    using find_least [OF sorted] BucketForPayload_eq [OF assms, of n] by simp
  also have "\<dots> \<longleftrightarrow> (b \<in> set ?bs \<and> n + 60 \<le> b) \<and> (\<forall>b'. b' \<in> set ?bs \<and> n + 60 \<le> b' \<longrightarrow> b \<le> b')"
    by blast
  also have "\<dots> \<longleftrightarrow> ?least" unfolding fits [symmetric] by blast
  finally show ?thesis .
qed

theorem bucket_for_payload_least_witness:
  "BucketForPayload Forward 1000 = Some (Some 4096)"
proof -
  have "is_known_direction Forward" by (simp add: is_known_direction_def)
  note least = bucket_for_payload_least [OF this, of 1000 4096]
  show ?thesis unfolding least
    by (auto simp: RelayCapacity_bucket IsBucket_iff is_known_direction_def)
qed

end
