(* ===== verification/Circuit_Handshake.thy ===== *)
theory Circuit_Handshake
  imports Circuit_Cells
begin

text \<open>
  The fixed-size messages of Circuit 1 (\<^verbatim>\<open>src/src/circuit/protocol.cpp\<close>): the client and hop
  handshakes, the CREATE body and the EXTEND payload.
\<close>

section \<open>Data\<close>

record ClientHandshake =
  ch_nonce :: bytes
  ch_x25519_public :: bytes
  ch_mlkem_public :: bytes

record HopHandshake =
  hh_x25519_public :: bytes
  hh_mlkem_ciphertext :: bytes
  hh_confirmation :: bytes
  hh_signature :: bytes

record CreateView =
  cr_depth :: u8
  cr_client_handshake :: bytes

record ExtendView =
  ex_next_identity :: bytes
  ex_client_handshake :: bytes

text \<open>The lengths of the arrays.\<close>

definition client_handshake_valid :: "ClientHandshake \<Rightarrow> bool" where
  "client_handshake_valid h \<longleftrightarrow> length (ch_nonce h) = kNonceBytes \<and>
     length (ch_x25519_public h) = kX25519Bytes \<and> length (ch_mlkem_public h) = kMlKemPublicBytes"

definition hop_handshake_valid :: "HopHandshake \<Rightarrow> bool" where
  "hop_handshake_valid h \<longleftrightarrow> length (hh_x25519_public h) = kX25519Bytes \<and>
     length (hh_mlkem_ciphertext h) = kMlKemCiphertextBytes \<and>
     length (hh_confirmation h) = kConfirmationBytes \<and> length (hh_signature h) = kSignatureBytes"

section \<open>Operations\<close>

text \<open>The loop over the reserved bytes.\<close>

primrec reserved_zero :: "bytes \<Rightarrow> nat \<Rightarrow> nat list \<Rightarrow> CStatus option" where
  "reserved_zero input base [] = Some (Success ())"
| "reserved_zero input base (index # rest) = do {
     b \<leftarrow> byte_at input (base + index);
     if b \<noteq> 0 then Some (Failure C_NonzeroReserved (base + index))
     else reserved_zero input base rest
   }"

definition handshake_prefix :: "bytes \<Rightarrow> nat \<Rightarrow> CStatus option" where
  "handshake_prefix input base = do {
     schema \<leftarrow> byte_at input base;
     if schema \<noteq> kHandshakeSchema then Some (Failure C_UnsupportedVersion base)
     else reserved_zero input base [1, 2, 3]
   }"

definition EncodeClientHandshake :: "ClientHandshake \<Rightarrow> bytes option" where
  "EncodeClientHandshake handshake = do {
     let output = replicate kClientHandshakeBytes 0;
     output \<leftarrow> put_byte output 0 kHandshakeSchema;
     let cursor = 4;
     output \<leftarrow> copy_to output cursor (ch_nonce handshake);
     let cursor = cursor + length (ch_nonce handshake);
     output \<leftarrow> copy_to output cursor (ch_x25519_public handshake);
     let cursor = cursor + length (ch_x25519_public handshake);
     copy_to output cursor (ch_mlkem_public handshake)
   }"

definition DecodeClientHandshake :: "bytes \<Rightarrow> ClientHandshake CResult option" where
  "DecodeClientHandshake bs =
     (case exact_size bs kClientHandshakeBytes of
        Failure e n \<Rightarrow> Some (Failure e n)
      | Success _ \<Rightarrow> do {
          status \<leftarrow> handshake_prefix bs 0;
          case status of
            Failure e n \<Rightarrow> Some (Failure e n)
          | Success _ \<Rightarrow> do {
              let cursor = 4;
              nonce \<leftarrow> subspan bs cursor kNonceBytes;
              let cursor = cursor + kNonceBytes;
              x25519_public \<leftarrow> subspan bs cursor kX25519Bytes;
              let cursor = cursor + kX25519Bytes;
              mlkem_public \<leftarrow> subspan bs cursor kMlKemPublicBytes;
              Some (Success \<lparr>ch_nonce = nonce, ch_x25519_public = x25519_public,
                             ch_mlkem_public = mlkem_public\<rparr>)
            }
        })"

definition EncodeHopHandshake :: "HopHandshake \<Rightarrow> bytes option" where
  "EncodeHopHandshake handshake = do {
     let output = replicate kHopHandshakeBytes 0;
     output \<leftarrow> put_byte output 0 kHandshakeSchema;
     let cursor = 4;
     output \<leftarrow> copy_to output cursor (hh_x25519_public handshake);
     let cursor = cursor + length (hh_x25519_public handshake);
     output \<leftarrow> copy_to output cursor (hh_mlkem_ciphertext handshake);
     let cursor = cursor + length (hh_mlkem_ciphertext handshake);
     output \<leftarrow> copy_to output cursor (hh_confirmation handshake);
     let cursor = cursor + length (hh_confirmation handshake);
     copy_to output cursor (hh_signature handshake)
   }"

definition DecodeHopHandshake :: "bytes \<Rightarrow> HopHandshake CResult option" where
  "DecodeHopHandshake bs =
     (case exact_size bs kHopHandshakeBytes of
        Failure e n \<Rightarrow> Some (Failure e n)
      | Success _ \<Rightarrow> do {
          status \<leftarrow> handshake_prefix bs 0;
          case status of
            Failure e n \<Rightarrow> Some (Failure e n)
          | Success _ \<Rightarrow> do {
              let cursor = 4;
              x25519_public \<leftarrow> subspan bs cursor kX25519Bytes;
              let cursor = cursor + kX25519Bytes;
              mlkem_ciphertext \<leftarrow> subspan bs cursor kMlKemCiphertextBytes;
              let cursor = cursor + kMlKemCiphertextBytes;
              confirmation \<leftarrow> subspan bs cursor kConfirmationBytes;
              let cursor = cursor + kConfirmationBytes;
              signature \<leftarrow> subspan bs cursor kSignatureBytes;
              Some (Success \<lparr>hh_x25519_public = x25519_public, hh_mlkem_ciphertext = mlkem_ciphertext,
                             hh_confirmation = confirmation, hh_signature = signature\<rparr>)
            }
        })"

definition EncodeCreate :: "u8 \<Rightarrow> bytes \<Rightarrow> bytes CResult option" where
  "EncodeCreate depth client_handshake =
     (if depth < 1 \<or> unat depth > kMaxHops then Some (Failure C_InvalidDepth 0)
      else do {
        prefix \<leftarrow> handshake_prefix client_handshake 0;
        case prefix of
          Failure e n \<Rightarrow> Some (Failure e (n + 2))
        | Success _ \<Rightarrow> do {
            let body = replicate kCreateBodyBytes 0;
            body \<leftarrow> put_byte body 0 depth;
            body \<leftarrow> copy_to body 2 client_handshake;
            Some (Success body)
          }
      })"

definition DecodeCreate :: "bytes \<Rightarrow> CreateView CResult option" where
  "DecodeCreate body =
     (case exact_size body kCreateBodyBytes of
        Failure e n \<Rightarrow> Some (Failure e n)
      | Success _ \<Rightarrow> do {
          depth \<leftarrow> byte_at body 0;
          if depth < 1 \<or> unat depth > kMaxHops then Some (Failure C_InvalidDepth 0)
          else do {
            reserved \<leftarrow> byte_at body 1;
            if reserved \<noteq> 0 then Some (Failure C_NonzeroReserved 1)
            else do {
              status \<leftarrow> handshake_prefix body 2;
              case status of
                Failure e n \<Rightarrow> Some (Failure e n)
              | Success _ \<Rightarrow> do {
                  rest \<leftarrow> subspan body 2 (length body - 2);
                  Some (Success \<lparr>cr_depth = depth, cr_client_handshake = rest\<rparr>)
                }
            }
          }
        })"

definition EncodeExtendPayload :: "bytes \<Rightarrow> bytes \<Rightarrow> bytes option" where
  "EncodeExtendPayload next_identity client_handshake = do {
     let output = replicate kExtendPayloadBytes 0;
     output \<leftarrow> copy_to output 0 next_identity;
     let cursor = length next_identity;
     copy_to output cursor client_handshake
   }"

definition DecodeExtendPayload :: "bytes \<Rightarrow> ExtendView CResult option" where
  "DecodeExtendPayload payload =
     (case exact_size payload kExtendPayloadBytes of
        Failure e n \<Rightarrow> Some (Failure e n)
      | Success _ \<Rightarrow> do {
          prefix \<leftarrow> handshake_prefix payload kFingerprintBytes;
          case prefix of
            Failure e n \<Rightarrow> Some (Failure e n)
          | Success _ \<Rightarrow> do {
              next_identity \<leftarrow> subspan payload 0 kFingerprintBytes;
              client_handshake \<leftarrow> subspan payload kFingerprintBytes (length payload - kFingerprintBytes);
              Some (Success \<lparr>ex_next_identity = next_identity, ex_client_handshake = client_handshake\<rparr>)
            }
        })"

section \<open>The shared prefix\<close>

lemma handshake_prefix_eq:
  assumes "base + 4 \<le> length input"
  shows "\<exists>e n. handshake_prefix input base =
    Some (if take 4 (drop base input) = [kHandshakeSchema, 0, 0, 0] then Success () else Failure e n)"
proof -
  have "4 \<le> length (drop base input)" using assms by simp
  then obtain b0 b1 b2 b3 rest where d: "drop base input = b0 # b1 # b2 # b3 # rest" by (rule list4E)
  have at: "input ! (base + i) = (b0 # b1 # b2 # b3 # rest) ! i" for i
    using d assms by (metis add_leD1 nth_drop)
  have b: "input ! base = b0" "input ! Suc base = b1" "input ! Suc (Suc base) = b2" "input ! (base + 3) = b3"
    using at [of 0] at [of 1] at [of 2] at [of 3] by simp_all
  show ?thesis
    using assms by (auto simp: handshake_prefix_def b d)
qed

lemma exact_size_iff [simp]: "exact_size bs n = Success u \<longleftrightarrow> length bs = n"
  by (auto simp: exact_size_def)

lemma front_zero:
  "0 < n \<Longrightarrow> put_byte (replicate (n + k) 0) 0 v = Some ((v # replicate (n - 1) 0) @ replicate k 0)"
  by (cases n) (simp_all add: put_byte_def replicate_add)

lemma three_zeros: "replicate 3 (0 :: u8) = [0, 0, 0]"
  by (simp add: numeral_3_eq_3)

section \<open>The client handshake\<close>

definition client_handshake_bytes :: "ClientHandshake \<Rightarrow> bytes" where
  "client_handshake_bytes h =
     [kHandshakeSchema, 0, 0, 0] @ ch_nonce h @ ch_x25519_public h @ ch_mlkem_public h"

lemma EncodeClientHandshake_eq:
  assumes "client_handshake_valid h"
  shows "EncodeClientHandshake h = Some (client_handshake_bytes h)"
proof -
  have "put_byte (replicate kClientHandshakeBytes 0) 0 kHandshakeSchema
      = Some ([kHandshakeSchema, 0, 0, 0] @ replicate 1632 0)"
    using front_zero [of 4 1632 kHandshakeSchema] by (simp add: circuit_sizes three_zeros)
  with assms show ?thesis
    by (simp add: EncodeClientHandshake_def client_handshake_bytes_def client_handshake_valid_def
        circuit_sizes wire Let_def del: append_assoc append.simps)
qed

lemma DecodeClientHandshake_eq:
  "\<exists>e n. DecodeClientHandshake bs =
     Some (if length bs = 1636 \<and> take 4 bs = [kHandshakeSchema, 0, 0, 0]
           then Success \<lparr>ch_nonce = take 32 (drop 4 bs), ch_x25519_public = take 32 (drop 36 bs),
                         ch_mlkem_public = take 1568 (drop 68 bs)\<rparr>
           else Failure e n)"
proof (cases "length bs = 1636")
  case True
  then obtain e n where "handshake_prefix bs 0 =
      Some (if take 4 bs = [kHandshakeSchema, 0, 0, 0] then Success () else Failure e n)"
    using handshake_prefix_eq [of 0 bs] by auto
  with True show ?thesis
    by (auto simp: DecodeClientHandshake_def circuit_sizes exact_size_def Let_def)
qed (auto simp: DecodeClientHandshake_def circuit_sizes exact_size_def)

lemma DecodeClientHandshake_iff:
  "DecodeClientHandshake bs = Some (Success h) \<longleftrightarrow>
     client_handshake_valid h \<and> bs = client_handshake_bytes h"
proof -
  obtain e n where run: "DecodeClientHandshake bs =
     Some (if length bs = 1636 \<and> take 4 bs = [kHandshakeSchema, 0, 0, 0]
           then Success \<lparr>ch_nonce = take 32 (drop 4 bs), ch_x25519_public = take 32 (drop 36 bs),
                         ch_mlkem_public = take 1568 (drop 68 bs)\<rparr> else Failure e n)"
    using DecodeClientHandshake_eq by blast
  have "bs = take 4 bs @ take 32 (drop 4 bs) @ take 32 (drop 36 bs) @ take 1568 (drop 68 bs)"
    if "length bs = 1636"
  proof -
    have "bs = take (4 + (32 + (32 + 1568))) bs" using that by simp
    then show ?thesis unfolding take_add by simp
  qed
  then show ?thesis
    by (cases h) (auto simp: run client_handshake_valid_def client_handshake_bytes_def circuit_sizes)
qed

definition encode_client_handshake :: "ClientHandshake \<Rightarrow> bytes CResult option" where
  "encode_client_handshake h = map_option Success (EncodeClientHandshake h)"

interpretation client_handshake:
  exact_codec encode_client_handshake DecodeClientHandshake client_handshake_valid
proof
  fix bs :: bytes
  show "DecodeClientHandshake bs \<noteq> None" using DecodeClientHandshake_eq [of bs] by auto
qed (auto simp: encode_client_handshake_def EncodeClientHandshake_eq DecodeClientHandshake_iff)

section \<open>The hop handshake\<close>

definition hop_handshake_bytes :: "HopHandshake \<Rightarrow> bytes" where
  "hop_handshake_bytes h = [kHandshakeSchema, 0, 0, 0] @ hh_x25519_public h @ hh_mlkem_ciphertext h
     @ hh_confirmation h @ hh_signature h"

lemma EncodeHopHandshake_eq:
  assumes "hop_handshake_valid h"
  shows "EncodeHopHandshake h = Some (hop_handshake_bytes h)"
proof -
  have "put_byte (replicate kHopHandshakeBytes 0) 0 kHandshakeSchema
      = Some ([kHandshakeSchema, 0, 0, 0] @ replicate 6323 0)"
    using front_zero [of 4 6323 kHandshakeSchema] by (simp add: circuit_sizes three_zeros)
  with assms show ?thesis
    by (simp add: EncodeHopHandshake_def hop_handshake_bytes_def hop_handshake_valid_def
        circuit_sizes wire Let_def del: append_assoc append.simps)
qed

lemma DecodeHopHandshake_eq:
  "\<exists>e n. DecodeHopHandshake bs =
     Some (if length bs = 6327 \<and> take 4 bs = [kHandshakeSchema, 0, 0, 0]
           then Success \<lparr>hh_x25519_public = take 32 (drop 4 bs), hh_mlkem_ciphertext = take 1568 (drop 36 bs),
                         hh_confirmation = take 32 (drop 1604 bs), hh_signature = take 4691 (drop 1636 bs)\<rparr>
           else Failure e n)"
proof (cases "length bs = 6327")
  case True
  then obtain e n where "handshake_prefix bs 0 =
      Some (if take 4 bs = [kHandshakeSchema, 0, 0, 0] then Success () else Failure e n)"
    using handshake_prefix_eq [of 0 bs] by auto
  with True show ?thesis
    by (auto simp: DecodeHopHandshake_def circuit_sizes exact_size_def Let_def)
qed (auto simp: DecodeHopHandshake_def circuit_sizes exact_size_def)

lemma DecodeHopHandshake_iff:
  "DecodeHopHandshake bs = Some (Success h) \<longleftrightarrow> hop_handshake_valid h \<and> bs = hop_handshake_bytes h"
proof -
  obtain e n where run: "DecodeHopHandshake bs =
     Some (if length bs = 6327 \<and> take 4 bs = [kHandshakeSchema, 0, 0, 0]
           then Success \<lparr>hh_x25519_public = take 32 (drop 4 bs), hh_mlkem_ciphertext = take 1568 (drop 36 bs),
                         hh_confirmation = take 32 (drop 1604 bs), hh_signature = take 4691 (drop 1636 bs)\<rparr>
           else Failure e n)"
    using DecodeHopHandshake_eq by blast
  have "bs = take 4 bs @ take 32 (drop 4 bs) @ take 1568 (drop 36 bs) @ take 32 (drop 1604 bs)
      @ take 4691 (drop 1636 bs)"
    if "length bs = 6327"
  proof -
    have "bs = take (4 + (32 + (1568 + (32 + 4691)))) bs" using that by simp
    then show ?thesis unfolding take_add by simp
  qed
  then show ?thesis
    by (cases h) (auto simp: run hop_handshake_valid_def hop_handshake_bytes_def circuit_sizes)
qed

definition encode_hop_handshake :: "HopHandshake \<Rightarrow> bytes CResult option" where
  "encode_hop_handshake h = map_option Success (EncodeHopHandshake h)"

interpretation hop_handshake: exact_codec encode_hop_handshake DecodeHopHandshake hop_handshake_valid
proof
  fix bs :: bytes
  show "DecodeHopHandshake bs \<noteq> None" using DecodeHopHandshake_eq [of bs] by auto
qed (auto simp: encode_hop_handshake_def EncodeHopHandshake_eq DecodeHopHandshake_iff)

section \<open>CREATE and EXTEND\<close>

definition prefixed :: "bytes \<Rightarrow> bool" where
  "prefixed handshake \<longleftrightarrow> take 4 handshake = [kHandshakeSchema, 0, 0, 0]"

text \<open>The value a caller can pass: the handshake span has its fixed extent.\<close>

definition create_valid :: "CreateView \<Rightarrow> bool" where
  "create_valid c \<longleftrightarrow> length (cr_client_handshake c) = 1636"

definition create_ok :: "CreateView \<Rightarrow> bool" where
  "create_ok c \<longleftrightarrow> 1 \<le> cr_depth c \<and> cr_depth c \<le> 3 \<and> prefixed (cr_client_handshake c)"

definition create_bytes :: "CreateView \<Rightarrow> bytes" where
  "create_bytes c = [cr_depth c, 0] @ cr_client_handshake c"

definition encode_create :: "CreateView \<Rightarrow> bytes CResult option" where
  "encode_create c = EncodeCreate (cr_depth c) (cr_client_handshake c)"

lemma depth_range: "(depth :: u8) < 1 \<or> unat depth > kMaxHops \<longleftrightarrow> \<not> (1 \<le> depth \<and> depth \<le> 3)"
  by (auto simp: kMaxHops_def word_le_nat_alt word_less_nat_alt)

lemma EncodeCreate_eq:
  assumes "create_valid c"
  shows "\<exists>e n. encode_create c = Some (if create_ok c then Success (create_bytes c) else Failure e n)"
proof -
  have len: "length (cr_client_handshake c) = 1636" using assms by (simp add: create_valid_def)
  then obtain e n where prefix: "handshake_prefix (cr_client_handshake c) 0 =
      Some (if prefixed (cr_client_handshake c) then Success () else Failure e n)"
    using handshake_prefix_eq [of 0 "cr_client_handshake c"] by (auto simp: prefixed_def)
  have "put_byte (replicate kCreateBodyBytes 0) 0 d = Some ([d, 0] @ replicate 1636 0)" for d
    using front_zero [of 2 1636 d] by (simp add: circuit_sizes)
  then show ?thesis
    using prefix len unfolding encode_create_def EncodeCreate_def depth_range
    by (auto simp: create_ok_def create_bytes_def wire simp del: append_assoc append.simps)
qed

lemma DecodeCreate_eq:
  "\<exists>e n. DecodeCreate body = Some
     (if length body = 1638 \<and> 1 \<le> body ! 0 \<and> body ! 0 \<le> 3 \<and> body ! 1 = 0 \<and> prefixed (drop 2 body)
      then Success \<lparr>cr_depth = body ! 0, cr_client_handshake = drop 2 body\<rparr> else Failure e n)"
proof (cases "length body = 1638")
  case True
  then obtain e n where prefix: "handshake_prefix body 2 =
      Some (if prefixed (drop 2 body) then Success () else Failure e n)"
    using handshake_prefix_eq [of 2 body] by (auto simp: prefixed_def)
  have "body \<noteq> []" using True by auto
  with True prefix show ?thesis
    unfolding DecodeCreate_def depth_range by (auto simp: circuit_sizes exact_size_def)
qed (auto simp: DecodeCreate_def circuit_sizes exact_size_def)

lemma DecodeCreate_iff:
  "DecodeCreate body = Some (Success c) \<longleftrightarrow> create_valid c \<and> create_ok c \<and> body = create_bytes c"
proof -
  obtain e n where run: "DecodeCreate body = Some
     (if length body = 1638 \<and> 1 \<le> body ! 0 \<and> body ! 0 \<le> 3 \<and> body ! 1 = 0 \<and> prefixed (drop 2 body)
      then Success \<lparr>cr_depth = body ! 0, cr_client_handshake = drop 2 body\<rparr> else Failure e n)"
    using DecodeCreate_eq by blast
  have "body = [body ! 0, body ! 1] @ drop 2 body" if "length body = 1638"
    using that by (cases body rule: list.exhaust; cases "tl body") (auto simp: nth_Cons')
  then show ?thesis
    by (cases c) (auto simp: run create_valid_def create_ok_def create_bytes_def)
qed

interpretation create: exact_codec encode_create DecodeCreate create_valid
proof
  fix c bs
  show "encode_create c \<noteq> None" if "create_valid c" using EncodeCreate_eq [OF that] by auto
  show "DecodeCreate bs \<noteq> None" using DecodeCreate_eq [of bs] by auto
  show "DecodeCreate bs = Some (Success c)" if "create_valid c" "encode_create c = Some (Success bs)"
    using EncodeCreate_eq [OF that(1)] that by (auto simp: DecodeCreate_iff split: if_splits)
  show "encode_create c = Some (Success bs)" "create_valid c" if "DecodeCreate bs = Some (Success c)"
    using that EncodeCreate_eq [of c] by (auto simp: DecodeCreate_iff)
qed

text \<open>EXTEND: the encoder writes any handshake of the right size, the decoder checks its prefix.\<close>

definition extend_valid :: "ExtendView \<Rightarrow> bool" where
  "extend_valid x \<longleftrightarrow> length (ex_next_identity x) = 32 \<and> length (ex_client_handshake x) = 1636 \<and>
     prefixed (ex_client_handshake x)"

definition encode_extend :: "ExtendView \<Rightarrow> bytes CResult option" where
  "encode_extend x = map_option Success (EncodeExtendPayload (ex_next_identity x) (ex_client_handshake x))"

lemma EncodeExtendPayload_eq:
  "length i = 32 \<Longrightarrow> length h = 1636 \<Longrightarrow> EncodeExtendPayload i h = Some (i @ h)"
  by (simp add: EncodeExtendPayload_def circuit_sizes wire del: append_assoc append.simps)

lemma DecodeExtendPayload_eq:
  "\<exists>e n. DecodeExtendPayload bs = Some
     (if length bs = 1668 \<and> prefixed (drop 32 bs)
      then Success \<lparr>ex_next_identity = take 32 bs, ex_client_handshake = drop 32 bs\<rparr> else Failure e n)"
proof (cases "length bs = 1668")
  case True
  then obtain e n where prefix: "handshake_prefix bs 32 =
      Some (if prefixed (drop 32 bs) then Success () else Failure e n)"
    using handshake_prefix_eq [of 32 bs] by (auto simp: prefixed_def)
  with True show ?thesis by (auto simp: DecodeExtendPayload_def circuit_sizes exact_size_def)
qed (auto simp: DecodeExtendPayload_def circuit_sizes exact_size_def)

lemma DecodeExtendPayload_iff:
  "DecodeExtendPayload bs = Some (Success x) \<longleftrightarrow>
     extend_valid x \<and> bs = ex_next_identity x @ ex_client_handshake x"
proof -
  obtain e n where run: "DecodeExtendPayload bs = Some
     (if length bs = 1668 \<and> prefixed (drop 32 bs)
      then Success \<lparr>ex_next_identity = take 32 bs, ex_client_handshake = drop 32 bs\<rparr> else Failure e n)"
    using DecodeExtendPayload_eq by blast
  show ?thesis by (cases x) (auto simp: run extend_valid_def)
qed

interpretation extend: exact_codec encode_extend DecodeExtendPayload extend_valid
proof
  fix bs show "DecodeExtendPayload bs \<noteq> None" using DecodeExtendPayload_eq [of bs] by auto
qed (auto simp: encode_extend_def EncodeExtendPayload_eq DecodeExtendPayload_iff extend_valid_def)

section \<open>Properties\<close>

text \<open>C40: both handshakes decode exactly from what their encoders write: fixed size, schema 1,
  zero reserved bytes, then the fields in order.\<close>

theorem handshakes_exact:
  "(DecodeClientHandshake bs = Some (Success c) \<longleftrightarrow>
      client_handshake_valid c \<and> EncodeClientHandshake c = Some bs) \<and>
   (DecodeHopHandshake bs = Some (Success h) \<longleftrightarrow>
      hop_handshake_valid h \<and> EncodeHopHandshake h = Some bs) \<and>
   DecodeClientHandshake bs \<noteq> None \<and> DecodeHopHandshake bs \<noteq> None"
  using client_handshake.exact_iff [of bs c] hop_handshake.exact_iff [of bs h]
    client_handshake.decode_in_bounds [of bs] hop_handshake.decode_in_bounds [of bs]
  by (auto simp: encode_client_handshake_def encode_hop_handshake_def)

text \<open>C39: a CREATE body decodes exactly from what the encoder writes, for a depth from 1 to 3; an
  EXTEND payload decodes exactly when it is an identity followed by a client handshake with a
  correct prefix, although the encoder writes any handshake it is given.\<close>

theorem create_and_extend_exact:
  "(DecodeCreate bs = Some (Success c) \<longleftrightarrow>
      length (cr_client_handshake c) = 1636 \<and>
      EncodeCreate (cr_depth c) (cr_client_handshake c) = Some (Success bs)) \<and>
   (DecodeExtendPayload bs = Some (Success x) \<longleftrightarrow>
      length (ex_next_identity x) = 32 \<and> length (ex_client_handshake x) = 1636 \<and>
      take 4 (ex_client_handshake x) = [kHandshakeSchema, 0, 0, 0] \<and>
      EncodeExtendPayload (ex_next_identity x) (ex_client_handshake x) = Some bs) \<and>
   DecodeCreate bs \<noteq> None \<and> DecodeExtendPayload bs \<noteq> None"
  using create.exact_iff [of bs c] extend.exact_iff [of bs x]
    create.decode_in_bounds [of bs] extend.decode_in_bounds [of bs]
  by (auto simp: encode_create_def encode_extend_def create_valid_def extend_valid_def prefixed_def)

end
