(* ===== verification/Circuit_Relay.thy ===== *)
theory Circuit_Relay
  imports Circuit_Handshake Ytp_Open
begin

text \<open>
  The relay messages of Circuit 1 (\<^verbatim>\<open>src/src/circuit/protocol.cpp\<close>): the plaintext under the last
  encryption layer, padded to the relay capacity of its cell, and the BEGIN payload, which
  carries a YTP/1 destination.
\<close>

section \<open>Data\<close>

definition kMaxCreditIncrement_circuit :: u32 where "kMaxCreditIncrement_circuit = push_bit 30 1"

datatype RelayType =
    RL_Begin | RL_Data | RL_End | RL_StreamCredit | RL_Extend | RL_Connected | RL_Extended
  | RL_ExtendFailed | RL_CircuitFailed | RL_other u8

definition RelayType_of_u8 :: "u8 \<Rightarrow> RelayType" where
  "RelayType_of_u8 v =
     (if v = 1 then RL_Begin else if v = 2 then RL_Data else if v = 3 then RL_End
      else if v = 4 then RL_StreamCredit else if v = 5 then RL_Extend else if v = 6 then RL_Connected
      else if v = 7 then RL_Extended else if v = 8 then RL_ExtendFailed
      else if v = 9 then RL_CircuitFailed else RL_other v)"

fun u8_of_RelayType :: "RelayType \<Rightarrow> u8" where
  "u8_of_RelayType RL_Begin = 1"
| "u8_of_RelayType RL_Data = 2"
| "u8_of_RelayType RL_End = 3"
| "u8_of_RelayType RL_StreamCredit = 4"
| "u8_of_RelayType RL_Extend = 5"
| "u8_of_RelayType RL_Connected = 6"
| "u8_of_RelayType RL_Extended = 7"
| "u8_of_RelayType RL_ExtendFailed = 8"
| "u8_of_RelayType RL_CircuitFailed = 9"
| "u8_of_RelayType (RL_other v) = v"

text \<open>The first and last enumerators of the reasons, which the code compares with.\<close>

definition CircuitReason_Unreachable :: u8 where "CircuitReason_Unreachable = 1"
definition CircuitReason_Closing :: u8 where "CircuitReason_Closing = 6"
definition StreamReason_Closed :: u8 where "StreamReason_Closed = 8"

record RelayMessageView =
  rm_type :: RelayType
  rm_stream :: u32
  rm_payload :: bytes

definition kMaxBeginPayload :: nat where
  "kMaxBeginPayload = 1 + 2 + 1 + kMaxDnsNameBytes"

section \<open>Operations\<close>

definition is_known_relay_type :: "u8 \<Rightarrow> bool" where
  "is_known_relay_type v \<longleftrightarrow> v \<ge> u8_of_RelayType RL_Begin \<and> v \<le> u8_of_RelayType RL_CircuitFailed"

definition is_known_circuit_reason :: "u8 \<Rightarrow> bool" where
  "is_known_circuit_reason v \<longleftrightarrow> v \<ge> CircuitReason_Unreachable \<and> v \<le> CircuitReason_Closing"

definition is_known_stream_reason :: "u8 \<Rightarrow> bool" where
  "is_known_stream_reason v \<longleftrightarrow> v \<le> StreamReason_Closed"

fun allowed_in :: "RelayType \<Rightarrow> Direction \<Rightarrow> bool" where
  "allowed_in RL_Begin direction = (direction = Forward)"
| "allowed_in RL_Extend direction = (direction = Forward)"
| "allowed_in RL_Connected direction = (direction = Backward)"
| "allowed_in RL_Extended direction = (direction = Backward)"
| "allowed_in RL_ExtendFailed direction = (direction = Backward)"
| "allowed_in RL_CircuitFailed direction = (direction = Backward)"
| "allowed_in RL_Data direction = (direction = Forward \<or> direction = Backward)"
| "allowed_in RL_End direction = (direction = Forward \<or> direction = Backward)"
| "allowed_in RL_StreamCredit direction = (direction = Forward \<or> direction = Backward)"
| "allowed_in (RL_other v) direction = False"

fun is_stream_message :: "RelayType \<Rightarrow> bool" where
  "is_stream_message RL_Begin = True"
| "is_stream_message RL_Data = True"
| "is_stream_message RL_End = True"
| "is_stream_message RL_StreamCredit = True"
| "is_stream_message RL_Connected = True"
| "is_stream_message _ = False"

text \<open>\<^verbatim>\<open>std::any_of\<close> over the buckets of the direction.\<close>

primrec any_capacity :: "Direction \<Rightarrow> nat \<Rightarrow> nat list \<Rightarrow> bool option" where
  "any_capacity direction n [] = Some False"
| "any_capacity direction n (bucket # buckets) = do {
     capacity \<leftarrow> RelayCapacity direction bucket;
     if capacity = n then Some True else any_capacity direction n buckets
   }"

definition is_relay_capacity :: "Direction \<Rightarrow> nat \<Rightarrow> bool option" where
  "is_relay_capacity direction n =
     (if \<not> is_known_direction direction then Some False
      else any_capacity direction n (buckets_of direction))"

definition size_is :: "bytes \<Rightarrow> nat \<Rightarrow> CStatus" where
  "size_is payload expected =
     (if length payload = expected then Success () else Failure C_InvalidLength 2)"

definition check_payload :: "RelayType \<Rightarrow> bytes \<Rightarrow> CStatus option" where
  "check_payload type payload =
     (case type of
        RL_Begin \<Rightarrow>
          if length payload > kMaxBeginPayload \<or> length payload < 3 then Some (Failure C_InvalidLength 2)
          else do {
            kind \<leftarrow> byte_at payload 0;
            Some (if kind = u8_of_AddressKind AK_Ipv4
                  then (if length payload < 1 + 2 + 4 then Failure C_InvalidLength 2 else Success ())
                  else if kind = u8_of_AddressKind AK_Ipv6
                  then (if length payload < 1 + 2 + 16 then Failure C_InvalidLength 2 else Success ())
                  else if kind = u8_of_AddressKind AK_Dns
                  then (if length payload < 1 + 2 + 1 + 1 then Failure C_InvalidLength 2 else Success ())
                  else Success ())
          }
      | RL_Data \<Rightarrow> Some (if payload = [] then Failure C_InvalidLength 2 else Success ())
      | RL_End \<Rightarrow>
          (case size_is payload 1 of
             Failure e n \<Rightarrow> Some (Failure e n)
           | Success _ \<Rightarrow> do {
               reason \<leftarrow> byte_at payload 0;
               Some (if is_known_stream_reason reason then Success ()
                     else Failure C_InvalidReason kRelayHeaderBytes)
             })
      | RL_StreamCredit \<Rightarrow>
          (case size_is payload 4 of
             Failure e n \<Rightarrow> Some (Failure e n)
           | Success _ \<Rightarrow> do {
               increment \<leftarrow> read_u32 payload 0;
               Some (if increment \<ge> 1 \<and> increment \<le> kMaxCreditIncrement_circuit then Success ()
                     else Failure C_InvalidCredit kRelayHeaderBytes)
             })
      | RL_Extend \<Rightarrow> Some (size_is payload kExtendPayloadBytes)
      | RL_Connected \<Rightarrow> Some (size_is payload 0)
      | RL_Extended \<Rightarrow> Some (size_is payload kHopHandshakeBytes)
      | RL_other v \<Rightarrow> Some (Failure C_InvalidType 0)
      | _ \<Rightarrow>
          (case size_is payload 1 of
             Failure e n \<Rightarrow> Some (Failure e n)
           | Success _ \<Rightarrow> do {
               reason \<leftarrow> byte_at payload 0;
               Some (if is_known_circuit_reason reason then Success ()
                     else Failure C_InvalidReason kRelayHeaderBytes)
             }))"

definition DecodeRelayMessage :: "Direction \<Rightarrow> bytes \<Rightarrow> RelayMessageView CResult option" where
  "DecodeRelayMessage direction plaintext =
     (if \<not> is_known_direction direction then Some (Failure C_WrongDirection 0)
      else do {
        fits \<leftarrow> is_relay_capacity direction (length plaintext);
        if \<not> fits then Some (Failure C_InvalidLength 0)
        else do {
          raw_type \<leftarrow> byte_at plaintext 0;
          if \<not> is_known_relay_type raw_type then Some (Failure C_InvalidType 0)
          else do {
            let type = RelayType_of_u8 raw_type;
            if \<not> allowed_in type direction then Some (Failure C_WrongDirection 0)
            else do {
              reserved \<leftarrow> byte_at plaintext 1;
              if reserved \<noteq> 0 then Some (Failure C_NonzeroReserved 1)
              else do {
                raw_length \<leftarrow> read_u16 plaintext 2;
                room \<leftarrow> size_sub (length plaintext) kRelayHeaderBytes;
                if unat raw_length > room then Some (Failure C_InvalidLength 2)
                else do {
                  stream \<leftarrow> read_u32 plaintext 4;
                  if (stream \<noteq> 0) \<noteq> is_stream_message type then Some (Failure C_InvalidStream 4)
                  else do {
                    payload \<leftarrow> subspan plaintext kRelayHeaderBytes (unat raw_length);
                    rule \<leftarrow> check_payload type payload;
                    case rule of
                      Failure e n \<Rightarrow> Some (Failure e n)
                    | Success _ \<Rightarrow> do {
                        nonzero \<leftarrow> first_nonzero plaintext (kRelayHeaderBytes + unat raw_length);
                        case nonzero of
                          Some at \<Rightarrow> Some (Failure C_NonzeroFiller at)
                        | None \<Rightarrow> Some (Success \<lparr>rm_type = type, rm_stream = stream, rm_payload = payload\<rparr>)
                      }
                  }
                }
              }
            }
          }
        }
      })"

definition EncodeRelayMessage ::
  "Direction \<Rightarrow> RelayType \<Rightarrow> u32 \<Rightarrow> bytes \<Rightarrow> bytes \<Rightarrow> (CStatus \<times> bytes) option" where
  "EncodeRelayMessage direction type stream payload output = do {
     fits \<leftarrow> is_relay_capacity direction (length output);
     if \<not> fits then Some (Failure C_OutputTooSmall 0, output)
     else if \<not> is_known_relay_type (u8_of_RelayType type) then Some (Failure C_InvalidType 0, output)
     else if \<not> allowed_in type direction then Some (Failure C_WrongDirection 0, output)
     else do {
       room \<leftarrow> size_sub (length output) kRelayHeaderBytes;
       if length payload > room then Some (Failure C_InvalidLength 2, output)
       else if (stream \<noteq> 0) \<noteq> is_stream_message type then Some (Failure C_InvalidStream 4, output)
       else do {
         rule \<leftarrow> check_payload type payload;
         case rule of
           Failure e n \<Rightarrow> Some (Failure e n, output)
         | Success _ \<Rightarrow> do {
             output \<leftarrow> put_byte output 0 (u8_of_RelayType type);
             output \<leftarrow> put_byte output 1 0;
             output \<leftarrow> write_u16 output 2 (of_nat (length payload));
             output \<leftarrow> write_u32 output 4 stream;
             output \<leftarrow> copy_to output kRelayHeaderBytes payload;
             output \<leftarrow> fill_zero output (kRelayHeaderBytes + length payload);
             Some (Success (), output)
           }
       }
     }
   }"

definition EncodeBeginPayload :: "Destination \<Rightarrow> bytes CResult option" where
  "EncodeBeginPayload d =
     (if d_address_kind d = AK_None then Some (Failure C_InvalidDestination 0)
      else do {
        validated \<leftarrow> ValidateDestination SK_ByteStream d;
        case validated of
          Failure e n \<Rightarrow> Some (Failure C_InvalidDestination 0)
        | Success _ \<Rightarrow> do {
            let output = [u8_of_AddressKind (d_address_kind d)];
            let output = output @ [ucast (drop_bit 8 (d_port d))];
            let output = output @ [ucast (d_port d)];
            case d_address_kind d of
              AK_Dns \<Rightarrow>
                let output = output @ [of_nat (length (d_dns_name d))]
                in Some (Success (output @ d_dns_name d))
            | AK_None \<Rightarrow> Some (Success output)
            | AK_other _ \<Rightarrow> Some (Success output)
            | _ \<Rightarrow> do {
                address \<leftarrow> subspan (d_address d) 0 (unat (d_address_length d));
                Some (Success (output @ address))
              }
          }
      })"

definition validated_destination :: "Destination \<Rightarrow> Destination CResult option" where
  "validated_destination d = do {
     validated \<leftarrow> ValidateDestination SK_ByteStream d;
     case validated of
       Failure e n \<Rightarrow> Some (Failure C_InvalidDestination 0)
     | Success _ \<Rightarrow> Some (Success d)
   }"

definition DecodeBeginPayload :: "bytes \<Rightarrow> Destination CResult option" where
  "DecodeBeginPayload payload =
     (if length payload < 3 then Some (Failure C_Truncated (length payload))
      else do {
        port \<leftarrow> read_u16 payload 1;
        let d = default_Destination\<lparr>d_transport := TP_Tcp, d_port := port\<rparr>;
        rest \<leftarrow> subspan payload 3 (length payload - 3);
        kind \<leftarrow> byte_at payload 0;
        if kind = u8_of_AddressKind AK_Ipv4 \<or> kind = u8_of_AddressKind AK_Ipv6 then
          let n = (if kind = u8_of_AddressKind AK_Ipv4 then 4 else 16) in
          case exact_size rest n of
            Failure e k \<Rightarrow> Some (Failure e (k + 3))
          | Success _ \<Rightarrow> do {
              address \<leftarrow> copy_to (d_address d) 0 rest;
              validated_destination (d\<lparr>d_address_kind := AddressKind_of_u8 kind,
                d_address_length := of_nat n, d_address := address\<rparr>)
            }
        else if kind = u8_of_AddressKind AK_Dns then
          (if rest = [] then Some (Failure C_Truncated 3)
           else do {
             name \<leftarrow> subspan rest 1 (length rest - 1);
             name_length \<leftarrow> byte_at rest 0;
             case exact_size name (unat name_length) of
               Failure e k \<Rightarrow> Some (Failure e (k + 4))
             | Success _ \<Rightarrow>
                 validated_destination (d\<lparr>d_address_kind := AK_Dns, d_dns_name := name\<rparr>)
           })
        else Some (Failure C_InvalidDestination 0)
      })"

section \<open>Relay messages\<close>

definition relay_capacity :: "Direction \<Rightarrow> nat \<Rightarrow> bool" where
  "relay_capacity direction n \<longleftrightarrow> is_known_direction direction \<and>
     (n = 460 \<or> n = 4044 \<or> n = (if direction = Forward then 16259 else 16263))"

lemma is_relay_capacity_eq: "is_relay_capacity direction n = Some (relay_capacity direction n)"
proof (cases "is_known_direction direction")
  case True
  have "any_capacity direction n bs = Some (n \<in> (\<lambda>b. b - 52) ` set bs)"
    if "\<forall>b \<in> set bs. IsBucket direction b" for bs
    using that by (induction bs) (auto simp: RelayCapacity_bucket)
  then have "is_relay_capacity direction n = Some (n \<in> (\<lambda>b. b - 52) ` set (buckets_of direction))"
    using True by (simp add: is_relay_capacity_def IsBucket_buckets_of)
  with True show ?thesis
    by (auto simp: relay_capacity_def is_known_direction_def buckets_of_def kForwardBuckets_def kBackwardBuckets_def)
qed (simp add: is_relay_capacity_def relay_capacity_def)

lemma relay_capacity_range: "relay_capacity direction n \<Longrightarrow> 460 \<le> n \<and> n \<le> 16263"
  by (auto simp: relay_capacity_def split: if_splits)

text \<open>The payloads each type allows.\<close>

definition payload_rule :: "RelayType \<Rightarrow> bytes \<Rightarrow> bool" where
  "payload_rule type p \<longleftrightarrow>
     (case type of
        RL_Begin \<Rightarrow> 3 \<le> length p \<and> length p \<le> 257 \<and> (hd p = 1 \<longrightarrow> 7 \<le> length p) \<and>
          (hd p = 2 \<longrightarrow> 19 \<le> length p) \<and> (hd p = 3 \<longrightarrow> 5 \<le> length p)
      | RL_Data \<Rightarrow> p \<noteq> []
      | RL_End \<Rightarrow> (\<exists>r. p = [r] \<and> r \<le> 8)
      | RL_StreamCredit \<Rightarrow> (\<exists>c. p = be32 c \<and> 1 \<le> c \<and> c \<le> kMaxCreditIncrement_circuit)
      | RL_Extend \<Rightarrow> length p = 1668
      | RL_Connected \<Rightarrow> p = []
      | RL_Extended \<Rightarrow> length p = 6327
      | RL_other v \<Rightarrow> False
      | _ \<Rightarrow> (\<exists>r. p = [r] \<and> 1 \<le> r \<and> r \<le> 6))"

lemma size_is_iff [simp]: "size_is p n = Success u \<longleftrightarrow> length p = n"
  by (simp add: size_is_def)

lemma credit_payload:
  "length p = 4 \<Longrightarrow> \<exists>c. p = be32 c \<and> read_u32_be p 0 = Some c"
proof -
  assume "length p = 4"
  then obtain b0 b1 b2 b3 where "p = [b0, b1, b2, b3]"
    by (auto simp: numeral_eq_Suc length_Suc_conv)
  then show ?thesis by (intro exI [of _ "of_be32 b0 b1 b2 b3"]) simp
qed

lemma reason_payload: "length p = 1 \<longleftrightarrow> (\<exists>r. p = [r])"
  by (auto simp: length_Suc_conv)

lemma check_payload_eq:
  "\<exists>e n. check_payload type p = Some (if payload_rule type p then Success () else Failure e n)"
proof (cases type)
  case RL_Begin
  then show ?thesis
    by (cases p) (auto simp: check_payload_def payload_rule_def kMaxBeginPayload_def kMaxDnsNameBytes_def)
next
  case RL_StreamCredit
  show ?thesis
  proof (cases "length p = 4")
    case True
    then obtain c where "p = be32 c" "read_u32_be p 0 = Some c" using credit_payload by blast
    then show ?thesis by (auto simp: check_payload_def payload_rule_def RL_StreamCredit size_is_def)
  next
    case False
    then have "p \<noteq> be32 c" for c by auto
    with False show ?thesis by (auto simp: check_payload_def payload_rule_def RL_StreamCredit size_is_def)
  qed
next
  case RL_End
  then show ?thesis
    by (cases "length p = 1")
       (auto simp: check_payload_def payload_rule_def size_is_def length_Suc_conv is_known_stream_reason_def
         StreamReason_Closed_def)
next
  case RL_ExtendFailed
  then show ?thesis
    by (cases "length p = 1")
       (auto simp: check_payload_def payload_rule_def size_is_def length_Suc_conv is_known_circuit_reason_def
         CircuitReason_Unreachable_def CircuitReason_Closing_def)
next
  case RL_CircuitFailed
  then show ?thesis
    by (cases "length p = 1")
       (auto simp: check_payload_def payload_rule_def size_is_def length_Suc_conv is_known_circuit_reason_def
         CircuitReason_Unreachable_def CircuitReason_Closing_def)
qed (auto simp: check_payload_def payload_rule_def size_is_def circuit_sizes)

definition relay_ok :: "Direction \<Rightarrow> nat \<Rightarrow> RelayMessageView \<Rightarrow> bool" where
  "relay_ok direction n m \<longleftrightarrow> relay_capacity direction n \<and> allowed_in (rm_type m) direction \<and>
     length (rm_payload m) + 8 \<le> n \<and> (rm_stream m \<noteq> 0 \<longleftrightarrow> is_stream_message (rm_type m)) \<and>
     payload_rule (rm_type m) (rm_payload m)"

definition relay_bytes :: "nat \<Rightarrow> RelayMessageView \<Rightarrow> bytes" where
  "relay_bytes n m = [u8_of_RelayType (rm_type m)] @ [0] @ be16 (of_nat (length (rm_payload m)))
     @ be32 (rm_stream m) @ rm_payload m @ replicate (n - 8 - length (rm_payload m)) 0"

lemma length_relay_bytes: "length (rm_payload m) + 8 \<le> n \<Longrightarrow> length (relay_bytes n m) = n"
  by (simp add: relay_bytes_def)

lemma allowed_known: "allowed_in type direction \<Longrightarrow> is_known_relay_type (u8_of_RelayType type)"
  by (cases type) (simp_all add: is_known_relay_type_def)

lemma relay_type_inverse:
  "allowed_in type direction \<Longrightarrow> RelayType_of_u8 (u8_of_RelayType type) = type"
  "u8_of_RelayType (RelayType_of_u8 v) = v"
  by (cases type) (simp_all add: RelayType_of_u8_def)

lemma EncodeRelayMessage_eq:
  "\<exists>e k. EncodeRelayMessage direction (rm_type m) (rm_stream m) (rm_payload m) output =
     Some (if relay_ok direction (length output) m then (Success (), relay_bytes (length output) m)
           else (Failure e k, output))"
proof (cases "relay_capacity direction (length output)")
  case True
  obtain e k where rule: "check_payload (rm_type m) (rm_payload m) =
      Some (if payload_rule (rm_type m) (rm_payload m) then Success () else Failure e k)"
    using check_payload_eq by blast
  have range: "460 \<le> length output" using relay_capacity_range True by blast
  show ?thesis
  proof (cases "relay_ok direction (length output) m")
    case ok: True
    then have parts: "allowed_in (rm_type m) direction" "length (rm_payload m) + 8 \<le> length output"
        "(rm_stream m \<noteq> 0) = is_stream_message (rm_type m)" "payload_rule (rm_type m) (rm_payload m)"
      by (auto simp: relay_ok_def)
    show ?thesis
      using True ok parts range rule allowed_known [OF parts(1)]
      by (simp add: EncodeRelayMessage_def is_relay_capacity_eq circuit_sizes wire relay_bytes_def
          del: append_assoc append.simps) (simp add: algebra_simps)
  next
    case False
    with True rule range show ?thesis
      by (auto simp: EncodeRelayMessage_def is_relay_capacity_eq relay_ok_def kRelayHeaderBytes_def)
  qed
qed (auto simp: EncodeRelayMessage_def is_relay_capacity_eq relay_ok_def)

lemma DecodeRelayMessage_eq:
  assumes "relay_capacity direction (length pt)" and p: "pt = b0 # b1 # b2 # b3 # b4 # b5 # b6 # b7 # rest"
    and m: "m = \<lparr>rm_type = RelayType_of_u8 b0, rm_stream = of_be32 b4 b5 b6 b7,
      rm_payload = take (unat (of_be16 b2 b3)) rest\<rparr>"
  shows "\<exists>e k. DecodeRelayMessage direction pt =
    Some (if relay_ok direction (length pt) m \<and> b1 = 0 \<and> unat (of_be16 b2 b3) \<le> length rest \<and>
             first_nonzero pt (8 + unat (of_be16 b2 b3)) = Some None
          then Success m else Failure e k)"
proof -
  let ?n = "unat (of_be16 b2 b3)"
  have at: "pt \<noteq> []" "1 < length pt" "8 \<le> length pt" "pt ! 0 = b0" "pt ! 1 = b1" "pt ! 2 = b2" "pt ! 3 = b3"
      "pt ! 4 = b4" "pt ! 5 = b5" "pt ! 6 = b6" "pt ! 7 = b7" "length pt - 8 = length rest" "drop 8 pt = rest"
    by (simp_all add: p)
  have known: "is_known_direction direction" using assms(1) by (simp add: relay_capacity_def)
  obtain e k where rule: "check_payload (rm_type m) (rm_payload m) =
      Some (if payload_rule (rm_type m) (rm_payload m) then Success () else Failure e k)"
    using check_payload_eq by blast
  have type: "allowed_in (rm_type m) direction \<Longrightarrow> is_known_relay_type b0"
    using allowed_known [of "rm_type m" direction] by (simp add: m relay_type_inverse)
  have "\<exists>f. first_nonzero pt (8 + ?n) = Some f" if "?n \<le> length rest"
    using first_nonzero_in_bounds [of "8 + ?n" pt] that at by simp
  then obtain f where filler: "?n \<le> length rest \<longrightarrow> first_nonzero pt (8 + ?n) = Some f" by blast
  show ?thesis
  proof (cases "is_known_relay_type b0 \<and> allowed_in (rm_type m) direction \<and> b1 = 0 \<and> ?n \<le> length rest \<and>
      (rm_stream m \<noteq> 0 \<longleftrightarrow> is_stream_message (rm_type m))")
    case True
    then have len: "length (rm_payload m) + 8 \<le> length pt" by (auto simp: m p)
    have sub: "subspan pt 8 ?n = Some (rm_payload m)" using True by (auto simp: m p subspan_def)
    have "DecodeRelayMessage direction pt = check_payload (rm_type m) (rm_payload m) \<bind>
        case_result (\<lambda>e n. Some (Failure e n)) (\<lambda>_. first_nonzero pt (8 + ?n) \<bind>
          case_option (Some (Success m)) (\<lambda>at. Some (Failure C_NonzeroFiller at)))"
      using True known assms(1) at sub
      by (simp add: DecodeRelayMessage_def is_relay_capacity_eq kRelayHeaderBytes_def m Let_def
          del: subspan_in) auto
    then show ?thesis
      using True assms(1) len rule filler by (cases f) (auto simp: relay_ok_def)
  next
    case False
    with known assms(1) at type show ?thesis
      by (auto simp: DecodeRelayMessage_def is_relay_capacity_eq kRelayHeaderBytes_def relay_ok_def m Let_def)
  qed
qed

lemma DecodeRelayMessage_refused:
  "\<not> relay_capacity direction (length pt) \<Longrightarrow> \<exists>e k. DecodeRelayMessage direction pt = Some (Failure e k)"
  by (simp add: DecodeRelayMessage_def is_relay_capacity_eq)

lemma relay_plaintext_split:
  assumes "relay_capacity direction (length pt)"
  obtains b0 b1 b2 b3 b4 b5 b6 b7 rest where "pt = b0 # b1 # b2 # b3 # b4 # b5 # b6 # b7 # rest"
proof -
  have "8 \<le> length pt" using relay_capacity_range [OF assms] by simp
  then show ?thesis by (rule list8E) (rule that)
qed

lemma DecodeRelayMessage_in_bounds: "DecodeRelayMessage direction pt \<noteq> None"
proof (cases "relay_capacity direction (length pt)")
  case True
  then obtain b0 b1 b2 b3 b4 b5 b6 b7 rest where "pt = b0 # b1 # b2 # b3 # b4 # b5 # b6 # b7 # rest"
    by (rule relay_plaintext_split)
  from DecodeRelayMessage_eq [OF True this refl] show ?thesis by auto
next
  case False
  then show ?thesis using DecodeRelayMessage_refused [OF False] by auto
qed

lemma DecodeRelayMessage_sound:
  assumes "DecodeRelayMessage direction pt = Some (Success m)"
  shows "relay_ok direction (length pt) m \<and> pt = relay_bytes (length pt) m"
proof -
  have cap: "relay_capacity direction (length pt)"
    using assms DecodeRelayMessage_refused [of direction pt] by fastforce
  then obtain b0 b1 b2 b3 b4 b5 b6 b7 rest where p: "pt = b0 # b1 # b2 # b3 # b4 # b5 # b6 # b7 # rest"
    by (rule relay_plaintext_split)
  let ?n = "unat (of_be16 b2 b3)"
  let ?m = "\<lparr>rm_type = RelayType_of_u8 b0, rm_stream = of_be32 b4 b5 b6 b7, rm_payload = take ?n rest\<rparr>"
  have ok: "relay_ok direction (length pt) ?m" "b1 = 0" "?n \<le> length rest"
      "first_nonzero pt (8 + ?n) = Some None" and m: "m = ?m"
    using DecodeRelayMessage_eq [OF cap p refl] assms by (auto split: if_splits)
  have "pt = take (8 + ?n) pt @ replicate (length pt - (8 + ?n)) 0"
    by (rule first_nonzero_None [THEN iffD1]) (use ok p in simp_all)
  also have "take (8 + ?n) pt = b0 # b1 # b2 # b3 # b4 # b5 # b6 # b7 # take ?n rest"
    by (simp add: p eval_nat_numeral)
  also have "(b0 # b1 # b2 # b3 # b4 # b5 # b6 # b7 # take ?n rest) @ replicate (length pt - (8 + ?n)) 0
      = relay_bytes (length pt) m"
    using ok(2,3) by (simp add: relay_bytes_def m relay_type_inverse)
  finally show ?thesis using ok(1) m by simp
qed

lemma DecodeRelayMessage_complete:
  assumes ok: "relay_ok direction n m"
  shows "DecodeRelayMessage direction (relay_bytes n m) = Some (Success m)"
proof -
  let ?pt = "relay_bytes n m" and ?len = "length (rm_payload m)"
  have fits: "?len + 8 \<le> n" "relay_capacity direction n" "allowed_in (rm_type m) direction"
    using ok by (simp_all add: relay_ok_def)
  then have len: "length ?pt = n" "n \<le> 16263"
    using length_relay_bytes relay_capacity_range by blast+
  obtain b2 b3 where b: "be16 (of_nat ?len) = [b2, b3]" "of_be16 b2 b3 = of_nat ?len"
    using be16_def of_be16_be16 by blast
  obtain b4 b5 b6 b7 where s: "be32 (rm_stream m) = [b4, b5, b6, b7]" "of_be32 b4 b5 b6 b7 = rm_stream m"
    using be32_def of_be32_be32 by blast
  let ?rest = "rm_payload m @ replicate (n - 8 - ?len) 0"
  have p: "?pt = u8_of_RelayType (rm_type m) # 0 # b2 # b3 # b4 # b5 # b6 # b7 # ?rest"
    by (simp add: relay_bytes_def b s)
  have count: "unat (of_be16 b2 b3) = ?len" using fits len by (simp add: b unat_of_size16)
  have m: "m = \<lparr>rm_type = RelayType_of_u8 (u8_of_RelayType (rm_type m)), rm_stream = of_be32 b4 b5 b6 b7,
      rm_payload = take (unat (of_be16 b2 b3)) ?rest\<rparr>"
    by (simp add: count s relay_type_inverse(1) [OF fits(3)])
  have "take (8 + ?len) ?pt = u8_of_RelayType (rm_type m) # 0 # b2 # b3 # b4 # b5 # b6 # b7 # rm_payload m"
    by (simp add: p eval_nat_numeral)
  then have "first_nonzero ?pt (8 + ?len) = Some None"
    by (intro first_nonzero_None [THEN iffD2]) (use fits len p in simp_all)
  moreover have "relay_capacity direction (length ?pt)" using fits len by simp
  ultimately show ?thesis
    using DecodeRelayMessage_eq [OF _ p m, of direction] fits ok by (auto simp: count len)
qed

text \<open>A message together with the size it is padded to, as both sides of the codec see it.\<close>

definition encode_relay :: "Direction \<Rightarrow> nat \<times> RelayMessageView \<Rightarrow> bytes CResult option" where
  "encode_relay direction = (\<lambda>(n, m). do {
     (status, output) \<leftarrow> EncodeRelayMessage direction (rm_type m) (rm_stream m) (rm_payload m) (replicate n 0);
     case status of Failure e k \<Rightarrow> Some (Failure e k) | Success _ \<Rightarrow> Some (Success output)
   })"

definition decode_relay :: "Direction \<Rightarrow> bytes \<Rightarrow> (nat \<times> RelayMessageView) CResult option" where
  "decode_relay direction pt = do {
     decoded \<leftarrow> DecodeRelayMessage direction pt;
     case decoded of Failure e k \<Rightarrow> Some (Failure e k) | Success m \<Rightarrow> Some (Success (length pt, m))
   }"

lemma encode_relay_eq:
  "\<exists>e k. encode_relay direction (n, m) =
     Some (if relay_ok direction n m then Success (relay_bytes n m) else Failure e k)"
  using EncodeRelayMessage_eq [of direction m "replicate n 0"] by (auto simp: encode_relay_def)

lemma decode_relay_iff:
  "decode_relay direction pt = Some (Success (n, m)) \<longleftrightarrow>
     relay_ok direction n m \<and> pt = relay_bytes n m"
proof
  assume "decode_relay direction pt = Some (Success (n, m))"
  then have "DecodeRelayMessage direction pt = Some (Success m)" "n = length pt"
    by (auto simp: decode_relay_def bind_eq_Some_conv)
  then show "relay_ok direction n m \<and> pt = relay_bytes n m"
    using DecodeRelayMessage_sound by metis
next
  assume "relay_ok direction n m \<and> pt = relay_bytes n m"
  moreover from this have "length pt = n"
    using length_relay_bytes [of m n] by (simp add: relay_ok_def)
  ultimately show "decode_relay direction pt = Some (Success (n, m))"
    using DecodeRelayMessage_complete [of direction n m] by (simp add: decode_relay_def)
qed

interpretation relay_message: exact_codec "encode_relay direction" "decode_relay direction" "\<lambda>_. True"
  for direction
proof
  fix x :: "nat \<times> RelayMessageView" and bs
  obtain n m where x: "x = (n, m)" by (rule prod.exhaust)
  show "encode_relay direction x \<noteq> None"
    using encode_relay_eq [of direction n m] by (auto simp: x)
  show "decode_relay direction bs \<noteq> None"
    using DecodeRelayMessage_in_bounds [of direction bs]
    by (auto simp: decode_relay_def bind_None_iff simp del: not_None_eq)
  show "decode_relay direction bs = Some (Success x)" if "encode_relay direction x = Some (Success bs)"
    using that encode_relay_eq [of direction n m] by (auto simp: x decode_relay_iff split: if_splits)
  show "encode_relay direction x = Some (Success bs)" if "decode_relay direction bs = Some (Success x)"
    using that encode_relay_eq [of direction n m] by (auto simp: x decode_relay_iff)
qed simp_all

section \<open>BEGIN\<close>

abbreviation begin_valid :: "Destination \<Rightarrow> bool" where
  "begin_valid d \<equiv> length (d_address d) = 16"

definition begin_ok :: "Destination \<Rightarrow> bool" where
  "begin_ok d \<longleftrightarrow> destination_ok SK_ByteStream d \<and> d_address_kind d \<noteq> AK_None"

definition begin_bytes :: "Destination \<Rightarrow> bytes" where
  "begin_bytes d = [u8_of_AddressKind (d_address_kind d)] @ be16 (d_port d) @
     (case d_address_kind d of
        AK_Ipv4 \<Rightarrow> take 4 (d_address d)
      | AK_Ipv6 \<Rightarrow> d_address d
      | AK_Dns \<Rightarrow> [of_nat (length (d_dns_name d))] @ d_dns_name d
      | _ \<Rightarrow> [])"

lemma EncodeBeginPayload_eq:
  assumes "begin_valid d"
  shows "EncodeBeginPayload d =
    Some (if begin_ok d then Success (begin_bytes d) else Failure C_InvalidDestination 0)"
proof -
  obtain status where s: "ValidateDestination SK_ByteStream d = Some status"
    using ValidateDestination_in_bounds [OF assms] by blast
  have ok: "status = Success () \<longleftrightarrow> destination_ok SK_ByteStream d"
    using ValidateDestination_ok [OF assms, of SK_ByteStream] by (simp add: s)
  show ?thesis
  proof (cases status)
    case (Success u)
    then have dest: "destination_ok SK_ByteStream d" using ok by simp
    then show ?thesis
      using assms by (cases "d_address_kind d")
        (auto simp: EncodeBeginPayload_def s Success begin_ok_def begin_bytes_def be16_def destination_ok_def Let_def)
  next
    case (Failure e n)
    with ok show ?thesis by (auto simp: EncodeBeginPayload_def s begin_ok_def)
  qed
qed

lemma validated_destination_eq:
  assumes "begin_valid d"
  shows "validated_destination d =
    Some (if destination_ok SK_ByteStream d then Success d else Failure C_InvalidDestination 0)"
proof -
  obtain status where s: "ValidateDestination SK_ByteStream d = Some status"
    using ValidateDestination_in_bounds [OF assms] by blast
  have "status = Success () \<longleftrightarrow> destination_ok SK_ByteStream d"
    using ValidateDestination_ok [OF assms, of SK_ByteStream] by (simp add: s)
  then show ?thesis by (cases status) (auto simp: validated_destination_def s)
qed

text \<open>The destination the decoder builds from a kind, a port and the bytes after them.\<close>

definition begin_destination :: "u8 \<Rightarrow> u16 \<Rightarrow> bytes \<Rightarrow> Destination" where
  "begin_destination kind port rest =
     (let d = default_Destination\<lparr>d_transport := TP_Tcp, d_port := port\<rparr> in
      if kind = 3 then d\<lparr>d_address_kind := AK_Dns, d_dns_name := tl rest\<rparr>
      else d\<lparr>d_address_kind := AddressKind_of_u8 kind, d_address_length := of_nat (length rest),
             d_address := rest @ replicate (16 - length rest) 0\<rparr>)"

definition begin_shape :: "u8 \<Rightarrow> bytes \<Rightarrow> bool" where
  "begin_shape kind rest \<longleftrightarrow> kind = 1 \<and> length rest = 4 \<or> kind = 2 \<and> length rest = 16 \<or>
     kind = 3 \<and> rest \<noteq> [] \<and> unat (hd rest) = length (tl rest)"

lemma begin_destination_valid:
  "begin_shape kind rest \<Longrightarrow> begin_valid (begin_destination kind port rest)"
  by (auto simp: begin_shape_def begin_destination_def default_Destination_def Let_def)

lemma DecodeBeginPayload_eq:
  "\<exists>e n. DecodeBeginPayload (kind # p0 # p1 # rest) = Some
     (let d = begin_destination kind (of_be16 p0 p1) rest in
      if begin_shape kind rest \<and> destination_ok SK_ByteStream d then Success d else Failure e n)"
proof (cases "begin_shape kind rest")
  case True
  let ?d = "begin_destination kind (of_be16 p0 p1) rest"
  consider "kind = 1" "length rest = 4" | "kind = 2" "length rest = 16"
    | "kind = 3" "rest \<noteq> []" "unat (hd rest) = length (tl rest)"
    using True unfolding begin_shape_def by blast
  then have "DecodeBeginPayload (kind # p0 # p1 # rest) = validated_destination ?d"
  proof cases
    case 3
    then obtain n name where rest: "rest = n # name" "unat n = length name" by (cases rest) auto
    then show ?thesis
      by (simp add: DecodeBeginPayload_def begin_destination_def 3(1) exact_size_def Let_def)
  qed (simp_all add: DecodeBeginPayload_def begin_destination_def default_Destination_def wire
      exact_size_def Let_def)
  then show ?thesis
    using True validated_destination_eq [OF begin_destination_valid [OF True]] by (auto simp: Let_def)
next
  case False
  then show ?thesis
    by (cases rest) (auto simp: DecodeBeginPayload_def begin_shape_def exact_size_def Let_def split: if_splits)
qed

lemma begin_bytes_shape:
  assumes "begin_ok d" and "begin_valid d"
  obtains rest where "begin_bytes d = [u8_of_AddressKind (d_address_kind d)] @ be16 (d_port d) @ rest"
    "begin_shape (u8_of_AddressKind (d_address_kind d)) rest"
    "begin_destination (u8_of_AddressKind (d_address_kind d)) (d_port d) rest = d"
proof -
  let ?rest = "drop 3 (begin_bytes d)"
  have dest: "destination_ok SK_ByteStream d" "d_address_kind d \<noteq> AK_None"
    using assms by (simp_all add: begin_ok_def)
  have zeros: "drop 4 (d_address d) = replicate 12 0" if "d_address_kind d = AK_Ipv4"
    using that dest assms(2) by (simp add: destination_ok_def IsAllZero_iff)
  then have split4: "d_address d = take 4 (d_address d) @ replicate 12 0" if "d_address_kind d = AK_Ipv4"
    using that by (metis append_take_drop_id)
  have zero16: "d_address d = replicate 16 0" if "d_address_kind d = AK_Dns"
    using that dest assms(2) by (simp add: destination_ok_def IsAllZero_iff)
  have name: "length (d_dns_name d) \<le> 253" if "d_address_kind d = AK_Dns"
    using that dest by (auto simp: destination_ok_def dest: dns_grammar_length)
  have bytes: "begin_bytes d = [u8_of_AddressKind (d_address_kind d)] @ be16 (d_port d) @ ?rest"
    by (simp add: begin_bytes_def be16_def)
  have shape: "begin_shape (u8_of_AddressKind (d_address_kind d)) ?rest"
    using dest assms(2) name
    by (cases "d_address_kind d") (auto simp: begin_bytes_def be16_def begin_shape_def destination_ok_def)
  have "begin_destination (u8_of_AddressKind (d_address_kind d)) (d_port d) ?rest = d"
  proof (cases "d_address_kind d")
    case AK_Ipv4
    with dest assms(2) split4 show ?thesis
      by (intro Destination.equality)
         (auto simp: begin_bytes_def be16_def begin_destination_def default_Destination_def
           destination_ok_def AddressKind_of_u8_def Let_def)
  next
    case AK_Ipv6
    with dest assms(2) show ?thesis
      by (intro Destination.equality)
         (auto simp: begin_bytes_def be16_def begin_destination_def default_Destination_def
           destination_ok_def AddressKind_of_u8_def Let_def)
  next
    case AK_Dns
    with dest zero16 show ?thesis
      by (intro Destination.equality)
         (auto simp: begin_bytes_def be16_def begin_destination_def default_Destination_def
           destination_ok_def Let_def)
  qed (use dest in \<open>auto simp: destination_ok_def\<close>)
  with bytes shape show ?thesis by (rule that)
qed

lemma DecodeBeginPayload_iff:
  "DecodeBeginPayload payload = Some (Success d) \<longleftrightarrow>
     begin_valid d \<and> begin_ok d \<and> payload = begin_bytes d"
proof
  assume run: "DecodeBeginPayload payload = Some (Success d)"
  then have "3 \<le> length payload" by (auto simp: DecodeBeginPayload_def split: if_splits)
  then obtain kind p0 p1 rest where p: "payload = kind # p0 # p1 # rest"
    by (auto simp: numeral_eq_Suc Suc_le_length_iff)
  have shape: "begin_shape kind rest" and ok: "destination_ok SK_ByteStream d"
      and d: "d = begin_destination kind (of_be16 p0 p1) rest"
    using run DecodeBeginPayload_eq [of kind p0 p1 rest] by (auto simp: p Let_def split: if_splits)
  have valid: "begin_valid d" using begin_destination_valid [OF shape] d by simp
  have port: "d_port d = of_be16 p0 p1" and kind: "u8_of_AddressKind (d_address_kind d) = kind"
      and some: "d_address_kind d \<noteq> AK_None"
    using shape by (auto simp: d begin_destination_def begin_shape_def AddressKind_of_u8_def Let_def)
  have "begin_bytes d = kind # p0 # p1 # rest"
  proof -
    from shape consider "kind = 1" "length rest = 4" | "kind = 2" "length rest = 16"
      | n name where "kind = 3" "rest = n # name" "unat n = length name"
      unfolding begin_shape_def by (cases rest) auto
    then show ?thesis
    proof cases
      case 3
      then have "of_nat (length name) = n" by (metis of_nat_unat ucast_id)
      then show ?thesis
        using kind by (simp add: begin_bytes_def port) (simp add: d begin_destination_def 3 Let_def)
    qed (use kind in \<open>simp_all add: begin_bytes_def port\<close>,
         simp_all add: d begin_destination_def AddressKind_of_u8_def Let_def)
  qed
  with valid ok some show "begin_valid d \<and> begin_ok d \<and> payload = begin_bytes d"
    by (simp add: begin_ok_def p)
next
  assume right: "begin_valid d \<and> begin_ok d \<and> payload = begin_bytes d"
  then obtain rest where
    b: "begin_bytes d = [u8_of_AddressKind (d_address_kind d)] @ be16 (d_port d) @ rest"
    and shape: "begin_shape (u8_of_AddressKind (d_address_kind d)) rest"
    and d: "begin_destination (u8_of_AddressKind (d_address_kind d)) (d_port d) rest = d"
    using begin_bytes_shape by blast
  obtain p0 p1 where port: "be16 (d_port d) = [p0, p1]" "of_be16 p0 p1 = d_port d"
    using be16_def of_be16_be16 by blast
  show "DecodeBeginPayload payload = Some (Success d)"
    using DecodeBeginPayload_eq [of "u8_of_AddressKind (d_address_kind d)" p0 p1 rest] right b shape d
    by (auto simp: port Let_def begin_ok_def)
qed

lemma DecodeBeginPayload_in_bounds: "DecodeBeginPayload payload \<noteq> None"
proof (cases "3 \<le> length payload")
  case True
  then obtain kind p0 p1 rest where p: "payload = kind # p0 # p1 # rest"
    by (auto simp: numeral_eq_Suc Suc_le_length_iff)
  show ?thesis using DecodeBeginPayload_eq [of kind p0 p1 rest] by (auto simp: p)
qed (simp add: DecodeBeginPayload_def)

interpretation begin_payload: exact_codec EncodeBeginPayload DecodeBeginPayload begin_valid
proof
  fix d bs
  show "EncodeBeginPayload d \<noteq> None" if "begin_valid d" using EncodeBeginPayload_eq [OF that] by simp
  show "DecodeBeginPayload bs = Some (Success d)" if "begin_valid d" "EncodeBeginPayload d = Some (Success bs)"
    using that EncodeBeginPayload_eq [OF that(1)] by (auto simp: DecodeBeginPayload_iff split: if_splits)
  show "EncodeBeginPayload d = Some (Success bs)" "begin_valid d" if "DecodeBeginPayload bs = Some (Success d)"
    using that EncodeBeginPayload_eq [of d] by (auto simp: DecodeBeginPayload_iff)
qed (rule DecodeBeginPayload_in_bounds)

text \<open>A BEGIN payload the exit accepts passes the relay decoder's size rule.\<close>

lemma begin_payload_rule:
  assumes "begin_ok d" and "begin_valid d"
  shows "payload_rule RL_Begin (begin_bytes d)"
proof -
  have "length (d_dns_name d) \<le> 253 \<and> d_dns_name d \<noteq> []" if "d_address_kind d = AK_Dns"
    using that assms(1) by (auto simp: begin_ok_def destination_ok_def dest: dns_grammar_length)
  then show ?thesis
    using assms by (cases "d_address_kind d")
      (auto simp: payload_rule_def begin_bytes_def begin_ok_def destination_ok_def Suc_le_eq)
qed

section \<open>Properties\<close>

text \<open>C20: a relay plaintext decodes to a message exactly when the encoder, given a buffer of that
  size with any content, writes that plaintext for the message; so padding, reserved byte,
  stream number and payload all have one form, nothing of the buffer's old content is left, and
  the decoder never reads outside the plaintext.\<close>

theorem relay_message_canonical:
  "(DecodeRelayMessage direction pt = Some (Success m) \<and> length output = length pt \<longleftrightarrow>
      EncodeRelayMessage direction (rm_type m) (rm_stream m) (rm_payload m) output = Some (Success (), pt)) \<and>
   DecodeRelayMessage direction pt \<noteq> None"
proof -
  have "DecodeRelayMessage direction pt = Some (Success m) \<longleftrightarrow>
      relay_ok direction (length pt) m \<and> pt = relay_bytes (length pt) m"
    using DecodeRelayMessage_sound DecodeRelayMessage_complete by metis
  then show ?thesis
    using EncodeRelayMessage_eq [of direction m "output"] DecodeRelayMessage_in_bounds [of direction pt]
      length_relay_bytes [of m "length output"]
    by (cases "relay_ok direction (length output) m") (auto simp: relay_ok_def)
qed

text \<open>C31: a BEGIN payload decodes to a destination exactly when the encoder writes it for that
  destination, and no payload makes the decoder read out of range.\<close>

theorem begin_payload_canonical:
  "(DecodeBeginPayload bs = Some (Success d) \<longleftrightarrow>
      length (d_address d) = 16 \<and> EncodeBeginPayload d = Some (Success bs)) \<and>
   DecodeBeginPayload bs \<noteq> None"
  using begin_payload.exact_iff [of bs d] begin_payload.decode_in_bounds [of bs] by simp

end
