(* ===== verification/Hex_Text.thy ===== *)
theory Hex_Text
  imports Yume_Prelude
begin

text \<open>
  Lower-case hexadecimal text (\<^verbatim>\<open>src/src/common/hex.hpp\<close>), the one spelling of fingerprints,
  tokens and digests. The writer and the reader are index loops over a buffer they fill, as in
  the source; both are shown equal to a concatenation over the bytes.
\<close>

section \<open>Operations\<close>

datatype hex_error = length_error

definition kDigits :: bytes where
  "kDigits = ascii ''0123456789abcdef''"

text \<open>The loop of \<^verbatim>\<open>hex_lower\<close> from index \<open>i\<close> on, writing into \<open>encoded\<close>.\<close>

function hex_lower_loop :: "bytes \<Rightarrow> nat \<Rightarrow> bytes \<Rightarrow> bytes option" where
  "hex_lower_loop bs i encoded =
     (if i < length bs then do {
        b \<leftarrow> byte_at bs i;
        high \<leftarrow> byte_at kDigits (unat (drop_bit 4 b AND 0x0f));
        encoded \<leftarrow> put_byte encoded (2 * i) high;
        low \<leftarrow> byte_at kDigits (unat (b AND 0x0f));
        encoded \<leftarrow> put_byte encoded (2 * i + 1) low;
        hex_lower_loop bs (i + 1) encoded
      } else Some encoded)"
  by pat_completeness auto
termination
  by (relation "measure (\<lambda>(bs, i, encoded). length bs - i)") auto

declare hex_lower_loop.simps [simp del]

definition hex_lower :: "bytes \<Rightarrow> (hex_error, bytes) result option" where
  "hex_lower bs =
     (if length bs > (2 ^ 64 - 1) div 2 then Some (Failure length_error 0)
      else do {
        encoded \<leftarrow> hex_lower_loop bs 0 (replicate (length bs * 2) 48);
        Some (Success encoded)
      })"

definition lower_hex_digit :: "u8 \<Rightarrow> bool" where
  "lower_hex_digit ch \<longleftrightarrow> (48 \<le> ch \<and> ch \<le> 57) \<or> (97 \<le> ch \<and> ch \<le> 102)"

definition is_lower_hex :: "bytes \<Rightarrow> bool" where
  "is_lower_hex text \<longleftrightarrow> list_all lower_hex_digit text"

definition hex_value :: "u8 \<Rightarrow> u32" where
  "hex_value ch = (if ch \<le> 57 then ucast ch - 48 else ucast ch - 97 + 10)"

function decode_lower_hex_loop :: "bytes \<Rightarrow> nat \<Rightarrow> bytes \<Rightarrow> bytes option" where
  "decode_lower_hex_loop text i out =
     (if i < length out then do {
        high \<leftarrow> byte_at text (2 * i);
        low \<leftarrow> byte_at text (2 * i + 1);
        decode_lower_hex_loop text (i + 1)
          (out[i := ucast (push_bit 4 (hex_value high) OR hex_value low)])
      } else Some out)"
  by pat_completeness auto
termination
  by (relation "measure (\<lambda>(text, i, out). length out - i)") auto

declare decode_lower_hex_loop.simps [simp del]

definition decode_lower_hex :: "bytes \<Rightarrow> bytes \<Rightarrow> (bool \<times> bytes) option" where
  "decode_lower_hex text out =
     (if length text \<noteq> 2 * length out \<or> \<not> is_lower_hex text then Some (False, out)
      else do {
        out \<leftarrow> decode_lower_hex_loop text 0 out;
        Some (True, out)
      })"

section \<open>The text of a byte string\<close>

definition hex_pair :: "u8 \<Rightarrow> bytes" where
  "hex_pair b = [kDigits ! unat (drop_bit 4 b), kDigits ! unat (b AND 0x0f)]"

definition hex_text :: "bytes \<Rightarrow> bytes" where
  "hex_text bs = concat (map hex_pair bs)"

definition pair_value :: "u8 \<Rightarrow> u8 \<Rightarrow> u8" where
  "pair_value high low = ucast (push_bit 4 (hex_value high) OR hex_value low)"

lemma length_hex_pair [simp]: "length (hex_pair b) = 2"
  by (simp add: hex_pair_def)

lemma length_hex_text [simp]: "length (hex_text bs) = 2 * length bs"
  by (induction bs) (simp_all add: hex_text_def)

lemma length_kDigits [simp]: "length kDigits = 16"
  by (simp add: kDigits_def)

lemma nibbles:
  "drop_bit 4 b AND 0x0f = drop_bit 4 (b :: u8)"
  "unat (drop_bit 4 b) < 16" "unat (b AND 0x0f) < 16"
proof -
  have mask: "(0x0f :: u8) = mask 4" by (simp add: mask_eq_exp_minus_1)
  show "drop_bit 4 b AND 0x0f = drop_bit 4 b"
    unfolding mask by (rule bit_word_eqI) (auto simp: bit_simps dest: bit_imp_le_length)
  show "unat (drop_bit 4 b) < 16"
    using unat_u8_less [of b] by (simp add: unat_drop_bit_eq) (simp add: drop_bit_eq_div less_mult_imp_div_less)
  show "unat (b AND 0x0f) < 16"
    unfolding mask take_bit_eq_mask [symmetric] unsigned_take_bit_eq by (simp add: take_bit_eq_mod)
qed

lemma lt16E:
  assumes "n < (16 :: nat)"
  obtains "n = 0" | "n = 1" | "n = 2" | "n = 3" | "n = 4" | "n = 5" | "n = 6" | "n = 7"
    | "n = 8" | "n = 9" | "n = 10" | "n = 11" | "n = 12" | "n = 13" | "n = 14" | "n = 15"
  using assms by (simp add: numeral_eq_Suc less_Suc_eq) blast

lemma digit_of_nibble:
  assumes "n < 16"
  shows "hex_value (kDigits ! n) = of_nat n \<and> lower_hex_digit (kDigits ! n)"
  using assms by (cases rule: lt16E) (simp_all add: hex_value_def lower_hex_digit_def kDigits_def ascii_def)

lemma nibble_of_digit:
  assumes "lower_hex_digit c"
  shows "\<exists>n < 16. c = kDigits ! n"
proof -
  have "unat c \<in> {48 ..< 58} \<or> unat c \<in> {97 ..< 103}"
    using assms by (auto simp: lower_hex_digit_def word_le_nat_alt)
  moreover have "map (\<lambda>b. unat (b :: u8)) kDigits = [48 ..< 58] @ [97 ..< 103]" by code_simp
  then have "set (map (\<lambda>b. unat (b :: u8)) kDigits) = {48 ..< 58} \<union> {97 ..< 103}"
    by (simp only: set_append set_upt)
  ultimately have "unat c \<in> set (map (\<lambda>b. unat (b :: u8)) kDigits)" by blast
  then obtain n where "n < 16" "unat c = unat (kDigits ! n)"
    by (auto simp: in_set_conv_nth)
  then show ?thesis by (auto intro: unsigned_word_eqI)
qed

lemma pair_value_digits:
  assumes "h < 16" and "l < 16"
  shows "pair_value (kDigits ! h) (kDigits ! l) = of_nat (16 * h + l)"
proof -
  have l: "unat (of_nat l :: u32) < 2 ^ 4" using assms(2) by simp
  have "ucast (push_bit 4 (of_nat h :: u32) OR of_nat l) = (of_nat (16 * h + l) :: u8)"
    unfolding or_shifted [OF l] using assms
    by (intro word_unat_eq_iff [THEN iffD2]) (simp add: push_bit_eq_mult unat_word_ariths unat_of_nat unsigned_ucast_eq take_bit_eq_mod)
  then show ?thesis
    using assms digit_of_nibble by (simp add: pair_value_def)
qed

lemma hex_pair_digits:
  assumes "h < 16" and "l < 16"
  shows "hex_pair (of_nat (16 * h + l)) = [kDigits ! h, kDigits ! l]"
proof -
  have "unat (drop_bit 4 (of_nat (16 * h + l) :: u8)) = h"
    unfolding unat_drop_bit_eq using assms by (simp add: drop_bit_eq_div unat_of_nat del: of_nat_add of_nat_mult)
  moreover have "(0x0f :: u8) = mask 4" by (simp add: mask_eq_exp_minus_1)
  then have "unat ((of_nat (16 * h + l) :: u8) AND 0x0f) = unat (take_bit 4 (of_nat (16 * h + l) :: u8))"
    by (simp only: take_bit_eq_mask)
  then have "unat ((of_nat (16 * h + l) :: u8) AND 0x0f) = l"
    unfolding unsigned_take_bit_eq using assms by (simp add: take_bit_eq_mod unat_of_nat del: of_nat_add of_nat_mult)
  ultimately show ?thesis by (simp add: hex_pair_def)
qed

lemma byte_nibbles: "\<exists>h < 16. \<exists>l < 16. (b :: u8) = of_nat (16 * h + l)"
proof -
  have "b = of_nat (16 * (unat b div 16) + unat b mod 16)" by simp
  moreover have "unat b div 16 < 16" by (rule less_mult_imp_div_less) simp
  moreover have "unat b mod 16 < 16" by simp
  ultimately show ?thesis by blast
qed

lemma hex_pair_read:
  "pair_value (hex_pair b ! 0) (hex_pair b ! 1) = b" "list_all lower_hex_digit (hex_pair b)"
  using byte_nibbles [of b] digit_of_nibble by (auto simp: hex_pair_digits pair_value_digits simp del: of_nat_add of_nat_mult)

lemma hex_pair_of_value:
  assumes "lower_hex_digit h" and "lower_hex_digit l"
  shows "hex_pair (pair_value h l) = [h, l]"
  using nibble_of_digit [OF assms(1)] nibble_of_digit [OF assms(2)]
  by (auto simp: hex_pair_digits pair_value_digits simp del: of_nat_add of_nat_mult)

section \<open>The loops\<close>

lemma hex_lower_loop_eq:
  assumes "length encoded = 2 * length bs" and "i \<le> length bs"
  shows "hex_lower_loop bs i encoded = Some (take (2 * i) encoded @ hex_text (drop i bs))"
  using assms
proof (induction "length bs - i" arbitrary: i encoded)
  case 0
  then show ?case by (subst hex_lower_loop.simps) (simp add: hex_text_def)
next
  case (Suc n)
  let ?b = "bs ! i"
  let ?next = "encoded[2 * i := hex_pair ?b ! 0, 2 * i + 1 := hex_pair ?b ! 1]"
  have i: "i < length bs" and room: "2 * i < length encoded" "2 * i + 1 < length encoded"
    using Suc.hyps(2) Suc.prems by simp_all
  have "hex_lower_loop bs i encoded = hex_lower_loop bs (i + 1) ?next"
    using i room nibbles [of ?b]
    by (subst hex_lower_loop.simps) (simp add: put_byte_def hex_pair_def)
  also have "\<dots> = Some (take (2 * (i + 1)) ?next @ hex_text (drop (i + 1) bs))"
    using Suc.hyps(2) Suc.prems i by (intro Suc.hyps(1)) simp_all
  also have "take (2 * (i + 1)) ?next = take (2 * i) encoded @ hex_pair ?b"
    using room by (simp add: take_Suc_conv_app_nth hex_pair_def)
  finally show ?case using i by (simp add: hex_text_def Cons_nth_drop_Suc [symmetric])
qed

lemma hex_lower_eq:
  "hex_lower bs = Some (if length bs < 2 ^ 63 then Success (hex_text bs) else Failure length_error 0)"
  by (simp add: hex_lower_def hex_lower_loop_eq)

fun hex_bytes :: "bytes \<Rightarrow> bytes" where
  "hex_bytes (h # l # text) = pair_value h l # hex_bytes text"
| "hex_bytes text = []"

lemma length_hex_bytes [simp]: "length (hex_bytes text) = length text div 2"
  by (induction "text" rule: hex_bytes.induct) auto

lemma decode_loop_eq:
  assumes "length text = 2 * length out" and "i \<le> length out"
  shows "decode_lower_hex_loop text i out = Some (take i out @ hex_bytes (drop (2 * i) text))"
  using assms
proof (induction "length out - i" arbitrary: i out)
  case 0
  then show ?case by (subst decode_lower_hex_loop.simps) simp
next
  case (Suc n)
  let ?v = "pair_value (text ! (2 * i)) (text ! (2 * i + 1))"
  have i: "i < length out" and room: "2 * i + 1 < length text"
    using Suc.hyps(2) Suc.prems by simp_all
  have "drop (2 * i) text = text ! (2 * i) # text ! (2 * i + 1) # drop (2 * (i + 1)) text"
    using room by (simp add: Cons_nth_drop_Suc)
  then have bytes: "hex_bytes (drop (2 * i) text) = ?v # hex_bytes (drop (2 * (i + 1)) text)" by simp
  have "decode_lower_hex_loop text i out = decode_lower_hex_loop text (i + 1) (out[i := ?v])"
    using i room by (subst decode_lower_hex_loop.simps) (simp add: pair_value_def)
  also have "\<dots> = Some (take (i + 1) (out[i := ?v]) @ hex_bytes (drop (2 * (i + 1)) text))"
    using Suc.hyps(2) Suc.prems i by (intro Suc.hyps(1)) simp_all
  also have "take (i + 1) (out[i := ?v]) = take i out @ [?v]"
    using i by (simp add: take_Suc_conv_app_nth)
  finally show ?case using bytes by simp
qed

lemma hex_bytes_text: "hex_bytes (hex_text bs) = bs \<and> is_lower_hex (hex_text bs)"
proof (induction bs)
  case (Cons b bs)
  have "hex_pair b = [hex_pair b ! 0, hex_pair b ! 1]" by (simp add: hex_pair_def)
  then have "hex_text (b # bs) = hex_pair b ! 0 # hex_pair b ! 1 # hex_text bs"
    by (simp add: hex_text_def)
  with Cons hex_pair_read [of b] show ?case
    by (auto simp: is_lower_hex_def hex_pair_def)
qed (simp add: hex_text_def is_lower_hex_def)

lemma hex_text_bytes: "is_lower_hex text \<Longrightarrow> even (length text) \<Longrightarrow> hex_text (hex_bytes text) = text"
  by (induction "text" rule: hex_bytes.induct)
     (auto simp: is_lower_hex_def hex_text_def hex_pair_of_value)

section \<open>Properties\<close>

text \<open>C38: a text decodes to a byte string exactly when it is the one text the writer gives that
  string, of the size of the output; a refused text leaves the output as it was, and neither
  loop accesses a buffer out of range.\<close>

theorem hex_exact:
  assumes "length out < 2 ^ 63"
  shows "(decode_lower_hex text out = Some (True, bs) \<longleftrightarrow>
      length bs = length out \<and> hex_lower bs = Some (Success text)) \<and>
    (\<exists>b. decode_lower_hex text out = Some b \<and> (fst b \<or> snd b = out)) \<and> hex_lower bs \<noteq> None"
proof -
  have "decode_lower_hex text out
      = Some (if length text = 2 * length out \<and> is_lower_hex text then (True, hex_bytes text) else (False, out))"
    by (simp add: decode_lower_hex_def decode_loop_eq)
  moreover have "length text = 2 * length out \<and> is_lower_hex text \<and> hex_bytes text = bs \<longleftrightarrow>
      length bs = length out \<and> hex_text bs = text"
    using hex_bytes_text [of bs] hex_text_bytes [of "text"] length_hex_text [of bs] by auto
  ultimately show ?thesis using assms by (auto simp: hex_lower_eq)
qed

theorem hex_exact_witness:
  "hex_lower [0xab, 0x01] = Some (Success (ascii ''ab01''))"
proof -
  have "length [0, 0 :: u8] < 2 ^ 63" by simp
  note exact = hex_exact [OF this, of "ascii ''ab01''" "[0xab, 0x01]"]
  moreover have "decode_lower_hex (ascii ''ab01'') [0, 0] = Some (True, [0xab, 0x01])"
    by code_simp
  ultimately show ?thesis by simp
qed

end
