(* ===== verification/Ip_Network.thy ===== *)
theory Ip_Network
  imports Hex_Text
begin

text \<open>
  Address prefixes and their text (\<^verbatim>\<open>src/src/common/ip_network.hpp\<close>): the IPv4 and IPv6
  parsers, the RFC 5952 writer, canonical networks and interface addresses, the tolerant parser
  of list files, and the prefix match. An outer \<open>None\<close> is an access outside an array or a text;
  an inner \<open>None\<close> is the \<^verbatim>\<open>false\<close> or \<^verbatim>\<open>std::nullopt\<close> of the source.
\<close>

abbreviation (input) c_dot :: u8 where "c_dot \<equiv> 46"
abbreviation (input) c_slash :: u8 where "c_slash \<equiv> 47"
abbreviation (input) c_colon :: u8 where "c_colon \<equiv> 58"

section \<open>Types\<close>

datatype IpFamily = V4 | V6

record IpNetwork =
  n_family :: IpFamily
  n_address :: bytes
  n_prefix_length :: u8

record IpInterfaceAddress =
  i_family :: IpFamily
  i_address :: bytes
  i_prefix_length :: u8

definition default_IpNetwork :: IpNetwork where
  "default_IpNetwork = \<lparr>n_family = V4, n_address = replicate 16 0, n_prefix_length = 0\<rparr>"

definition kMaxIpNetworkTextBytes :: nat where
  "kMaxIpNetworkTextBytes = 43"

definition ip_address_bytes :: "IpFamily \<Rightarrow> nat" where
  "ip_address_bytes family = (if family = V4 then 4 else 16)"

section \<open>Reading\<close>

fun decimal_value :: "u32 \<Rightarrow> bytes \<Rightarrow> u32 option" where
  "decimal_value v [] = Some v"
| "decimal_value v (ch # cs) =
     (if ch < 48 \<or> ch > 57 then None else decimal_value (v * 10 + (ucast ch - 48)) cs)"

definition parse_ip_decimal :: "bytes \<Rightarrow> u32 \<Rightarrow> u32 option" where
  "parse_ip_decimal text maximum =
     (if text = [] \<or> length text > 3 \<or> (length text > 1 \<and> hd text = 48) then None
      else case decimal_value 0 text of
        None \<Rightarrow> None
      | Some v \<Rightarrow> if v > maximum then None else Some v)"

function parse_ipv4_octets :: "nat \<Rightarrow> bytes \<Rightarrow> bytes \<Rightarrow> bytes option option" where
  "parse_ipv4_octets octet text out =
     (if octet < 4 then
        (let dot = find_byte c_dot text; final = (octet = 3) in
         if final \<noteq> (dot = None) then Some None
         else case parse_ip_decimal (case dot of None \<Rightarrow> text | Some d \<Rightarrow> take d text) 255 of
             None \<Rightarrow> Some None
           | Some v \<Rightarrow> do {
               out \<leftarrow> put_byte out octet (ucast v);
               parse_ipv4_octets (octet + 1)
                 (case dot of None \<Rightarrow> text | Some d \<Rightarrow> drop (d + 1) text) out
             })
      else Some (Some out))"
  by pat_completeness auto
termination
  by (relation "measure (\<lambda>(octet, text, out). 4 - octet)") auto

declare parse_ipv4_octets.simps [simp del]

definition parse_ipv4 :: "bytes \<Rightarrow> bytes \<Rightarrow> bytes option option" where
  "parse_ipv4 text out = parse_ipv4_octets 0 text out"

definition ip_hex_digit :: "u8 \<Rightarrow> int" where
  "ip_hex_digit ch =
     (if 48 \<le> ch \<and> ch \<le> 57 then uint ch - 48
      else if 97 \<le> ch \<and> ch \<le> 102 then uint ch - 97 + 10
      else -1)"

text \<open>The digits of one group: the inner loop of \<^verbatim>\<open>parse_ipv6\<close>.\<close>

function ipv6_digits :: "bytes \<Rightarrow> nat \<Rightarrow> nat \<Rightarrow> u32 \<Rightarrow> (nat \<times> u32) option option" where
  "ipv6_digits text start index v =
     (if index < length text then do {
        ch \<leftarrow> byte_at text index;
        let digit = ip_hex_digit ch;
        if digit < 0 then Some (Some (index, v))
        else do {
          used \<leftarrow> size_sub index start;
          if used = 4 then Some None
          else ipv6_digits text start (index + 1) (v * 16 + of_int digit)
        }
      } else Some (Some (index, v)))"
  by pat_completeness auto
termination
  by (relation "measure (\<lambda>(text, start, index, v). length text - index)") auto

declare ipv6_digits.simps [simp del]

lemma ipv6_digits_forward:
  "ipv6_digits text start index v = Some (Some (stop, w)) \<Longrightarrow> index \<le> stop \<and> (index \<le> length text \<longrightarrow> stop \<le> length text)"
proof (induction "length text - index" arbitrary: index v)
  case 0
  then show ?case by (subst (asm) ipv6_digits.simps) auto
next
  case (Suc n)
  from Suc.prems show ?case
  proof (subst (asm) ipv6_digits.simps, auto simp: Let_def bind_eq_Some_conv split: if_splits, goal_cases)
    case (1 used)
    with Suc.hyps show ?case by force
  next
    case (2 used)
    with Suc.hyps show ?case by force
  qed
qed

text \<open>The outer loop of \<^verbatim>\<open>parse_ipv6\<close>, with the groups read so far and the place of the gap.\<close>

function ipv6_groups ::
  "bytes \<Rightarrow> u16 list \<Rightarrow> nat \<Rightarrow> nat option \<Rightarrow> nat \<Rightarrow> (u16 list \<times> nat \<times> nat option) option option" where
  "ipv6_groups text groups filled gap index =
     (if index < length text then do {
        scanned \<leftarrow> ipv6_digits text index index 0;
        case scanned of
          None \<Rightarrow> Some None
        | Some (stop, v) \<Rightarrow>
            if stop = index \<or> filled = length groups then Some None
            else do {
              groups \<leftarrow> put_elem groups filled (ucast v);
              if stop = length text then Some (Some (groups, filled + 1, gap))
              else do {
                ch \<leftarrow> byte_at text stop;
                if ch \<noteq> c_colon then Some None
                else do {
                  double \<leftarrow> (if stop + 1 < length text
                             then do { c \<leftarrow> byte_at text (stop + 1); Some (c = c_colon) }
                             else Some False);
                  if double then
                    (if gap \<noteq> None then Some None
                     else ipv6_groups text groups (filled + 1) (Some (filled + 1)) (stop + 2))
                  else if stop + 1 = length text then Some None
                  else ipv6_groups text groups (filled + 1) gap (stop + 1)
                }
              }
            }
      } else Some (Some (groups, filled, gap)))"
  by pat_completeness auto
termination
  by (relation "measure (\<lambda>(text, groups, filled, gap, index). length text - index)")
     (auto dest!: ipv6_digits_forward)

declare ipv6_groups.simps [simp del]

text \<open>The groups after the gap move to the end, from the last one down, and the gap is cleared.\<close>

primrec move_tail :: "nat \<Rightarrow> nat \<Rightarrow> nat \<Rightarrow> u16 list \<Rightarrow> u16 list option" where
  "move_tail gap tail 0 groups = Some groups"
| "move_tail gap tail (Suc k) groups =
     do { g \<leftarrow> elem_at groups (gap + k);
          base \<leftarrow> size_sub 8 tail;
          groups \<leftarrow> put_elem groups (base + k) g;
          move_tail gap tail k groups }"

function clear_gap :: "nat \<Rightarrow> nat \<Rightarrow> u16 list \<Rightarrow> u16 list option" where
  "clear_gap position stop groups =
     (if position < stop then do {
        groups \<leftarrow> put_elem groups position 0;
        clear_gap (position + 1) stop groups
      } else Some groups)"
  by pat_completeness auto
termination
  by (relation "measure (\<lambda>(position, stop, groups). stop - position)") auto

declare clear_gap.simps [simp del]

fun put_groups :: "nat \<Rightarrow> u16 list \<Rightarrow> bytes \<Rightarrow> bytes option" where
  "put_groups i [] out = Some out"
| "put_groups i (g # gs) out =
     do { out \<leftarrow> put_byte out (i * 2) (ucast (drop_bit 8 g));
          out \<leftarrow> put_byte out (i * 2 + 1) (ucast (g AND 0xff));
          put_groups (i + 1) gs out }"

text \<open>The eight groups once the text is read: the gap filled, or all eight written out.\<close>

definition place_groups :: "u16 list \<Rightarrow> nat \<Rightarrow> nat option \<Rightarrow> u16 list option option" where
  "place_groups groups filled gap =
     (case gap of
        Some gap \<Rightarrow>
          if filled > 7 then Some None
          else do {
            tail \<leftarrow> size_sub filled gap;
            groups \<leftarrow> move_tail gap tail tail groups;
            stop \<leftarrow> size_sub 8 tail;
            groups \<leftarrow> clear_gap gap stop groups;
            Some (Some groups)
          }
      | None \<Rightarrow> if filled \<noteq> 8 then Some None else Some (Some groups))"

definition parse_ipv6 :: "bytes \<Rightarrow> bytes \<Rightarrow> bytes option option" where
  "parse_ipv6 text out = do {
     double \<leftarrow> (if length text \<ge> 2 then do { a \<leftarrow> byte_at text 0; b \<leftarrow> byte_at text 1;
                                             Some (a = c_colon \<and> b = c_colon) }
                else Some False);
     single \<leftarrow> (if text \<noteq> [] then do { a \<leftarrow> byte_at text 0; Some (a = c_colon) } else Some False);
     if \<not> double \<and> single then Some None
     else do {
       scanned \<leftarrow> ipv6_groups text (replicate 8 0) 0 (if double then Some 0 else None)
                    (if double then 2 else 0);
       case scanned of
         None \<Rightarrow> Some None
       | Some (groups, filled, gap) \<Rightarrow> do {
           placed \<leftarrow> place_groups groups filled gap;
           case placed of
             None \<Rightarrow> Some None
           | Some groups \<Rightarrow> do { out \<leftarrow> put_groups 0 groups out; Some (Some out) }
         }
     }
   }"

section \<open>Writing\<close>

text \<open>
  The texts are written into an array of \<open>kMaxIpNetworkTextBytes\<close> characters, which \<open>out\<close>
  holds up to the current size; a character past its end is the outer \<open>None\<close>.
\<close>

definition put_char :: "bytes \<Rightarrow> u8 \<Rightarrow> bytes option" where
  "put_char out c = (if length out < kMaxIpNetworkTextBytes then Some (out @ [c]) else None)"

fun put_chars :: "bytes \<Rightarrow> bytes \<Rightarrow> bytes option" where
  "put_chars out [] = Some out"
| "put_chars out (c # cs) = do { out \<leftarrow> put_char out c; put_chars out cs }"

text \<open>The digits of a number from the last one, in an array of three.\<close>

function decimal_digits :: "u32 \<Rightarrow> bytes \<Rightarrow> bytes option" where
  "decimal_digits v digits =
     (if length digits < 3 then
        (let digits = digits @ [ucast (48 + v mod 10)]; v = v div 10 in
         if v \<noteq> 0 then decimal_digits v digits else Some digits)
      else None)"
  by pat_completeness auto
termination
  by (relation "measure (\<lambda>(v, digits). 3 - length digits)") auto

declare decimal_digits.simps [simp del]

definition append_ip_decimal :: "u32 \<Rightarrow> bytes \<Rightarrow> bytes option" where
  "append_ip_decimal v out = do { digits \<leftarrow> decimal_digits v []; put_chars out (rev digits) }"

fun read_groups :: "nat \<Rightarrow> nat \<Rightarrow> bytes \<Rightarrow> u32 list option" where
  "read_groups 0 i address = Some []"
| "read_groups (Suc k) i address =
     do { a \<leftarrow> byte_at address (i * 2);
          b \<leftarrow> byte_at address (i * 2 + 1);
          gs \<leftarrow> read_groups k (i + 1) address;
          Some ((push_bit 8 (ucast a) OR ucast b) # gs) }"

function zero_run_end :: "u32 list \<Rightarrow> nat \<Rightarrow> nat" where
  "zero_run_end groups stop =
     (if stop < length groups \<and> groups ! stop = 0 then zero_run_end groups (stop + 1) else stop)"
  by pat_completeness auto
termination
  by (relation "measure (\<lambda>(groups, stop). length groups - stop)") auto

declare zero_run_end.simps [simp del]

lemma zero_run_end_le: "i \<le> zero_run_end groups i"
proof (induction groups i rule: zero_run_end.induct)
  case (1 groups stop)
  then show ?case by (subst zero_run_end.simps) (auto intro: Suc_leD)
qed

text \<open>The first longest run of zero groups: the search loop of \<^verbatim>\<open>format_ipv6\<close>.\<close>

function best_zero_run :: "u32 list \<Rightarrow> nat \<Rightarrow> nat \<Rightarrow> nat \<Rightarrow> nat \<times> nat" where
  "best_zero_run groups index best_start best_length =
     (if index < length groups then
        (if groups ! index \<noteq> 0 then best_zero_run groups (index + 1) best_start best_length
         else
           (let stop = zero_run_end groups index in
            if stop - index > best_length then best_zero_run groups stop index (stop - index)
            else best_zero_run groups stop best_start best_length))
      else (best_start, best_length))"
  by pat_completeness auto
termination
proof (relation "measure (\<lambda>(groups, index, best_start, best_length). length groups - index)", goal_cases)
  case (3 groups index best_start best_length stop)
  then show ?case using zero_run_end_le [of "index + 1" groups]
    by (subst (asm) zero_run_end.simps) auto
next
  case (4 groups index best_start best_length stop)
  then show ?case using zero_run_end_le [of "index + 1" groups]
    by (subst (asm) zero_run_end.simps) auto
qed auto

declare best_zero_run.simps [simp del]

fun put_nibbles :: "u32 \<Rightarrow> nat list \<Rightarrow> bool \<Rightarrow> bytes \<Rightarrow> bytes option" where
  "put_nibbles g [] leading out = Some out"
| "put_nibbles g (shift # shifts) leading out =
     (let nibble = drop_bit shift g AND 0xf in
      if leading \<and> nibble = 0 \<and> shift \<noteq> 0 then put_nibbles g shifts leading out
      else do {
        c \<leftarrow> byte_at kDigits (unat nibble);
        out \<leftarrow> put_char out c;
        put_nibbles g shifts False out
      })"

text \<open>A run of length 0 at the current index would never advance; \<open>None\<close> stands for that too.\<close>

function put_ipv6_groups :: "u32 list \<Rightarrow> nat \<Rightarrow> nat \<Rightarrow> nat \<Rightarrow> bytes \<Rightarrow> bytes option" where
  "put_ipv6_groups groups best_start best_length index out =
     (if index < length groups then
        (if index = best_start then do {
           out \<leftarrow> put_char out c_colon;
           out \<leftarrow> put_char out c_colon;
           if best_length = 0 then None
           else put_ipv6_groups groups best_start best_length (index + best_length) out
         } else do {
           out \<leftarrow> (if index \<noteq> 0 \<and> index \<noteq> best_start + best_length then put_char out c_colon
                  else Some out);
           out \<leftarrow> put_nibbles (groups ! index) [12, 8, 4, 0] True out;
           put_ipv6_groups groups best_start best_length (index + 1) out
         })
      else Some out)"
  by pat_completeness auto
termination
  by (relation "measure (\<lambda>(groups, best_start, best_length, index, out). length groups - index)") auto

declare put_ipv6_groups.simps [simp del]

definition format_ipv6 :: "bytes \<Rightarrow> bytes \<Rightarrow> bytes option" where
  "format_ipv6 address out = do {
     groups \<leftarrow> read_groups 8 0 address;
     let (best_start, best_length) = best_zero_run groups 0 8 0;
     if best_length < 2 then put_ipv6_groups groups 8 0 0 out
     else put_ipv6_groups groups best_start best_length 0 out
   }"

fun put_octets :: "nat \<Rightarrow> nat \<Rightarrow> bytes \<Rightarrow> bytes \<Rightarrow> bytes option" where
  "put_octets 0 octet address out = Some out"
| "put_octets (Suc k) octet address out =
     do { out \<leftarrow> (if octet \<noteq> 0 then put_char out c_dot else Some out);
          b \<leftarrow> byte_at address octet;
          out \<leftarrow> append_ip_decimal (ucast b) out;
          put_octets k (octet + 1) address out }"

definition format_ip_network :: "IpNetwork \<Rightarrow> bytes option" where
  "format_ip_network network = do {
     out \<leftarrow> (if n_family network = V4 then put_octets 4 0 (n_address network) []
            else format_ipv6 (n_address network) []);
     out \<leftarrow> put_char out c_slash;
     append_ip_decimal (ucast (n_prefix_length network)) out
   }"

section \<open>Networks\<close>

function host_bits_zero_from :: "bytes \<Rightarrow> nat \<Rightarrow> nat \<Rightarrow> bool option" where
  "host_bits_zero_from address position stop =
     (if position < stop then do {
        b \<leftarrow> byte_at address (position div 8);
        if drop_bit (7 - position mod 8) b AND 1 \<noteq> 0 then Some False
        else host_bits_zero_from address (position + 1) stop
      } else Some True)"
  by pat_completeness auto
termination
  by (relation "measure (\<lambda>(address, position, stop). stop - position)") auto

declare host_bits_zero_from.simps [simp del]

definition ip_host_bits_zero :: "IpNetwork \<Rightarrow> bool option" where
  "ip_host_bits_zero network =
     host_bits_zero_from (n_address network) (unat (n_prefix_length network))
       (ip_address_bytes (n_family network) * 8)"

text \<open>The part the two parsers share: the address picks the family and the largest prefix.\<close>

definition parse_ip_address :: "bytes \<Rightarrow> (IpFamily \<times> bytes \<times> u32) option option" where
  "parse_ip_address address =
     (if find_byte c_colon address \<noteq> None then do {
        parsed \<leftarrow> parse_ipv6 address (n_address default_IpNetwork);
        Some (map_option (\<lambda>a. (V6, a, 128)) parsed)
      } else do {
        parsed \<leftarrow> parse_ipv4 address (n_address default_IpNetwork);
        Some (map_option (\<lambda>a. (V4, a, 32)) parsed)
      })"

definition parse_canonical_ip_interface :: "bytes \<Rightarrow> IpInterfaceAddress option option" where
  "parse_canonical_ip_interface text =
     (if length text > kMaxIpNetworkTextBytes then Some None
      else case find_byte c_slash text of
        None \<Rightarrow> Some None
      | Some slash \<Rightarrow> do {
          parsed \<leftarrow> parse_ip_address (take slash text);
          case parsed of
            None \<Rightarrow> Some None
          | Some (family, address, maximum) \<Rightarrow>
              (case parse_ip_decimal (drop (slash + 1) text) maximum of
                 None \<Rightarrow> Some None
               | Some prefix \<Rightarrow> do {
                   let network = \<lparr>n_family = family, n_address = address, n_prefix_length = ucast prefix\<rparr>;
                   canonical \<leftarrow> format_ip_network network;
                   if canonical \<noteq> text then Some None
                   else Some (Some \<lparr>i_family = family, i_address = address, i_prefix_length = ucast prefix\<rparr>)
                 })
        })"

definition parse_canonical_ip_network :: "bytes \<Rightarrow> IpNetwork option option" where
  "parse_canonical_ip_network text = do {
     parsed \<leftarrow> parse_canonical_ip_interface text;
     case parsed of
       None \<Rightarrow> Some None
     | Some address \<Rightarrow> do {
         let network = \<lparr>n_family = i_family address, n_address = i_address address,
                        n_prefix_length = i_prefix_length address\<rparr>;
         zero \<leftarrow> ip_host_bits_zero network;
         Some (if zero then Some network else None)
       }
   }"

definition fold_case :: "u8 \<Rightarrow> u8" where
  "fold_case ch = (if 65 \<le> ch \<and> ch \<le> 70 then ch - 65 + 97 else ch)"

definition parse_ip_network :: "bytes \<Rightarrow> IpNetwork option option" where
  "parse_ip_network text =
     (if text = [] \<or> length text > kMaxIpNetworkTextBytes then Some None
      else do {
        let lower = map fold_case text;
        let slash = find_byte c_slash lower;
        parsed \<leftarrow> parse_ip_address (case slash of None \<Rightarrow> lower | Some s \<Rightarrow> take s lower);
        case parsed of
          None \<Rightarrow> Some None
        | Some (family, address, maximum) \<Rightarrow>
            (case (case slash of None \<Rightarrow> Some maximum
                   | Some s \<Rightarrow> parse_ip_decimal (drop (s + 1) lower) maximum) of
               None \<Rightarrow> Some None
             | Some prefix \<Rightarrow> do {
                 let network = \<lparr>n_family = family, n_address = address, n_prefix_length = ucast prefix\<rparr>;
                 zero \<leftarrow> ip_host_bits_zero network;
                 Some (if zero then Some network else None)
               })
      })"

function same_bytes :: "bytes \<Rightarrow> bytes \<Rightarrow> nat \<Rightarrow> nat \<Rightarrow> bool option" where
  "same_bytes a b index whole =
     (if index < whole then do {
        x \<leftarrow> byte_at a index;
        y \<leftarrow> byte_at b index;
        if x \<noteq> y then Some False else same_bytes a b (index + 1) whole
      } else Some True)"
  by pat_completeness auto
termination
  by (relation "measure (\<lambda>(a, b, index, whole). whole - index)") auto

declare same_bytes.simps [simp del]

definition ip_network_contains :: "IpNetwork \<Rightarrow> IpFamily \<Rightarrow> bytes \<Rightarrow> bool option" where
  "ip_network_contains network family address =
     (if family \<noteq> n_family network \<or> length address \<noteq> ip_address_bytes family then Some False
      else do {
        let whole = unat (n_prefix_length network) div 8;
        same \<leftarrow> same_bytes address (n_address network) 0 whole;
        if \<not> same then Some False
        else do {
          let remaining = unat (n_prefix_length network) mod 8;
          if remaining = 0 then Some True
          else do {
            let net_mask = (ucast (push_bit (8 - remaining) (0xff :: u32)) :: u8);
            a \<leftarrow> byte_at address whole;
            n \<leftarrow> byte_at (n_address network) whole;
            Some (a AND net_mask = n)
          }
        }
      })"

end
