(* ===== verification/Ip_Text.thy ===== *)
theory Ip_Text
  imports Ip_Network
begin

text \<open>
  What the writers of \<^verbatim>\<open>ip_network.hpp\<close> write and that the parsers read it back: decimal
  numbers, dotted IPv4 addresses, and IPv6 addresses as colon-separated groups with the first
  longest run of zero groups left out.
\<close>

section \<open>Decimal numbers\<close>

definition decimal_text :: "nat \<Rightarrow> bytes" where
  "decimal_text n =
     (if n < 10 then [of_nat (48 + n)]
      else if n < 100 then [of_nat (48 + n div 10), of_nat (48 + n mod 10)]
      else [of_nat (48 + n div 100), of_nat (48 + n div 10 mod 10), of_nat (48 + n mod 10)])"

lemma decimal_text_size: "1 \<le> length (decimal_text n)" "length (decimal_text n) \<le> 3"
  by (simp_all add: decimal_text_def)

lemma ucast_of_byte: "n < 256 \<Longrightarrow> ucast (of_nat n :: u8) = (of_nat n :: 'a :: len word)"
  by (simp add: unsigned_of_nat take_bit_nat_eq_self)

lemma digit_value: "d < 10 \<Longrightarrow> ucast (of_nat (48 + d) :: u8) - 48 = (of_nat d :: u32)"
  using ucast_of_byte [of "48 + d", where 'a = 32] by simp

lemma digit_range: "d < 10 \<Longrightarrow> \<not> (of_nat (48 + d) :: u8) < 48 \<and> \<not> (of_nat (48 + d) :: u8) > 57"
  by (simp add: word_less_nat_alt unat_of_nat unat_word_ariths)

lemma decimal_value_digit:
  "d < 10 \<Longrightarrow> decimal_value v (of_nat (48 + d) # cs) = decimal_value (v * 10 + of_nat d) cs"
  using digit_value [of d] digit_range [of d] by (simp del: of_nat_add)

lemma decimal_value_text:
  assumes "n < 1000"
  shows "decimal_value 0 (decimal_text n) = Some (of_nat n)"
proof -
  let ?q = "n div 10"
  have hundred: "n div 100 = ?q div 10" by (simp add: div_mult2_eq [symmetric])
  have small: "?q div 10 < 10" "?q mod 10 < 10" "n mod 10 < 10"
    using assms by (simp_all add: less_mult_imp_div_less)
  have q: "of_nat (?q div 10) * 10 + of_nat (?q mod 10) = (of_nat ?q :: u32)"
    using div_mult_mod_eq [of ?q 10] by (metis of_nat_add of_nat_mult of_nat_numeral)
  have n: "of_nat ?q * 10 + of_nat (n mod 10) = (of_nat n :: u32)"
    using div_mult_mod_eq [of n 10] by (metis of_nat_add of_nat_mult of_nat_numeral)
  consider "n < 10" | "10 \<le> n" "?q < 10" | "10 \<le> n" "\<not> ?q < 10" by linarith
  then show ?thesis
  proof cases
    case 1
    then show ?thesis
      unfolding decimal_text_def using decimal_value_digit [of n 0 "[]"] by simp
  next
    case 2
    then have "n < 100" by linarith
    with 2 n show ?thesis
      unfolding decimal_text_def using small
      by (simp only: if_False if_True not_less [symmetric] decimal_value_digit) simp
  next
    case 3
    then have "\<not> n < 100" "\<not> n < 10" by linarith+
    with n q show ?thesis
      unfolding decimal_text_def hundred using small
      by (simp only: if_False decimal_value_digit) simp
  qed
qed

lemma parse_decimal_text:
  assumes "n \<le> unat maximum" and "unat maximum < 1000"
  shows "parse_ip_decimal (decimal_text n) maximum = Some (of_nat n)"
proof -
  have "n < 1000" using assms by simp
  moreover have "\<not> of_nat n > maximum"
    using assms by (simp add: word_less_nat_alt unat_of_nat)
  moreover have "1 < length (decimal_text n) \<longrightarrow> hd (decimal_text n) \<noteq> 48"
    using \<open>n < 1000\<close> by (auto simp: decimal_text_def word_unat_eq_iff unat_of_nat unat_word_ariths)
  ultimately show ?thesis
    using decimal_text_size [of n] decimal_value_text [of n]
    by (auto simp: parse_ip_decimal_def)
qed

lemma decimal_digits_text:
  assumes "n < 1000"
  shows "decimal_digits (of_nat n) [] = Some (rev (decimal_text n))"
proof -
  have digit: "ucast (48 + of_nat m mod 10 :: u32) = (of_nat (48 + m mod 10) :: u8)" if "m < 1000" for m
  proof -
    have "(of_nat m :: u32) mod 10 = of_nat (m mod 10)"
      using that by (simp add: word_unat_eq_iff unat_mod unat_of_nat)
    then have "(48 + of_nat m mod 10 :: u32) = of_nat (48 + m mod 10)" by simp
    moreover have "take_bit LENGTH(32) (48 + m mod 10) = 48 + m mod 10"
      by (rule take_bit_nat_eq_self) (simp add: less_le_trans [OF add_strict_left_mono [OF mod_less_divisor]])
    ultimately show ?thesis by (simp only: unsigned_of_nat)
  qed
  have quot: "(of_nat m :: u32) div 10 = of_nat (m div 10)" "(of_nat (m div 10) :: u32) = 0 \<longleftrightarrow> m < 10"
    if "m < 1000" for m
    using that by (auto simp: word_unat_eq_iff unat_div unat_of_nat)
  have loop: "decimal_digits (of_nat m) ds = (if length ds < 3 then
      if m < 10 then Some (ds @ [of_nat (48 + m mod 10)])
      else decimal_digits (of_nat (m div 10)) (ds @ [of_nat (48 + m mod 10)]) else None)" if "m < 1000" for m ds
    using that digit [of m] quot [of m] by (subst decimal_digits.simps) (simp add: Let_def)
  have "n div 10 < 1000" "n div 10 div 10 < 10" "n div 10 div 10 = n div 100" using assms by auto
  then show ?thesis
    using assms by (auto simp: loop decimal_text_def div_less)
qed

lemma put_chars_eq:
  "length out + length cs \<le> kMaxIpNetworkTextBytes \<Longrightarrow> put_chars out cs = Some (out @ cs)"
  by (induction cs arbitrary: out) (simp_all add: put_char_def)

lemma append_decimal_eq:
  assumes "n < 1000" and "length out + length (decimal_text n) \<le> kMaxIpNetworkTextBytes"
  shows "append_ip_decimal (of_nat n) out = Some (out @ decimal_text n)"
  using assms by (simp add: append_ip_decimal_def decimal_digits_text put_chars_eq)

lemma decimal_text_chars: "n < 1000 \<Longrightarrow> c \<in> set (decimal_text n) \<Longrightarrow> 48 \<le> c \<and> c \<le> 57"
  by (auto simp: decimal_text_def word_le_nat_alt unat_of_nat unat_word_ariths split: if_splits)

lemma parse_ip_decimal_max: "parse_ip_decimal t m = Some v \<Longrightarrow> v \<le> m"
  by (auto simp: parse_ip_decimal_def split: if_splits option.splits)

section \<open>IPv4\<close>

lemma ucast_of_u32: "n < 256 \<Longrightarrow> ucast (of_nat n :: u32) = (of_nat n :: u8)"
  by (simp add: unsigned_of_nat take_bit_nat_eq_self)

fun dotted :: "nat list \<Rightarrow> bytes" where
  "dotted [] = []"
| "dotted [n] = decimal_text n"
| "dotted (n # ns) = decimal_text n @ c_dot # dotted ns"

lemma no_dot [simp]: "n < 1000 \<Longrightarrow> c_dot \<notin> set (decimal_text n)"
  using decimal_text_chars [of n c_dot] by auto

lemma parse_ipv4_octets_dotted:
  assumes "octet + length ns = 4" and "ns \<noteq> []" and "\<forall>n \<in> set ns. n < 256" and "4 \<le> length out"
  shows "parse_ipv4_octets octet (dotted ns) out
      = Some (Some (take octet out @ map of_nat ns @ drop 4 out))"
  using assms
proof (induction ns arbitrary: octet out rule: dotted.induct)
  case (2 n)
  then have octet: "octet = 3" and dot: "find_byte c_dot (decimal_text n) = None" by simp_all
  have "parse_ipv4_octets 3 (decimal_text n) out = parse_ipv4_octets 4 (decimal_text n) (out[3 := of_nat n])"
    using 2 dot by (subst parse_ipv4_octets.simps)
      (simp add: dot Let_def parse_decimal_text put_byte_def ucast_of_u32 del: find_byte_None)
  also have "\<dots> = Some (Some (out[3 := of_nat n]))"
    by (subst parse_ipv4_octets.simps) simp
  also have "out[3 := of_nat n] = take 3 out @ [of_nat n] @ drop 4 out"
    using 2 by (simp add: upd_conv_take_nth_drop)
  finally show ?case by (simp add: octet)
next
  case (3 n m ns)
  let ?rest = "dotted (m # ns)"
  have octet: "octet < 3" "octet < length out" using 3 by simp_all
  have split: "dotted (n # m # ns) = decimal_text n @ c_dot # ?rest" by simp
  have dot: "find_byte c_dot (dotted (n # m # ns)) = Some (length (decimal_text n))"
    unfolding split using 3 by (intro find_byte_first no_dot) simp
  have "parse_ipv4_octets octet (dotted (n # m # ns)) out
      = parse_ipv4_octets (octet + 1) ?rest (out[octet := of_nat n])"
    using octet 3 dot by (subst parse_ipv4_octets.simps)
      (simp add: dot Let_def parse_decimal_text put_byte_def ucast_of_u32 del: find_byte_None)
  also have "\<dots> = Some (Some (take (octet + 1) (out[octet := of_nat n]) @ map of_nat (m # ns)
      @ drop 4 (out[octet := of_nat n])))"
    using 3 by (intro "3.IH") simp_all
  also have "take (octet + 1) (out[octet := of_nat n]) = take octet out @ [of_nat n]"
    using octet by (simp add: take_Suc_conv_app_nth)
  also have "drop 4 (out[octet := of_nat n]) = drop 4 out" using octet by simp
  finally show ?case by simp
qed simp

lemma dotted_size: "length (dotted ns) + 1 \<le> 4 * length ns \<or> ns = []"
proof (induction ns rule: dotted.induct)
  case (3 n m ns)
  then show ?case using decimal_text_size(2) [of n] by simp
next
  case (2 n)
  then show ?case using decimal_text_size(2) [of n] by simp
qed simp

lemma drop_Suc_eq: "drop i xs = y # ys \<Longrightarrow> drop (i + 1) xs = ys"
  using tl_drop [of i xs] by (simp add: drop_Suc)

lemma put_octets_dotted:
  assumes "drop octet address = map of_nat ns @ rest" and "\<forall>n \<in> set ns. n < 256" and "0 < octet"
    and "length out + 4 * length ns \<le> kMaxIpNetworkTextBytes"
  shows "put_octets (length ns) octet address out
      = Some (out @ concat (map (\<lambda>n. c_dot # decimal_text n) ns))"
  using assms
proof (induction ns arbitrary: octet out)
  case (Cons n ns)
  have cons: "drop octet address = of_nat n # map of_nat ns @ rest" using Cons.prems(1) by simp
  have at: "octet < length address" "address ! octet = of_nat n" "drop (octet + 1) address = map of_nat ns @ rest"
    using cons nth_via_drop [OF cons] drop_Suc_eq [OF cons] by (auto intro: ccontr)
  have room: "length out + 1 + length (decimal_text n) \<le> kMaxIpNetworkTextBytes"
    using Cons.prems decimal_text_size(2) [of n] by simp
  have "ucast (of_nat n :: u8) = (of_nat n :: u32)" using Cons.prems by (simp add: ucast_of_byte)
  then have "put_octets (length (n # ns)) octet address out
      = put_octets (length ns) (octet + 1) address (out @ c_dot # decimal_text n)"
    using at room Cons.prems by (simp add: put_char_def append_decimal_eq)
  also have "\<dots> = Some ((out @ c_dot # decimal_text n) @ concat (map (\<lambda>n. c_dot # decimal_text n) ns))"
    using Cons.prems decimal_text_size(2) [of n]
    by (intro Cons.IH at) simp_all
  finally show ?case by simp
qed simp

section \<open>IPv6 groups\<close>

definition group_nibbles :: "nat \<Rightarrow> nat list" where
  "group_nibbles g =
     (if g < 16 then [g]
      else if g < 256 then [g div 16, g mod 16]
      else if g < 4096 then [g div 256, g div 16 mod 16, g mod 16]
      else [g div 4096, g div 256 mod 16, g div 16 mod 16, g mod 16])"

definition group_text :: "nat \<Rightarrow> bytes" where
  "group_text g = map (\<lambda>n. kDigits ! n) (group_nibbles g)"

lemma group_text_size: "1 \<le> length (group_text g)" "length (group_text g) \<le> 4"
  by (simp_all add: group_text_def group_nibbles_def)

lemma group_text_ne [simp]: "group_text g \<noteq> []"
  using group_text_size(1) [of g] by auto

lemma group_nibbles_small: "g < 65536 \<Longrightarrow> n \<in> set (group_nibbles g) \<Longrightarrow> n < 16"
  by (auto simp: group_nibbles_def less_mult_imp_div_less split: if_splits)

lemma ip_hex_digit_iff: "0 \<le> ip_hex_digit c \<longleftrightarrow> lower_hex_digit c"
  by (auto simp: ip_hex_digit_def lower_hex_digit_def word_le_def)

lemma ip_hex_digit_nibble: "n < 16 \<Longrightarrow> ip_hex_digit (kDigits ! n) = int n"
  by (erule lt16E) (simp_all add: ip_hex_digit_def kDigits_def ascii_def)

lemma group_text_hex: "g < 65536 \<Longrightarrow> c \<in> set (group_text g) \<Longrightarrow> lower_hex_digit c"
  using group_nibbles_small digit_of_nibble by (auto simp: group_text_def)

lemma ipv6_digits_nibbles:
  assumes "\<forall>d \<in> set ds. d < 16" and "start \<le> length pre" and "length pre + length ds \<le> start + 4"
    and "rest = [] \<or> ip_hex_digit (hd rest) < 0"
  shows "ipv6_digits (pre @ map (\<lambda>n. kDigits ! n) ds @ rest) start (length pre) v
      = Some (Some (length pre + length ds, foldl (\<lambda>v d. v * 16 + of_nat d) v ds))"
  using assms
proof (induction ds arbitrary: pre v)
  case Nil
  then show ?case by (subst ipv6_digits.simps) (cases rest; auto)
next
  case (Cons d ds)
  then have used: "length pre - start \<noteq> 4" by auto
  have "ipv6_digits (pre @ map (\<lambda>n. kDigits ! n) (d # ds) @ rest) start (length pre) v
      = ipv6_digits ((pre @ [kDigits ! d]) @ map (\<lambda>n. kDigits ! n) ds @ rest) start (length (pre @ [kDigits ! d]))
          (v * 16 + of_nat d)"
    using Cons.prems used by (subst ipv6_digits.simps) (simp add: ip_hex_digit_nibble nth_append)
  also have "\<dots> = Some (Some (length (pre @ [kDigits ! d]) + length ds,
      foldl (\<lambda>v d. v * 16 + of_nat d) (v * 16 + of_nat d) ds))"
    using Cons.prems by (intro Cons.IH) simp_all
  finally show ?case by simp
qed

lemma group_nibbles_step:
  assumes "16 \<le> g" and "g < 65536"
  shows "group_nibbles g = group_nibbles (g div 16) @ [g mod 16]"
proof -
  have "g div 16 < 16 \<longleftrightarrow> g < 256" "g div 16 < 256 \<longleftrightarrow> g < 4096" "g div 16 < 4096"
    using assms by (simp_all add: div_less_iff_less_mult)
  moreover have "g div 16 div 16 = g div 256" "g div 16 div 256 = g div 4096"
    by (simp_all add: div_mult2_eq [symmetric])
  ultimately show ?thesis using assms by (auto simp: group_nibbles_def)
qed

lemma group_value:
  assumes "g < 65536"
  shows "foldl (\<lambda>v d. v * 16 + of_nat d) (0 :: u32) (group_nibbles g) = of_nat g"
  using assms
proof (induction g rule: less_induct)
  case (less g)
  show ?case
  proof (cases "g < 16")
    case False
    have "of_nat (g div 16) * 16 + of_nat (g mod 16) = (of_nat (g div 16 * 16 + g mod 16) :: u32)"
      by (simp only: of_nat_add of_nat_mult of_nat_numeral)
    also have "\<dots> = of_nat g" by (simp only: div_mult_mod_eq)
    finally show ?thesis
      using False less by (simp add: group_nibbles_step)
  qed (simp add: group_nibbles_def)
qed

lemma ipv6_digits_group:
  assumes "g < 65536" and "rest = [] \<or> ip_hex_digit (hd rest) < 0"
  shows "ipv6_digits (pre @ group_text g @ rest) (length pre) (length pre) 0
      = Some (Some (length pre + length (group_text g), of_nat g))"
  using ipv6_digits_nibbles [of "group_nibbles g" "length pre" pre rest 0] assms
    group_nibbles_small [of g] group_text_size(2) [of g] group_value [of g]
  by (simp add: group_text_def)

text \<open>The writer gives a group the same digits.\<close>

lemma nibble_of: "drop_bit s (of_nat g :: u32) AND 0xf = of_nat (g div 2 ^ s mod 16)" if "g < 65536"
proof -
  have mask: "(0xf :: u32) = mask 4" by (simp add: mask_eq_exp_minus_1)
  have "unat (drop_bit s (of_nat g :: u32) AND 0xf) = g div 2 ^ s mod 16"
    unfolding mask take_bit_eq_mask [symmetric] unsigned_take_bit_eq unat_drop_bit_eq
    using that by (simp add: take_bit_eq_mod drop_bit_eq_div unat_of_nat)
  then show ?thesis by (simp add: word_unat_eq_iff unat_of_nat)
qed

lemma put_nibbles_step:
  assumes "g < 65536"
  shows "put_nibbles (of_nat g) (s # ss) leading out =
    (if leading \<and> g div 2 ^ s mod 16 = 0 \<and> s \<noteq> 0 then put_nibbles (of_nat g) ss leading out
     else do { out \<leftarrow> put_char out (kDigits ! (g div 2 ^ s mod 16));
               put_nibbles (of_nat g) ss False out })"
proof -
  have "(of_nat (g div 2 ^ s mod 16) :: u32) = 0 \<longleftrightarrow> g div 2 ^ s mod 16 = 0"
    "unat (of_nat (g div 2 ^ s mod 16) :: u32) = g div 2 ^ s mod 16"
    by (simp_all add: word_unat_eq_iff unat_of_nat)
  then show ?thesis by (simp only: put_nibbles.simps nibble_of [OF assms] Let_def) simp
qed

lemma put_nibbles_group:
  assumes "g < 65536" and "length out + length (group_text g) \<le> kMaxIpNetworkTextBytes"
  shows "put_nibbles (of_nat g) [12, 8, 4, 0] True out = Some (out @ group_text g)"
proof -
  have small: "g div n mod 16 = g div n" if "g < 16 * n" for n
    using that by (simp add: less_mult_imp_div_less)
  have pos: "0 < g div n \<longleftrightarrow> n \<le> g" if "0 < n" for n using that by (simp add: div_greater_zero_iff)
  consider "g < 16" | "16 \<le> g" "g < 256" | "256 \<le> g" "g < 4096" | "4096 \<le> g" by linarith
  then show ?thesis
    using assms small [of 1] small [of 16] small [of 256] small [of 4096] pos [of 16] pos [of 256] pos [of 4096]
    by cases (simp_all add: put_nibbles_step group_text_def group_nibbles_def put_char_def
        del: put_nibbles.simps(2))
qed

section \<open>The text of an IPv6 address\<close>

definition sep_text :: "nat list \<Rightarrow> bytes" where
  "sep_text gs = concat (map (\<lambda>g. c_colon # group_text g) gs)"

fun colon_text :: "nat list \<Rightarrow> bytes" where
  "colon_text [] = []"
| "colon_text (g # gs) = group_text g @ sep_text gs"

lemma sep_text_Cons [simp]: "sep_text (g # gs) = c_colon # group_text g @ sep_text gs"
  and sep_text_Nil [simp]: "sep_text [] = []"
  by (simp_all add: sep_text_def)

lemma sep_text_colon: "gs \<noteq> [] \<Longrightarrow> sep_text gs = c_colon # colon_text gs"
  by (cases gs) simp_all

lemma sep_text_size: "length (sep_text gs) \<le> 5 * length gs"
proof (induction gs)
  case (Cons g gs)
  then show ?case using group_text_size(2) [of g] by simp
qed simp

lemma colon_text_size: "length (colon_text gs) \<le> 5 * length gs - 1"
proof (cases gs)
  case (Cons g gs')
  then show ?thesis using group_text_size(2) [of g] sep_text_size [of gs'] by simp
qed simp

definition part :: "nat \<Rightarrow> nat \<Rightarrow> 'a list \<Rightarrow> 'a list" where
  "part i j xs = take (j - i) (drop i xs)"

lemma part_Cons: "i < j \<Longrightarrow> i < length xs \<Longrightarrow> part i j xs = xs ! i # part (i + 1) j xs"
  unfolding part_def by (simp add: Cons_nth_drop_Suc [symmetric] Suc_diff_Suc [symmetric])

lemma length_part [simp]: "j \<le> length xs \<Longrightarrow> length (part i j xs) = j - i"
  by (simp add: part_def)

lemma part_empty [simp]: "part i i xs = []"
  by (simp add: part_def)

lemma put_groups_sep:
  assumes "i \<le> j" and "j \<le> length gs" and "\<forall>g \<in> set gs. g < 65536"
    and "\<forall>k. i \<le> k \<and> k < j \<longrightarrow> k \<noteq> s \<and> k \<noteq> 0 \<and> k \<noteq> s + l"
    and "length out + 5 * (j - i) \<le> kMaxIpNetworkTextBytes"
  shows "put_ipv6_groups (map of_nat gs) s l i out
      = put_ipv6_groups (map of_nat gs) s l j (out @ sep_text (part i j gs))"
  using assms
proof (induction "j - i" arbitrary: i out)
  case (Suc n)
  let ?g = "gs ! i"
  have i: "i < j" "i < length gs" "?g < 65536" using Suc.hyps(2) Suc.prems by auto
  have "i \<noteq> s \<and> i \<noteq> 0 \<and> i \<noteq> s + l" using Suc.prems(4) i by simp
  moreover have "length out + 1 + length (group_text ?g) \<le> kMaxIpNetworkTextBytes"
    "length out < kMaxIpNetworkTextBytes"
    using Suc.prems(5) group_text_size [of ?g] i by simp_all
  ultimately have "put_ipv6_groups (map of_nat gs) s l i out
      = put_ipv6_groups (map of_nat gs) s l (i + 1) (out @ c_colon # group_text ?g)"
    using i by (subst put_ipv6_groups.simps) (simp add: put_char_def put_nibbles_group del: put_nibbles.simps)
  also have "\<dots> = put_ipv6_groups (map of_nat gs) s l j ((out @ c_colon # group_text ?g) @ sep_text (part (i + 1) j gs))"
    using Suc.hyps(2) Suc.prems i group_text_size(2) [of ?g] by (intro Suc.hyps(1)) auto
  finally show ?case using i by (simp add: part_Cons)
qed simp

lemma put_groups_colon:
  assumes "i < j" and "j \<le> length gs" and "\<forall>g \<in> set gs. g < 65536"
    and "i = 0 \<or> i = s + l" and "i \<noteq> s" and "\<forall>k. i < k \<and> k < j \<longrightarrow> k \<noteq> s \<and> k \<noteq> s + l"
    and "length out + 5 * (j - i) - 1 \<le> kMaxIpNetworkTextBytes"
  shows "put_ipv6_groups (map of_nat gs) s l i out
      = put_ipv6_groups (map of_nat gs) s l j (out @ colon_text (part i j gs))"
proof -
  let ?g = "gs ! i"
  have "?g < 65536" "i < length gs" using assms by auto
  moreover have "length out + length (group_text ?g) + 5 * (j - (i + 1)) \<le> kMaxIpNetworkTextBytes"
    using assms(1,7) group_text_size(2) [of ?g] by simp
  ultimately have "put_ipv6_groups (map of_nat gs) s l i out
      = put_ipv6_groups (map of_nat gs) s l (i + 1) (out @ group_text ?g)"
    using assms by (subst put_ipv6_groups.simps) (auto simp add: put_char_def put_nibbles_group simp del: put_nibbles.simps)
  also have "\<dots> = put_ipv6_groups (map of_nat gs) s l j ((out @ group_text ?g) @ sep_text (part (i + 1) j gs))"
    using assms \<open>length out + length (group_text ?g) + 5 * (j - (i + 1)) \<le> kMaxIpNetworkTextBytes\<close>
    by (intro put_groups_sep) auto
  finally show ?thesis using assms \<open>i < length gs\<close> by (simp add: part_Cons)
qed

definition gap_text :: "nat \<Rightarrow> nat \<Rightarrow> nat list \<Rightarrow> bytes" where
  "gap_text s l gs = colon_text (take s gs) @ [c_colon, c_colon] @ colon_text (drop (s + l) gs)"

lemma put_groups_plain:
  assumes "length gs = 8" and "\<forall>g \<in> set gs. g < 65536"
  shows "put_ipv6_groups (map of_nat gs) 8 0 0 [] = Some (colon_text gs)"
proof -
  have "put_ipv6_groups (map of_nat gs) 8 0 0 [] = put_ipv6_groups (map of_nat gs) 8 0 8 ([] @ colon_text (part 0 8 gs))"
    using assms by (intro put_groups_colon) (auto simp: kMaxIpNetworkTextBytes_def)
  then show ?thesis using assms by (subst (asm) (2) put_ipv6_groups.simps) (simp add: part_def)
qed

lemma put_groups_gap:
  assumes "length gs = 8" and "\<forall>g \<in> set gs. g < 65536" and "s + l \<le> 8" and "2 \<le> l"
  shows "put_ipv6_groups (map of_nat gs) s l 0 [] = Some (gap_text s l gs)"
proof -
  let ?put = "put_ipv6_groups (map of_nat gs) s l"
  have head: "?put 0 [] = ?put s (colon_text (take s gs))"
  proof (cases "s = 0")
    case False
    then have "?put 0 [] = ?put s ([] @ colon_text (part 0 s gs))"
      using assms by (intro put_groups_colon) (auto simp: kMaxIpNetworkTextBytes_def)
    then show ?thesis by (simp add: part_def)
  qed simp
  have room: "length (colon_text (take s gs)) + 2 + 5 * (8 - (s + l)) \<le> kMaxIpNetworkTextBytes"
    using colon_text_size [of "take s gs"] assms by (simp add: kMaxIpNetworkTextBytes_def)
  have gap: "?put s out = ?put (s + l) (out @ [c_colon, c_colon])"
    if "length out + 2 \<le> kMaxIpNetworkTextBytes" for out
    using that assms by (subst put_ipv6_groups.simps) (simp add: put_char_def)
  have tail: "?put (s + l) out = Some (out @ colon_text (drop (s + l) gs))"
    if "length out + 5 * (8 - (s + l)) \<le> kMaxIpNetworkTextBytes" for out
  proof (cases "s + l = 8")
    case True
    then show ?thesis using assms by (subst put_ipv6_groups.simps) simp
  next
    case False
    then have "?put (s + l) out = ?put 8 (out @ colon_text (part (s + l) 8 gs))"
      using assms that by (intro put_groups_colon) auto
    then show ?thesis using assms by (subst (asm) (2) put_ipv6_groups.simps) (simp add: part_def)
  qed
  show ?thesis using head gap [of "colon_text (take s gs)"] tail [of "colon_text (take s gs) @ [c_colon, c_colon]"] room
    by (simp add: gap_text_def)
qed

section \<open>The first longest run of zero groups\<close>

definition zero_run :: "u32 list \<Rightarrow> nat \<Rightarrow> nat \<Rightarrow> bool" where
  "zero_run groups s l \<longleftrightarrow> s + l \<le> length groups \<and> (\<forall>k. s \<le> k \<and> k < s + l \<longrightarrow> groups ! k = 0)"

lemma zero_run_end_run:
  assumes "i \<le> length groups"
  shows "zero_run groups i (zero_run_end groups i - i) \<and>
    (zero_run_end groups i < length groups \<longrightarrow> groups ! zero_run_end groups i \<noteq> 0)"
  using assms
proof (induction groups i rule: zero_run_end.induct)
  case (1 groups stop)
  show ?case
  proof (cases "stop < length groups \<and> groups ! stop = 0")
    case True
    let ?e = "zero_run_end groups (stop + 1)"
    have e: "zero_run_end groups stop = ?e" using True by (subst zero_run_end.simps) simp
    have IH: "zero_run groups (stop + 1) (?e - (stop + 1)) \<and> (?e < length groups \<longrightarrow> groups ! ?e \<noteq> 0)"
      using 1 True by simp
    have "stop + 1 \<le> ?e" by (rule zero_run_end_le)
    moreover have "groups ! k = 0" if "stop \<le> k" "k < ?e" for k
      using that IH True by (cases "k = stop") (auto simp: zero_run_def)
    ultimately have "zero_run groups stop (?e - stop)" using IH by (auto simp: zero_run_def)
    with IH e show ?thesis by simp
  next
    case False
    then have "zero_run_end groups stop = stop" by (subst zero_run_end.simps) auto
    with False 1 show ?thesis by (auto simp: zero_run_def)
  qed
qed

text \<open>No run found so far is longer, and none of the same length starts earlier.\<close>

definition best_before :: "u32 list \<Rightarrow> nat \<Rightarrow> nat \<Rightarrow> nat \<Rightarrow> bool" where
  "best_before groups i s l \<longleftrightarrow>
     (\<forall>s' l'. zero_run groups s' l' \<and> 0 < l' \<and> s' < i \<longrightarrow> l' \<le> l \<and> (l' = l \<longrightarrow> s \<le> s'))"

lemma best_zero_run_best:
  assumes "i \<le> length groups" and "l = 0 \<or> zero_run groups s l \<and> s < i" and "best_before groups i s l"
    and "best_zero_run groups i s l = (s', l')"
  shows "(l' = 0 \<or> zero_run groups s' l') \<and> best_before groups (length groups) s' l'"
  using assms
proof (induction groups i s l rule: best_zero_run.induct)
  case (1 groups i s l)
  note prems = "1.prems" and IH = "1.IH"
  let ?e = "zero_run_end groups i"
  consider "i = length groups" | "i < length groups" "groups ! i \<noteq> 0" | "i < length groups" "groups ! i = 0"
    using prems(1) by linarith
  then show ?case
  proof cases
    case 1
    then have "best_zero_run groups i s l = (s, l)" by (subst best_zero_run.simps) simp
    with 1 prems show ?thesis by auto
  next
    case 2
    have run: "best_zero_run groups (i + 1) s l = (s', l')"
      using 2 prems(4) by (subst (asm) best_zero_run.simps) simp
    have "\<not> zero_run groups i l'" if "0 < l'" for l'
      using that 2 by (auto simp: zero_run_def)
    then have "best_before groups (i + 1) s l"
      using prems(3) unfolding best_before_def by (metis Suc_eq_plus1 less_antisym)
    then show ?thesis using IH(1) 2 run prems by auto
  next
    case 3
    have e: "zero_run groups i (?e - i)" "?e < length groups \<longrightarrow> groups ! ?e \<noteq> 0" "i < ?e" "?e \<le> length groups"
      using zero_run_end_run [of i groups] zero_run_end_le [of "i + 1" groups] 3
      by (auto simp: zero_run_end.simps [of groups i] zero_run_def)
    have cover: "l2 \<le> ?e - i \<and> (l2 = ?e - i \<longrightarrow> s2 = i)"
      if "zero_run groups s2 l2" "0 < l2" "s2 < ?e" "i \<le> s2" for s2 l2
    proof -
      have "\<not> ?e < s2 + l2" using that(1,3) e(2,4) by (auto simp: zero_run_def)
      then show ?thesis using that by auto
    qed
    have unfold: "best_zero_run groups i s l
        = (if ?e - i > l then best_zero_run groups ?e i (?e - i) else best_zero_run groups ?e s l)"
      using 3 by (subst best_zero_run.simps) (simp add: Let_def)
    show ?thesis
    proof (cases "?e - i > l")
      case True
      have "best_before groups ?e i (?e - i)"
        using prems(3) cover True unfolding best_before_def by (meson le_trans linorder_le_less_linear order_less_imp_le order_less_le_trans less_irrefl)
      then show ?thesis using IH(2) [OF 3(1) _ refl True] 3 unfold True prems e by auto
    next
      case False
      have "best_before groups ?e s l"
        unfolding best_before_def
      proof (intro allI impI)
        fix s2 l2 assume r: "zero_run groups s2 l2 \<and> 0 < l2 \<and> s2 < ?e"
        show "l2 \<le> l \<and> (l2 = l \<longrightarrow> s \<le> s2)"
          using r cover [of s2 l2] prems(2,3) False e(3) unfolding best_before_def
          by (cases "s2 < i") auto
      qed
      then show ?thesis using IH(3) [OF 3(1) _ refl False] 3 unfold False prems e by auto
    qed
  qed
qed

lemma best_zero_run_first:
  assumes "best_zero_run groups 0 (length groups) 0 = (s, l)"
  shows "(l = 0 \<or> zero_run groups s l) \<and>
    (\<forall>s' l'. zero_run groups s' l' \<and> 0 < l' \<longrightarrow> l' \<le> l \<and> (l' = l \<longrightarrow> s \<le> s'))"
proof -
  have "zero_run groups s' l' \<and> 0 < l' \<Longrightarrow> s' < length groups" for s' l'
    by (auto simp: zero_run_def)
  then show ?thesis
    using best_zero_run_best [OF _ _ _ assms] unfolding best_before_def by auto
qed

section \<open>Reading the text back\<close>

lemma colon_not_hex [simp]: "ip_hex_digit c_colon < 0"
  by (simp add: ip_hex_digit_def)

lemma group_text_hd: "g < 65536 \<Longrightarrow> group_text g \<noteq> [] \<and> hd (group_text g) \<noteq> c_colon"
proof -
  assume g: "g < 65536"
  have "group_text g \<noteq> []" using group_text_size(1) [of g] by auto
  moreover from this have "lower_hex_digit (hd (group_text g))" using group_text_hex [OF g] by simp
  ultimately show ?thesis by (auto simp: lower_hex_digit_def)
qed

lemma ucast_group: "g < 65536 \<Longrightarrow> ucast (of_nat g :: u32) = (of_nat g :: u16)"
  by (simp add: unsigned_of_nat take_bit_nat_eq_self)

lemma ipv6_groups_last:
  assumes "g < 65536" and "filled < length groups"
  shows "ipv6_groups (pre @ group_text g) groups filled gap (length pre)
      = Some (Some (groups[filled := of_nat g], filled + 1, gap))"
  using ipv6_digits_group [of g "[]" pre] group_text_size [of g] assms
  by (subst ipv6_groups.simps) (simp add: ucast_group)

lemma ipv6_groups_next:
  assumes "g < 65536" and "filled < length groups" and "rest \<noteq> []" and "hd rest \<noteq> c_colon"
  shows "ipv6_groups (pre @ group_text g @ c_colon # rest) groups filled gap (length pre)
      = ipv6_groups (pre @ group_text g @ c_colon # rest) (groups[filled := of_nat g]) (filled + 1) gap
          (length pre + length (group_text g) + 1)"
proof -
  let ?t = "pre @ group_text g @ c_colon # rest"
  have at: "?t ! (length pre + length (group_text g)) = c_colon"
    "?t ! (length pre + length (group_text g) + 1) \<noteq> c_colon"
    using assms(3,4) by (simp_all add: nth_append hd_conv_nth)
  show ?thesis
    using ipv6_digits_group [of g "c_colon # rest" pre] group_text_size [of g] assms at
    by (subst ipv6_groups.simps) (simp add: ucast_group)
qed

lemma ipv6_groups_double:
  assumes "g < 65536" and "filled < length groups"
  shows "ipv6_groups (pre @ group_text g @ c_colon # c_colon # rest) groups filled None (length pre)
      = ipv6_groups (pre @ group_text g @ c_colon # c_colon # rest) (groups[filled := of_nat g]) (filled + 1)
          (Some (filled + 1)) (length pre + length (group_text g) + 2)"
proof -
  let ?t = "pre @ group_text g @ c_colon # c_colon # rest"
  have at: "?t ! (length pre + length (group_text g)) = c_colon"
    "?t ! (length pre + length (group_text g) + 1) = c_colon"
    by (simp_all add: nth_append)
  show ?thesis
    using ipv6_digits_group [of g "c_colon # c_colon # rest" pre] group_text_size [of g] assms at
    by (subst ipv6_groups.simps) (simp add: ucast_group)
qed

definition fill :: "u16 list \<Rightarrow> nat \<Rightarrow> nat list \<Rightarrow> u16 list" where
  "fill groups n gs = take n groups @ map of_nat gs @ drop (n + length gs) groups"

lemma fill_Cons: "n < length groups \<Longrightarrow> fill (groups[n := of_nat g]) (Suc n) gs = fill groups n (g # gs)"
  by (simp add: fill_def take_Suc_conv_app_nth)

lemma length_fill [simp]: "n + length gs \<le> length groups \<Longrightarrow> length (fill groups n gs) = length groups"
  by (simp add: fill_def)

text \<open>A list of groups up to the end of the text, and one up to the double colon.\<close>

lemma ipv6_groups_end:
  assumes "\<forall>g \<in> set gs. g < 65536" and "gs \<noteq> []" and "filled + length gs \<le> length groups"
  shows "ipv6_groups (pre @ colon_text gs) groups filled gap (length pre)
      = Some (Some (fill groups filled gs, filled + length gs, gap))"
  using assms
proof (induction gs arbitrary: pre groups filled)
  case (Cons g gs)
  show ?case
  proof (cases "gs = []")
    case True
    with Cons.prems show ?thesis
      by (simp add: ipv6_groups_last fill_def upd_conv_take_nth_drop)
  next
    case False
    let ?pre = "pre @ group_text g @ [c_colon]"
    have "hd (colon_text gs) \<noteq> c_colon" "colon_text gs \<noteq> []"
      using False Cons.prems(1) group_text_hd by (cases gs; simp)+
    then have "ipv6_groups (pre @ colon_text (g # gs)) groups filled gap (length pre)
        = ipv6_groups (?pre @ colon_text gs) (groups[filled := of_nat g]) (filled + 1) gap (length ?pre)"
      using Cons.prems False ipv6_groups_next [of g filled groups "colon_text gs" pre gap]
      by (simp add: sep_text_colon)
    also have "\<dots> = Some (Some (fill (groups[filled := of_nat g]) (filled + 1) gs, filled + 1 + length gs, gap))"
      using Cons.prems False by (intro Cons.IH) simp_all
    finally show ?thesis using Cons.prems by (simp add: fill_Cons)
  qed
qed simp

lemma ipv6_groups_gap:
  assumes "\<forall>g \<in> set gs. g < 65536" and "gs \<noteq> []" and "filled + length gs \<le> length groups"
  shows "ipv6_groups (pre @ colon_text gs @ c_colon # c_colon # rest) groups filled None (length pre)
      = ipv6_groups (pre @ colon_text gs @ c_colon # c_colon # rest) (fill groups filled gs) (filled + length gs)
          (Some (filled + length gs)) (length pre + length (colon_text gs) + 2)"
  using assms
proof (induction gs arbitrary: pre groups filled)
  case (Cons g gs)
  show ?case
  proof (cases "gs = []")
    case True
    with Cons.prems show ?thesis
      by (simp add: ipv6_groups_double fill_def upd_conv_take_nth_drop)
  next
    case False
    let ?pre = "pre @ group_text g @ [c_colon]"
    have "hd (colon_text gs @ c_colon # c_colon # rest) \<noteq> c_colon"
      using False Cons.prems(1) group_text_hd by (cases gs) simp_all
    then have "ipv6_groups (pre @ colon_text (g # gs) @ c_colon # c_colon # rest) groups filled None (length pre)
        = ipv6_groups (?pre @ colon_text gs @ c_colon # c_colon # rest) (groups[filled := of_nat g]) (filled + 1)
            None (length ?pre)"
      using Cons.prems False
        ipv6_groups_next [of g filled groups "colon_text gs @ c_colon # c_colon # rest" pre None]
      by (simp add: sep_text_colon)
    also have "\<dots> = ipv6_groups (?pre @ colon_text gs @ c_colon # c_colon # rest)
        (fill (groups[filled := of_nat g]) (filled + 1) gs) (filled + 1 + length gs)
          (Some (filled + 1 + length gs)) (length ?pre + length (colon_text gs) + 2)"
      using Cons.prems False by (intro Cons.IH) simp_all
    finally show ?thesis using Cons.prems False by (simp add: fill_Cons sep_text_colon add.assoc)
  qed
qed simp

section \<open>Closing the gap\<close>

lemma move_tail_at:
  assumes "length groups = 8" and "gap \<le> b" and "b + tail = 8" and "k \<le> tail"
  shows "\<exists>r. move_tail gap tail k groups = Some r \<and> length r = 8 \<and>
    (\<forall>i < 8. r ! i = (if b \<le> i \<and> i < b + k then groups ! (gap + (i - (b))) else groups ! i))"
  using assms
proof (induction k arbitrary: groups)
  case (Suc k)
  let ?next = "groups[b + k := groups ! (gap + k)]"
  have run: "move_tail gap tail (Suc k) groups = move_tail gap tail k ?next"
  proof -
    have "size_sub 8 tail = Some b" using Suc.prems(3) by (simp add: size_sub_eq_Some)
    then show ?thesis using Suc.prems by simp
  qed
  obtain r where r: "move_tail gap tail k ?next = Some r" "length r = 8"
    "\<And>i. i < 8 \<Longrightarrow> r ! i = (if b \<le> i \<and> i < b + k then ?next ! (gap + (i - b)) else ?next ! i)"
    using Suc.IH [of ?next] Suc.prems by auto
  have "r ! i = (if b \<le> i \<and> i < b + Suc k then groups ! (gap + (i - b)) else groups ! i)" if "i < 8" for i
  proof -
    consider "i = b + k" | "b \<le> i" "i < b + k" | "i < b \<or> b + k < i" by linarith
    then show ?thesis
    proof cases
      case 1
      with r(3) [OF that] that Suc.prems show ?thesis by simp
    next
      case 2
      moreover from 2 Suc.prems have "gap + (i - b) \<noteq> b + k" by linarith
      ultimately show ?thesis using r(3) [OF that] by simp
    next
      case 3
      with r(3) [OF that] show ?thesis by auto
    qed
  qed
  with run r show ?case by auto
qed auto

lemma clear_gap_eq:
  assumes "stop \<le> length groups" and "position \<le> stop"
  shows "clear_gap position stop groups
      = Some (take position groups @ replicate (stop - position) 0 @ drop stop groups)"
  using assms
proof (induction "stop - position" arbitrary: position groups)
  case 0
  then show ?case by (subst clear_gap.simps) simp
next
  case (Suc n)
  have less: "position < stop" using Suc.hyps(2) by simp
  have "clear_gap position stop groups = clear_gap (position + 1) stop (groups[position := 0])"
    using less Suc.prems by (subst clear_gap.simps) simp
  also have "\<dots> = Some (take (position + 1) (groups[position := 0]) @ replicate (stop - (position + 1)) 0
      @ drop stop (groups[position := 0]))"
    using Suc.hyps(2) Suc.prems by (intro Suc.hyps(1)) simp_all
  also have "take (position + 1) (groups[position := 0]) = take position groups @ [0]"
    using Suc.hyps(2) Suc.prems by (simp add: take_Suc_conv_app_nth)
  also have "replicate (stop - position) 0 = (0 :: u16) # replicate (stop - (position + 1)) 0"
    using Suc.hyps(2) by (simp add: Suc_diff_Suc [symmetric])
  ultimately show ?case using Suc.hyps(2) Suc.prems by simp
qed

lemma close_gap:
  assumes "length groups = 8" and "gap + tail \<le> 8"
  shows "(move_tail gap tail tail groups \<bind> clear_gap gap (8 - tail))
      = Some (take gap groups @ replicate (8 - tail - gap) 0 @ take tail (drop gap groups))"
proof -
  obtain r where r: "move_tail gap tail tail groups = Some r" "length r = 8"
    "\<And>i. i < 8 \<Longrightarrow> r ! i = (if 8 - tail \<le> i \<and> i < 8 - tail + tail then groups ! (gap + (i - (8 - tail))) else groups ! i)"
    using move_tail_at [of groups gap "8 - tail" tail tail] assms by auto
  have "take gap r = take gap groups"
    by (rule nth_equalityI) (use assms r in auto)
  moreover have "drop (8 - tail) r = take tail (drop gap groups)"
    by (rule nth_equalityI) (use assms r in auto)
  ultimately show ?thesis using r assms by (simp add: clear_gap_eq)
qed

definition group_bytes :: "u16 list \<Rightarrow> bytes" where
  "group_bytes gs = concat (map (\<lambda>g. [ucast (drop_bit 8 g), ucast (g AND 0xff)]) gs)"

lemma length_group_bytes [simp]: "length (group_bytes gs) = 2 * length gs"
  by (induction gs) (simp_all add: group_bytes_def)

lemma put_groups_eq:
  assumes "2 * (i + length gs) \<le> length out"
  shows "put_groups i gs out = Some (take (2 * i) out @ group_bytes gs @ drop (2 * (i + length gs)) out)"
  using assms
proof (induction gs arbitrary: i out)
  case (Cons g gs)
  let ?next = "out[i * 2 := ucast (drop_bit 8 g), i * 2 + 1 := ucast (g AND 0xff)]"
  have "put_groups i (g # gs) out = put_groups (i + 1) gs ?next"
    using Cons.prems by (simp add: put_byte_def)
  also have "\<dots> = Some (take (2 * (i + 1)) ?next @ group_bytes gs @ drop (2 * (i + 1 + length gs)) ?next)"
    using Cons.prems by (intro Cons.IH) simp
  also have "take (2 * (i + 1)) ?next = take (2 * i) out @ [ucast (drop_bit 8 g), ucast (g AND 0xff)]"
    using Cons.prems by (simp add: take_Suc_conv_app_nth mult.commute)
  finally show ?case using Cons.prems by (simp add: group_bytes_def mult.commute)
qed (simp add: group_bytes_def)

lemma ipv6_groups_done: "length text \<le> index \<Longrightarrow> ipv6_groups text groups filled gap index = Some (Some (groups, filled, gap))"
  by (subst ipv6_groups.simps) simp

text \<open>After the double colon the rest of the text gives the groups at the end.\<close>

lemma ipv6_groups_rest:
  assumes "\<forall>g \<in> set gs. g < 65536" and "filled + length gs \<le> length groups"
  shows "ipv6_groups (pre @ colon_text gs) groups filled gap (length pre)
      = Some (Some (fill groups filled gs, filled + length gs, gap))"
  using ipv6_groups_end [of gs filled groups pre gap] assms
  by (cases "gs = []") (simp_all add: ipv6_groups_done fill_def)

lemma parse_ipv6_plain:
  assumes "length gs = 8" and "\<forall>g \<in> set gs. g < 65536" and "length out = 16"
  shows "parse_ipv6 (colon_text gs) out = Some (Some (group_bytes (map of_nat gs)))"
proof -
  obtain g gs' where gs: "gs = g # gs'" using assms(1) by (cases gs) auto
  have first: "colon_text gs \<noteq> []" "colon_text gs ! 0 \<noteq> c_colon"
    using group_text_hd [of g] gs assms(2) by (auto simp: nth_append hd_conv_nth)
  have scan: "ipv6_groups (colon_text gs) (replicate 8 0) 0 None 0 = Some (Some (map of_nat gs, 8, None))"
    using ipv6_groups_end [of gs 0 "replicate 8 0" "[]" None] assms gs by (simp add: fill_def)
  show ?thesis
    unfolding parse_ipv6_def using first scan assms
    by (simp add: place_groups_def put_groups_eq)
qed

lemma gap_scan:
  assumes "\<forall>g \<in> set (as @ bs). g < 65536" and "length as + length bs \<le> 7"
  shows "\<exists>groups. ipv6_groups (colon_text as @ c_colon # c_colon # colon_text bs) (replicate 8 0) 0
        (if as = [] then Some 0 else None) (if as = [] then 2 else 0)
      = Some (Some (groups, length as + length bs, Some (length as))) \<and>
      groups = map of_nat as @ map of_nat bs @ replicate (8 - length as - length bs) 0"
proof (cases "as = []")
  case True
  then show ?thesis
    using ipv6_groups_rest [of bs 0 "replicate 8 0" "[c_colon, c_colon]" "Some 0"] assms
    by (simp add: fill_def numeral_2_eq_2)
next
  case False
  let ?t = "colon_text as @ c_colon # c_colon # colon_text bs"
  have "ipv6_groups ?t (replicate 8 0) 0 None 0
      = ipv6_groups ?t (fill (replicate 8 0) 0 as) (length as) (Some (length as)) (length (colon_text as) + 2)"
    using ipv6_groups_gap [of as 0 "replicate 8 0" "[]" "colon_text bs"] assms False by simp
  also have "\<dots> = Some (Some (fill (fill (replicate 8 0) 0 as) (length as) bs, length as + length bs, Some (length as)))"
    using ipv6_groups_rest [of bs "length as" "fill (replicate 8 0) 0 as" "colon_text as @ [c_colon, c_colon]"
        "Some (length as)"] assms by simp
  finally show ?thesis using False assms by (simp add: fill_def)
qed

lemma parse_ipv6_gap:
  assumes "\<forall>g \<in> set (as @ bs). g < 65536" and "length as + length bs \<le> 7" and "length out = 16"
  shows "parse_ipv6 (colon_text as @ c_colon # c_colon # colon_text bs) out
      = Some (Some (group_bytes (map of_nat as @ replicate (8 - length as - length bs) 0 @ map of_nat bs)))"
proof -
  let ?t = "colon_text as @ c_colon # c_colon # colon_text bs"
  let ?groups = "map of_nat as @ map of_nat bs @ replicate (8 - length as - length bs) (0 :: u16)"
  have "as \<noteq> [] \<Longrightarrow> colon_text as ! 0 \<noteq> c_colon \<and> colon_text as \<noteq> []"
    using assms(1) group_text_hd by (cases as) (auto simp: nth_append hd_conv_nth)
  then have start: "(?t ! 0 = c_colon \<and> ?t ! 1 = c_colon) \<longleftrightarrow> as = []" "?t ! 0 = c_colon \<longleftrightarrow> as = []"
    "length ?t \<ge> 2" "?t \<noteq> []"
    by (auto simp: nth_append)
  have scan: "ipv6_groups ?t (replicate 8 0) 0 (if as = [] then Some 0 else None) (if as = [] then 2 else 0)
      = Some (Some (?groups, length as + length bs, Some (length as)))"
    using gap_scan [OF assms(1,2)] by auto
  have close: "(move_tail (length as) (length bs) (length bs) ?groups \<bind> clear_gap (length as) (8 - length bs))
      = Some (map of_nat as @ replicate (8 - length bs - length as) 0 @ map of_nat bs)"
    using close_gap [of ?groups "length as" "length bs"] assms(2) by simp
  then obtain g1 where g1: "move_tail (length as) (length bs) (length bs) ?groups = Some g1"
    "clear_gap (length as) (8 - length bs) g1 = Some (map of_nat as @ replicate (8 - length bs - length as) 0 @ map of_nat bs)"
    by (auto simp: bind_eq_Some_conv)
  show ?thesis
    unfolding parse_ipv6_def using start scan g1 assms
    by (cases "as = []") (simp_all add: place_groups_def put_groups_eq add.commute)
qed

section \<open>Addresses as groups\<close>

fun addr_groups :: "bytes \<Rightarrow> nat list" where
  "addr_groups (a # b # rest) = (256 * unat a + unat b) # addr_groups rest"
| "addr_groups rest = []"

lemma length_addr_groups [simp]: "length (addr_groups a) = length a div 2"
  by (induction a rule: addr_groups.induct) auto

lemma group_less: "256 * unat (a :: u8) + unat (b :: u8) < 65536"
  using unat_u8_less [of a] unat_u8_less [of b] by linarith

lemma addr_groups_less: "\<forall>g \<in> set (addr_groups a). g < 65536"
  by (induction a rule: addr_groups.induct) (simp_all add: group_less)

lemma group_bytes_addr: "even (length a) \<Longrightarrow> group_bytes (map of_nat (addr_groups a)) = a"
proof (induction a rule: addr_groups.induct)
  case (1 a b rest)
  have n: "256 * unat a + unat b < 65536" by (rule group_less)
  have mask: "(0xff :: u16) = mask 8" by (simp add: mask_eq_exp_minus_1)
  have "unat (ucast (drop_bit 8 (of_nat (256 * unat a + unat b) :: u16)) :: u8) = unat a"
    unfolding unsigned_ucast_eq unat_drop_bit_eq
    using n by (simp add: unat_of_nat take_bit_eq_mod drop_bit_eq_div del: of_nat_add of_nat_mult)
  moreover have "unat (ucast ((of_nat (256 * unat a + unat b) :: u16) AND 0xff) :: u8) = unat b"
    unfolding mask take_bit_eq_mask [symmetric] unsigned_ucast_eq unsigned_take_bit_eq
    using n by (simp add: unat_of_nat take_bit_eq_mod del: of_nat_add of_nat_mult)
  ultimately show ?case using 1 by (simp add: group_bytes_def word_unat_eq_iff del: of_nat_add of_nat_mult)
qed (simp_all add: group_bytes_def)

lemma read_groups_eq:
  assumes "2 * (i + k) \<le> length address"
  shows "read_groups k i address = Some (map of_nat (take k (addr_groups (drop (2 * i) address))))"
  using assms
proof (induction k i address rule: read_groups.induct)
  case (2 k i address)
  let ?a = "address ! (2 * i)" and ?b = "address ! (2 * i + 1)"
  have "drop (2 * i) address = ?a # ?b # drop (2 * (i + 1)) address"
    using 2 by (simp add: Cons_nth_drop_Suc)
  moreover have "push_bit 8 (ucast ?a) OR ucast ?b = (of_nat (256 * unat ?a + unat ?b) :: u32)"
  proof -
    have "unat (ucast ?b :: u32) = unat ?b"
      unfolding unsigned_ucast_eq by (rule take_bit_nat_eq_self) (rule less_trans [OF unat_u8_less], simp)
    then have "unat (ucast ?b :: u32) < 2 ^ 8" by simp
    from or_shifted [OF this, of "ucast ?a"]
    show ?thesis by (simp add: push_bit_eq_mult)
  qed
  ultimately show ?case using 2 by (simp add: mult.commute del: of_nat_add of_nat_mult)
qed simp

end
