(* ===== verification/Ip_Canonical.thy ===== *)
theory Ip_Canonical
  imports Ip_Text
begin

text \<open>
  Canonical networks: the network parsers accept exactly the texts the writer gives for valid
  networks, and the prefix match compares exactly the leading bits.
\<close>

section \<open>The text of a network\<close>

definition ip_text :: "IpFamily \<Rightarrow> bytes \<Rightarrow> bytes" where
  "ip_text family address =
     (if family = V4 then dotted (map unat (take 4 address))
      else
        (let gs = addr_groups address; (s, l) = best_zero_run (map of_nat gs) 0 8 0 in
         if l < 2 then colon_text gs else gap_text s l gs))"

definition max_prefix :: "IpFamily \<Rightarrow> nat" where
  "max_prefix family = (if family = V4 then 32 else 128)"

text \<open>The networks the C++ type can hold: IPv4 uses the first four bytes of the array.\<close>

definition address_ok :: "IpFamily \<Rightarrow> bytes \<Rightarrow> bool" where
  "address_ok family address \<longleftrightarrow>
     length address = 16 \<and> (family = V4 \<longrightarrow> drop 4 address = replicate 12 0)"

definition interface_ok :: "IpNetwork \<Rightarrow> bool" where
  "interface_ok n \<longleftrightarrow>
     address_ok (n_family n) (n_address n) \<and> unat (n_prefix_length n) \<le> max_prefix (n_family n)"

definition network_text :: "IpNetwork \<Rightarrow> bytes" where
  "network_text n = ip_text (n_family n) (n_address n) @ c_slash # decimal_text (unat (n_prefix_length n))"

lemma list16_split4:
  assumes "length a = 16"
  obtains b0 b1 b2 b3 where "take 4 a = [b0, b1, b2, b3]" "a = [b0, b1, b2, b3] @ drop 4 a"
proof -
  obtain b0 b1 b2 b3 rest where "a = b0 # b1 # b2 # b3 # rest"
    using list4E [of a] assms by (metis numeral_le_iff semiring_norm(68,69,71,72))
  then show ?thesis by (intro that) simp_all
qed

lemma of_nat_unat_u8: "(of_nat (unat (b :: u8)) :: u32) = ucast b"
  by simp

lemma append_octet:
  assumes "length out + 3 \<le> kMaxIpNetworkTextBytes"
  shows "append_ip_decimal (ucast (b :: u8)) out = Some (out @ decimal_text (unat b))"
  using append_decimal_eq [of "unat b" out] assms decimal_text_size(2) [of "unat b"] unat_u8_less [of b]
  by simp

lemma put_octets_text:
  assumes "length a = 16"
  shows "put_octets 4 0 a [] = Some (dotted (map unat (take 4 a)))"
proof -
  obtain b0 b1 b2 b3 where b: "take 4 a = [b0, b1, b2, b3]" "a = [b0, b1, b2, b3] @ drop 4 a"
    using list16_split4 [OF assms] .
  have "drop 1 a = map of_nat (map unat [b1, b2, b3]) @ drop 4 a" by (subst b(2)) simp
  then have "put_octets (length (map unat [b1, b2, b3])) 1 a (decimal_text (unat b0))
      = Some (decimal_text (unat b0) @ concat (map (\<lambda>n. c_dot # decimal_text n) (map unat [b1, b2, b3])))"
    using decimal_text_size(2) [of "unat b0"]
    by (intro put_octets_dotted) (auto simp: kMaxIpNetworkTextBytes_def)
  moreover have "byte_at a 0 = Some b0" using assms by (subst b(2)) (simp add: byte_at_def)
  ultimately show ?thesis
    using b(1) by (simp add: append_octet kMaxIpNetworkTextBytes_def eval_nat_numeral)
qed

lemma best_run_cases:
  assumes "length gs = 8" and "best_zero_run (map of_nat gs) 0 8 0 = (s, l)" and "2 \<le> l"
    and "\<forall>g \<in> set gs. g < 65536"
  shows "s + l \<le> 8" and "gs = take s gs @ replicate l 0 @ drop (s + l) gs"
proof -
  have run: "zero_run (map of_nat gs) s l"
    using best_zero_run_first [of "map of_nat gs" s l] assms by auto
  then show le: "s + l \<le> 8" using assms(1) by (simp add: zero_run_def)
  have "gs ! k = 0" if "s \<le> k" "k < s + l" for k
  proof -
    have "(of_nat (gs ! k) :: u32) = 0" using run that le assms(1) by (auto simp: zero_run_def)
    moreover have "gs ! k < 65536" using assms(1,4) that le by simp
    ultimately show ?thesis by (simp add: word_unat_eq_iff unat_of_nat)
  qed
  then have "take l (drop s gs) = replicate l 0"
    using le assms(1) by (intro nth_equalityI) auto
  then show "gs = take s gs @ replicate l 0 @ drop (s + l) gs"
    by (metis append_take_drop_id drop_drop add.commute)
qed

lemma format_ipv6_text:
  assumes "length a = 16"
  shows "format_ipv6 a [] = Some (ip_text V6 a)"
proof -
  let ?gs = "addr_groups a"
  obtain s l where run: "best_zero_run (map of_nat ?gs) 0 8 0 = (s, l)" by fastforce
  have read: "read_groups 8 0 a = Some (map of_nat ?gs)"
    using read_groups_eq [of 0 8 a] assms by simp
  show ?thesis
    using read run assms addr_groups_less [of a] best_run_cases [OF _ run]
    by (auto simp: format_ipv6_def ip_text_def put_groups_plain put_groups_gap)
qed

lemma ip_text_size:
  assumes "length a = 16"
  shows "length (ip_text family a) \<le> 39"
proof (cases family)
  case V4
  then show ?thesis
    using dotted_size [of "map unat (take 4 a)"] assms by (auto simp: ip_text_def)
next
  case V6
  let ?gs = "addr_groups a"
  obtain s l where run: "best_zero_run (map of_nat ?gs) 0 8 0 = (s, l)" by fastforce
  have "length (gap_text s l ?gs) \<le> 39" if "2 \<le> l"
    using best_run_cases(1) [OF _ run that addr_groups_less] assms
      colon_text_size [of "take s ?gs"] colon_text_size [of "drop (s + l) ?gs"] that
    by (simp add: gap_text_def)
  then show ?thesis
    using V6 run colon_text_size [of ?gs] assms by (auto simp: ip_text_def Let_def)
qed

lemma format_network_text:
  assumes "interface_ok n"
  shows "format_ip_network n = Some (network_text n)"
proof -
  have a: "length (n_address n) = 16" using assms by (simp add: interface_ok_def address_ok_def)
  have "(if n_family n = V4 then put_octets 4 0 (n_address n) [] else format_ipv6 (n_address n) [])
      = Some (ip_text (n_family n) (n_address n))"
    using format_ipv6_text [OF a] put_octets_text [OF a]
    by (cases "n_family n") (simp_all add: ip_text_def)
  then show ?thesis
    using ip_text_size [OF a, of "n_family n"]
    by (simp add: format_ip_network_def put_char_def append_octet network_text_def kMaxIpNetworkTextBytes_def)
qed

lemma network_text_size:
  assumes "interface_ok n"
  shows "length (network_text n) \<le> kMaxIpNetworkTextBytes"
  using assms ip_text_size [of "n_address n" "n_family n"] decimal_text_size(2) [of "unat (n_prefix_length n)"]
  by (simp add: network_text_def interface_ok_def address_ok_def kMaxIpNetworkTextBytes_def)

section \<open>Reading a network back\<close>

lemma dotted_chars:
  "\<forall>n \<in> set ns. n < 256 \<Longrightarrow> c \<in> set (dotted ns) \<Longrightarrow> (48 \<le> c \<and> c \<le> 57) \<or> c = c_dot"
proof (induction ns rule: dotted.induct)
  case (2 n)
  then show ?case using decimal_text_chars [of n c] by simp
next
  case (3 n m ns)
  then show ?case using decimal_text_chars [of n c] by auto
qed simp

lemma colon_text_chars:
  "\<forall>g \<in> set gs. g < 65536 \<Longrightarrow> c \<in> set (colon_text gs) \<Longrightarrow> lower_hex_digit c \<or> c = c_colon"
  using group_text_hex by (cases gs) (auto simp: sep_text_def split: if_splits)

lemma colon_text_colon: "2 \<le> length gs \<Longrightarrow> c_colon \<in> set (colon_text gs)"
  by (cases gs rule: colon_text.cases; cases "tl gs") (auto simp: sep_text_def)

lemma ip_text_chars:
  assumes "c \<in> set (ip_text family a)"
  shows "(48 \<le> c \<and> c \<le> 57) \<or> (97 \<le> c \<and> c \<le> 102) \<or> c = (if family = V4 then c_dot else c_colon)"
proof (cases family)
  case V4
  then show ?thesis
    using assms dotted_chars [of "map unat (take 4 a)" c] by (auto simp: ip_text_def)
next
  case V6
  let ?gs = "addr_groups a"
  obtain s l where run: "best_zero_run (map of_nat ?gs) 0 8 0 = (s, l)" by fastforce
  have less: "\<forall>g \<in> set (take s ?gs). g < 65536" "\<forall>g \<in> set (drop (s + l) ?gs). g < 65536"
    using addr_groups_less [of a] by (meson in_set_takeD in_set_dropD)+
  have "c \<in> set (colon_text ?gs) \<or> c \<in> set (colon_text (take s ?gs)) \<or>
      c \<in> set (colon_text (drop (s + l) ?gs)) \<or> c = c_colon"
    using assms V6 run by (auto simp: ip_text_def gap_text_def Let_def split: if_splits)
  then have "lower_hex_digit c \<or> c = c_colon"
    using colon_text_chars [OF addr_groups_less, of c a] colon_text_chars [OF less(1), of c]
      colon_text_chars [OF less(2), of c] by blast
  with V6 show ?thesis by (auto simp: lower_hex_digit_def)
qed

lemma ip_text_colon:
  assumes "length a = 16"
  shows "c_colon \<in> set (ip_text family a) \<longleftrightarrow> family = V6"
proof (cases family)
  case V4
  then show ?thesis using ip_text_chars [of c_colon V4 a] by auto
next
  case V6
  obtain s l where run: "best_zero_run (map of_nat (addr_groups a)) 0 8 0 = (s, l)" by fastforce
  then show ?thesis
    using V6 colon_text_colon [of "addr_groups a"] assms
    by (auto simp: ip_text_def gap_text_def Let_def)
qed

lemma parse_ip_text:
  assumes "address_ok family a"
  shows "parse_ip_address (ip_text family a) = Some (Some (family, a, of_nat (max_prefix family)))"
proof (cases family)
  case V4
  obtain b0 b1 b2 b3 where b: "take 4 a = [b0, b1, b2, b3]" "a = [b0, b1, b2, b3] @ drop 4 a"
    using list16_split4 [of a] assms unfolding address_ok_def by blast
  have "parse_ipv4 (ip_text V4 a) (replicate 16 0)
      = Some (Some (take 0 (replicate 16 0) @ map of_nat (map unat (take 4 a)) @ drop 4 (replicate 16 0)))"
    unfolding parse_ipv4_def ip_text_def b(1) if_True simp_thms
    by (rule parse_ipv4_octets_dotted) auto
  moreover have "take 0 (replicate 16 0) @ map of_nat (map unat (take 4 a)) @ drop 4 (replicate 16 0) = a"
  proof -
    have "map of_nat (map unat (take 4 a)) = take 4 a" by (simp add: comp_def)
    moreover have "drop 4 a = replicate 12 0" using assms V4 by (simp add: address_ok_def)
    ultimately show ?thesis using append_take_drop_id [of 4 a] by simp
  qed
  ultimately show ?thesis
    using V4 ip_text_colon [of a V4] assms
    by (simp add: parse_ip_address_def default_IpNetwork_def max_prefix_def address_ok_def)
next
  case V6
  let ?gs = "addr_groups a"
  have a: "length a = 16" using assms by (simp add: address_ok_def)
  obtain s l where run: "best_zero_run (map of_nat ?gs) 0 8 0 = (s, l)" by fastforce
  have "parse_ipv6 (ip_text V6 a) (replicate 16 0) = Some (Some (group_bytes (map of_nat ?gs)))"
  proof (cases "l < 2")
    case True
    then show ?thesis
      using run parse_ipv6_plain [of ?gs "replicate 16 0"] addr_groups_less [of a] a
      by (simp add: ip_text_def)
  next
    case False
    then have fits: "s + l \<le> 8" "?gs = take s ?gs @ replicate l 0 @ drop (s + l) ?gs"
      using best_run_cases [OF _ run _ addr_groups_less] a by auto
    have "\<forall>g \<in> set (take s ?gs @ drop (s + l) ?gs). g < 65536"
      using addr_groups_less [of a] by (auto dest: in_set_takeD in_set_dropD)
    from parse_ipv6_gap [OF this, of "replicate 16 0"]
    have "parse_ipv6 (gap_text s l ?gs) (replicate 16 0)
        = Some (Some (group_bytes (map of_nat (take s ?gs) @ replicate l 0 @ map of_nat (drop (s + l) ?gs))))"
      using fits(1) False a by (simp add: gap_text_def)
    moreover have "map of_nat ?gs = map of_nat (take s ?gs) @ replicate l 0 @ (map of_nat (drop (s + l) ?gs) :: u16 list)"
      by (subst fits(2)) simp
    ultimately show ?thesis using run False by (simp add: ip_text_def)
  qed
  then show ?thesis
    using V6 ip_text_colon [of a V6] a group_bytes_addr [of a]
    by (simp add: parse_ip_address_def default_IpNetwork_def max_prefix_def)
qed

section \<open>No access out of range\<close>

lemma parse_ipv4_shape:
  assumes "octet \<le> 4" and "4 \<le> length out"
  shows "\<exists>r. parse_ipv4_octets octet text out = Some r \<and>
    (\<forall>a. r = Some a \<longrightarrow> length a = length out \<and> drop 4 a = drop 4 out)"
  using assms
proof (induction "4 - octet" arbitrary: octet "text" out)
  case 0
  then show ?case by (subst parse_ipv4_octets.simps) simp
next
  case (Suc n)
  have octet: "octet < 4" "octet < length out" using Suc.hyps(2) Suc.prems by simp_all
  have "\<exists>r. parse_ipv4_octets (Suc octet) t (out[octet := v]) = Some r \<and>
      (\<forall>a. r = Some a \<longrightarrow> length a = length out \<and> drop 4 a = drop 4 out)" for t v
    using Suc.hyps(1) [of "Suc octet" "out[octet := v]" t] Suc.hyps(2) Suc.prems octet by simp
  then show ?case
    using octet by (subst parse_ipv4_octets.simps) (auto simp: Let_def put_byte_def split: option.splits)
qed

lemma ipv6_digits_shape:
  assumes "start \<le> index" and "index \<le> length text"
  shows "\<exists>r. ipv6_digits text start index v = Some r"
  using assms
proof (induction "length text - index" arbitrary: index v)
  case 0
  then show ?case by (subst ipv6_digits.simps) simp
next
  case (Suc n)
  have less: "index < length text" using Suc.hyps(2) by simp
  have "\<exists>r. ipv6_digits text start (index + 1) w = Some r" for w
    using Suc.hyps(2) Suc.prems by (intro Suc.hyps(1)) simp_all
  then show ?case using less Suc.prems by (subst ipv6_digits.simps) (simp add: Let_def)
qed

lemma ipv6_groups_shape:
  assumes "length groups = 8" and "filled \<le> 8" and "\<forall>g. gap = Some g \<longrightarrow> g \<le> filled"
  shows "\<exists>r. ipv6_groups text groups filled gap index = Some r \<and>
    (\<forall>gs n g. r = Some (gs, n, g) \<longrightarrow> length gs = 8 \<and> n \<le> 8 \<and> (\<forall>k. g = Some k \<longrightarrow> k \<le> n))"
  using assms
proof (induction "length text - index" arbitrary: groups filled gap index rule: less_induct)
  case less
  show ?case
  proof (cases "index < length text")
    case True
    obtain r where r: "ipv6_digits text index index 0 = Some r"
      using ipv6_digits_shape [of index index "text" 0] True by auto
    have rec: "\<exists>r. ipv6_groups text (groups[filled := v]) (Suc filled) gap' index' = Some r \<and>
        (\<forall>gs n g. r = Some (gs, n, g) \<longrightarrow> length gs = 8 \<and> n \<le> 8 \<and> (\<forall>k. g = Some k \<longrightarrow> k \<le> n))"
      if "index < index'" "filled < 8" "\<forall>g. gap' = Some g \<longrightarrow> g \<le> Suc filled" for v gap' index'
      using that True less.prems by (intro less.hyps) auto
    show ?thesis
    proof (cases r)
      case None
      with r True show ?thesis by (subst ipv6_groups.simps) simp
    next
      case (Some sv)
      obtain stop v where sv: "sv = (stop, v)" by fastforce
      have stop: "index \<le> stop" "stop \<le> length text"
        using ipv6_digits_forward [of "text" index index 0 stop v] r Some sv True by auto
      show ?thesis
        using r True Some sv stop less.prems rec [of "stop + 2"] rec [of "stop + 1"]
        by (subst ipv6_groups.simps) (auto simp: le_Suc_eq)
    qed
  next
    case False
    with less.prems show ?thesis by (subst ipv6_groups.simps) simp
  qed
qed

lemma place_groups_shape:
  assumes "length gs = 8" and "n \<le> 8" and "\<forall>k. g = Some k \<longrightarrow> k \<le> n"
  shows "\<exists>r. place_groups gs n g = Some r \<and> (\<forall>gs'. r = Some gs' \<longrightarrow> length gs' = 8)"
proof (cases g)
  case (Some k)
  show ?thesis
  proof (cases "n \<le> 7")
    case True
    then have "\<exists>gs'. (move_tail k (n - k) (n - k) gs \<bind> clear_gap k (8 - (n - k))) = Some gs' \<and> length gs' = 8"
      using close_gap [of gs k "n - k"] assms Some by simp
    then obtain g1 g2 where "move_tail k (n - k) (n - k) gs = Some g1" "clear_gap k (8 - (n - k)) g1 = Some g2" "length g2 = 8"
      by (auto simp: bind_eq_Some_conv)
    then show ?thesis using Some True assms by (simp add: place_groups_def)
  qed (simp add: place_groups_def Some)
qed (use assms in \<open>simp add: place_groups_def\<close>)

lemma parse_ipv6_shape:
  assumes "length out = 16"
  shows "\<exists>r. parse_ipv6 text out = Some r \<and> (\<forall>a. r = Some a \<longrightarrow> length a = 16)"
proof -
  let ?double = "length text \<ge> 2 \<and> text ! 0 = c_colon \<and> text ! 1 = c_colon"
  let ?gap = "if ?double then Some (0 :: nat) else None" and ?index = "if ?double then 2 else 0"
  have "\<forall>g. ?gap = Some g \<longrightarrow> g \<le> 0" by (simp split: if_splits)
  then obtain r where r: "ipv6_groups text (replicate 8 0) 0 ?gap ?index = Some r"
    "\<forall>gs n g. r = Some (gs, n, g) \<longrightarrow> length gs = 8 \<and> n \<le> 8 \<and> (\<forall>k. g = Some k \<longrightarrow> k \<le> n)"
    using ipv6_groups_shape [of "replicate 8 0" 0 ?gap "text" ?index] by auto
  have "\<exists>a. (case r of None \<Rightarrow> Some None | Some (groups, filled, gap) \<Rightarrow> do {
           placed \<leftarrow> place_groups groups filled gap;
           case placed of
             None \<Rightarrow> Some None
           | Some groups \<Rightarrow> do { out \<leftarrow> put_groups 0 groups out; Some (Some out) }}) = Some a \<and>
      (\<forall>b. a = Some b \<longrightarrow> length b = 16)"
  proof (cases r)
    case (Some x)
    obtain gs n g where x: "x = (gs, n, g)" by (cases x)
    with Some r obtain p where "place_groups gs n g = Some p" "\<forall>gs'. p = Some gs' \<longrightarrow> length gs' = 8"
      using place_groups_shape [of gs n g] by blast
    then show ?thesis using Some x assms by (cases p) (simp_all add: put_groups_eq)
  qed simp
  then show ?thesis
    unfolding parse_ipv6_def using r(1) by (cases "text = []"; cases "2 \<le> length text") (auto split: if_splits)
qed

lemma parse_address_shape:
  "\<exists>r. parse_ip_address t = Some r \<and>
    (\<forall>family a maximum. r = Some (family, a, maximum) \<longrightarrow>
       address_ok family a \<and> maximum = of_nat (max_prefix family))"
proof (cases "c_colon \<in> set t")
  case True
  then show ?thesis
    using parse_ipv6_shape [of "replicate 16 0" t]
    by (auto simp: parse_ip_address_def default_IpNetwork_def address_ok_def max_prefix_def)
next
  case False
  then have "find_byte c_colon t = None" by simp
  then show ?thesis
    using parse_ipv4_shape [of 0 "replicate 16 0" t] False
    by (auto simp: parse_ip_address_def parse_ipv4_def default_IpNetwork_def address_ok_def max_prefix_def)
qed

lemma prefix_fits:
  assumes "parse_ip_decimal t (of_nat (max_prefix family)) = Some prefix"
  shows "unat (ucast prefix :: u8) = unat prefix" "unat prefix \<le> max_prefix family"
proof -
  show le: "unat prefix \<le> max_prefix family"
    using parse_ip_decimal_max [OF assms] by (simp add: word_le_nat_alt max_prefix_def unat_of_nat split: if_splits)
  then have "unat prefix < 256" by (simp add: max_prefix_def split: if_splits)
  then show "unat (ucast prefix :: u8) = unat prefix"
    unfolding unsigned_ucast_eq by (intro take_bit_nat_eq_self) simp
qed

section \<open>Canonical texts\<close>

definition network_of :: "IpInterfaceAddress \<Rightarrow> IpNetwork" where
  "network_of i = \<lparr>n_family = i_family i, n_address = i_address i, n_prefix_length = i_prefix_length i\<rparr>"

lemma network_eta [simp]: "\<lparr>n_family = n_family n, n_address = n_address n, n_prefix_length = n_prefix_length n\<rparr> = n"
  by simp

lemma parse_interface_text:
  assumes "interface_ok n"
  shows "parse_canonical_ip_interface (network_text n)
      = Some (Some \<lparr>i_family = n_family n, i_address = n_address n, i_prefix_length = n_prefix_length n\<rparr>)"
proof -
  let ?t = "ip_text (n_family n) (n_address n)" and ?p = "unat (n_prefix_length n)"
  have ok: "address_ok (n_family n) (n_address n)" "?p \<le> max_prefix (n_family n)"
    using assms by (simp_all add: interface_ok_def)
  have "c_slash \<notin> set ?t" using ip_text_chars [of c_slash "n_family n" "n_address n"] by (cases "n_family n") auto
  then have slash: "find_byte c_slash (network_text n) = Some (length ?t)"
    unfolding network_text_def by (rule find_byte_first)
  have "parse_ip_decimal (decimal_text ?p) (of_nat (max_prefix (n_family n))) = Some (of_nat ?p)"
    using ok(2) by (intro parse_decimal_text) (simp_all add: max_prefix_def unat_of_nat)
  moreover have prefix: "ucast (ucast (n_prefix_length n) :: u32) = n_prefix_length n"
    using ucast_of_u32 [of ?p] by simp
  ultimately show ?thesis
    using network_text_size [OF assms] slash parse_ip_text [OF ok(1)] format_network_text [OF assms]
    unfolding parse_canonical_ip_interface_def
    by (simp add: network_text_def Let_def prefix)
qed

lemma parse_interface_iff:
  "(parse_canonical_ip_interface t = Some (Some i) \<longleftrightarrow>
      interface_ok (network_of i) \<and> t = network_text (network_of i)) \<and>
   parse_canonical_ip_interface t \<noteq> None"
proof (cases "length t > kMaxIpNetworkTextBytes \<or> c_slash \<notin> set t")
  case True
  have "interface_ok (network_of i) \<and> t = network_text (network_of i) \<Longrightarrow> False"
    using True network_text_size [of "network_of i"] by (auto simp: network_text_def)
  moreover have "parse_canonical_ip_interface t = Some None"
    using True find_byte_None [of c_slash t]
    by (auto simp: parse_canonical_ip_interface_def simp del: find_byte_None)
  ultimately show ?thesis by auto
next
  case False
  then obtain slash where slash: "find_byte c_slash t = Some slash" by fastforce
  obtain r where r: "parse_ip_address (take slash t) = Some r"
    "\<And>family a maximum. r = Some (family, a, maximum) \<Longrightarrow>
       address_ok family a \<and> maximum = of_nat (max_prefix family)"
    using parse_address_shape [of "take slash t"] by blast
  have sound: "interface_ok (network_of i) \<and> t = network_text (network_of i)"
    if run: "parse_canonical_ip_interface t = Some (Some i)" for i
  proof -
    obtain family a maximum where parsed: "r = Some (family, a, maximum)"
      using run False slash r(1) unfolding parse_canonical_ip_interface_def by (cases r) auto
    note shape = r(2) [OF this]
    obtain prefix where decimal: "parse_ip_decimal (drop (slash + 1) t) maximum = Some prefix"
      using run False slash r(1) parsed unfolding parse_canonical_ip_interface_def
      by (cases "parse_ip_decimal (drop (slash + 1) t) maximum") auto
    have i: "network_of i = \<lparr>n_family = family, n_address = a, n_prefix_length = ucast prefix\<rparr>"
      "format_ip_network (network_of i) = Some t"
      using run False slash r(1) parsed decimal unfolding parse_canonical_ip_interface_def
      by (auto simp: Let_def network_of_def bind_eq_Some_conv split: if_splits)
    then have "interface_ok (network_of i)"
      using prefix_fits [of "drop (slash + 1) t" family prefix] decimal shape by (simp add: interface_ok_def)
    then show ?thesis using i(2) format_network_text by simp
  qed
  have "parse_canonical_ip_interface t \<noteq> None"
  proof -
    have ok: "interface_ok \<lparr>n_family = family, n_address = a, n_prefix_length = ucast prefix\<rparr>"
      if "r = Some (family, a, maximum)" "parse_ip_decimal (drop (Suc slash) t) maximum = Some prefix"
      for family a maximum prefix
      using r(2) [OF that(1)] prefix_fits [of "drop (Suc slash) t" family prefix] that(2)
      by (simp add: interface_ok_def)
    show ?thesis
      using False slash r(1) unfolding parse_canonical_ip_interface_def
      by (auto simp: Let_def ok [THEN format_network_text] split: option.splits)
  qed
  moreover have "parse_canonical_ip_interface t = Some (Some i)"
    if "interface_ok (network_of i) \<and> t = network_text (network_of i)"
    using parse_interface_text [of "network_of i"] that by (simp add: network_of_def)
  ultimately show ?thesis using sound by blast
qed

end
