(* ===== verification/Ip_Match.thy ===== *)
theory Ip_Match
  imports Ip_Canonical
begin

text \<open>
  The prefix match by whole bytes and a mask is the comparison of the leading bits, and the
  properties of the network parsers.
\<close>

section \<open>Bits of an address\<close>

definition addr_bit :: "bytes \<Rightarrow> nat \<Rightarrow> bool" where
  "addr_bit a k = bit (a ! (k div 8)) (7 - k mod 8)"

lemma test_bit: "drop_bit m b AND 1 \<noteq> 0 \<longleftrightarrow> bit (b :: u8) m"
  by (simp add: and_one_eq bit_iff_odd_drop_bit odd_iff_mod_2_eq_one)

lemma host_bits_zero_from_eq:
  assumes "stop \<le> 8 * length a"
  shows "host_bits_zero_from a position stop = Some (\<forall>k. position \<le> k \<and> k < stop \<longrightarrow> \<not> addr_bit a k)"
  using assms
proof (induction "stop - position" arbitrary: position)
  case 0
  then show ?case by (subst host_bits_zero_from.simps) auto
next
  case (Suc n)
  have less: "position < stop" "position div 8 < length a"
    using Suc.hyps(2) Suc.prems by (auto simp: div_less_iff_less_mult)
  have IH: "host_bits_zero_from a (position + 1) stop
      = Some (\<forall>k. position + 1 \<le> k \<and> k < stop \<longrightarrow> \<not> addr_bit a k)"
    using Suc.hyps(2) Suc.prems by (intro Suc.hyps(1)) simp_all
  have "(\<forall>k. position \<le> k \<and> k < stop \<longrightarrow> \<not> addr_bit a k) \<longleftrightarrow>
      \<not> addr_bit a position \<and> (\<forall>k. position + 1 \<le> k \<and> k < stop \<longrightarrow> \<not> addr_bit a k)"
    using less(1) by (metis Suc_eq_plus1 Suc_leD Suc_leI le_eq_less_or_eq)
  then show ?case
    using less IH by (subst host_bits_zero_from.simps) (simp add: test_bit addr_bit_def)
qed

lemma same_bytes_eq:
  assumes "whole \<le> length a" and "whole \<le> length b"
  shows "same_bytes a b index whole = Some (\<forall>i. index \<le> i \<and> i < whole \<longrightarrow> a ! i = b ! i)"
  using assms
proof (induction "whole - index" arbitrary: index)
  case 0
  then show ?case by (subst same_bytes.simps) auto
next
  case (Suc n)
  have less: "index < whole" using Suc.hyps(2) by simp
  have IH: "same_bytes a b (index + 1) whole = Some (\<forall>i. index + 1 \<le> i \<and> i < whole \<longrightarrow> a ! i = b ! i)"
    using Suc.hyps(2) Suc.prems by (intro Suc.hyps(1)) simp_all
  have "(\<forall>i. index \<le> i \<and> i < whole \<longrightarrow> a ! i = b ! i) \<longleftrightarrow>
      a ! index = b ! index \<and> (\<forall>i. index + 1 \<le> i \<and> i < whole \<longrightarrow> a ! i = b ! i)"
    using less by (metis Suc_eq_plus1 Suc_leD Suc_leI le_eq_less_or_eq)
  then show ?case
    using less IH Suc.prems by (subst same_bytes.simps) simp
qed

definition host_bits_clear :: "IpNetwork \<Rightarrow> bool" where
  "host_bits_clear n \<longleftrightarrow>
     (\<forall>k. unat (n_prefix_length n) \<le> k \<and> k < ip_address_bytes (n_family n) * 8 \<longrightarrow> \<not> addr_bit (n_address n) k)"

definition network_ok :: "IpNetwork \<Rightarrow> bool" where
  "network_ok n \<longleftrightarrow> interface_ok n \<and> host_bits_clear n"

lemma ip_host_bits_zero_eq:
  assumes "interface_ok n"
  shows "ip_host_bits_zero n = Some (host_bits_clear n)"
  using assms
  by (simp add: ip_host_bits_zero_def host_bits_clear_def host_bits_zero_from_eq interface_ok_def
      address_ok_def ip_address_bytes_def)

section \<open>The prefix match\<close>

lemma byte_eq_bits: "(x :: u8) = y \<longleftrightarrow> (\<forall>j < 8. bit x (7 - j) = bit y (7 - j))"
proof
  assume eq: "\<forall>j < 8. bit x (7 - j) = bit y (7 - j)"
  show "x = y"
  proof (rule bit_word_eqI)
    fix n assume "n < LENGTH(8)"
    then have "7 - n < 8" "7 - (7 - n) = n" by auto
    with eq show "bit x n = bit y n" by metis
  qed
qed simp

lemma leading_bits:
  "(\<forall>k < 8 * w + r. addr_bit a k = addr_bit b k) \<longleftrightarrow>
     (\<forall>i < w. a ! i = b ! i) \<and> (\<forall>m < r. bit (a ! w) (7 - m) = bit (b ! w) (7 - m))" if "r < 8"
proof -
  have at: "addr_bit c (8 * i + m) = bit (c ! i) (7 - m)" if "m < 8" for c i m
    using that by (simp add: addr_bit_def)
  have "(\<forall>k < 8 * w + r. addr_bit a k = addr_bit b k) \<longleftrightarrow>
      (\<forall>i m. m < 8 \<longrightarrow> 8 * i + m < 8 * w + r \<longrightarrow> bit (a ! i) (7 - m) = bit (b ! i) (7 - m))"
    (is "?l \<longleftrightarrow> ?r")
  proof
    assume ?l
    then show ?r using at by metis
  next
    assume r: ?r
    show ?l
    proof (intro allI impI)
      fix k assume "k < 8 * w + r"
      with r [rule_format, of "k mod 8" "k div 8"] show "addr_bit a k = addr_bit b k"
        by (simp add: addr_bit_def)
    qed
  qed
  also have "\<dots> \<longleftrightarrow> (\<forall>i < w. \<forall>m < 8. bit (a ! i) (7 - m) = bit (b ! i) (7 - m)) \<and>
      (\<forall>m < r. bit (a ! w) (7 - m) = bit (b ! w) (7 - m))"
  proof -
    have split: "8 * i + m < 8 * w + r \<longleftrightarrow> i < w \<or> i = w \<and> m < r" if "m < 8" for i m
      using that \<open>r < 8\<close> by auto
    show ?thesis using split \<open>r < 8\<close> by (auto dest: less_trans)
  qed
  finally show ?thesis by (simp add: byte_eq_bits)
qed

lemma mask_bits:
  assumes "0 < r" and "r < 8"
  shows "bit (ucast (push_bit (8 - r) (0xff :: u32)) :: u8) j \<longleftrightarrow> 8 - r \<le> j \<and> j < 8"
proof -
  have mask: "(0xff :: u32) = mask 8" by (simp add: mask_eq_exp_minus_1)
  show ?thesis unfolding mask using assms by (auto simp: bit_simps)
qed

lemma masked_eq:
  assumes "0 < r" and "r < 8" and "\<forall>m. r \<le> m \<and> m < 8 \<longrightarrow> \<not> bit n (7 - m)"
  shows "a AND ucast (push_bit (8 - r) (0xff :: u32)) = (n :: u8) \<longleftrightarrow> (\<forall>m < r. bit a (7 - m) = bit n (7 - m))"
proof -
  have "bit (a AND ucast (push_bit (8 - r) (0xff :: u32))) (7 - m) \<longleftrightarrow> m < r \<and> bit a (7 - m)" if "m < 8" for m
    using that assms(1,2) by (auto simp: bit_and_iff mask_bits)
  then show ?thesis using assms by (simp only: byte_eq_bits) (meson not_le order_less_trans)
qed

lemma contains_bits:
  assumes "network_ok n"
  shows "ip_network_contains n family a =
    Some (family = n_family n \<and> length a = ip_address_bytes family \<and>
      (\<forall>k < unat (n_prefix_length n). addr_bit a k = addr_bit (n_address n) k))"
proof (cases "family = n_family n \<and> length a = ip_address_bytes family")
  case True
  let ?p = "unat (n_prefix_length n)"
  let ?w = "?p div 8" and ?r = "?p mod 8"
  have p: "?p \<le> 8 * length a" "length a \<le> length (n_address n)"
    using assms True by (auto simp: network_ok_def interface_ok_def address_ok_def max_prefix_def ip_address_bytes_def)
  have w: "?w \<le> length a" using p(1) by auto
  have same: "same_bytes a (n_address n) 0 ?w = Some (\<forall>i < ?w. a ! i = n_address n ! i)"
    using same_bytes_eq [of ?w a "n_address n" 0] w p(2) by simp
  have bits: "(\<forall>k < ?p. addr_bit a k = addr_bit (n_address n) k) \<longleftrightarrow>
      (\<forall>i < ?w. a ! i = n_address n ! i) \<and> (\<forall>m < ?r. bit (a ! ?w) (7 - m) = bit (n_address n ! ?w) (7 - m))"
    using leading_bits [of ?r ?w a "n_address n"] by simp
  show ?thesis
  proof (cases "?r = 0")
    case True
    then show ?thesis
      using \<open>family = n_family n \<and> _\<close> same bits unfolding ip_network_contains_def by (simp add: Let_def)
  next
    case False
    then have in_range: "?w < length a" using p(1) by (metis div_less_iff_less_mult mult.commute le_neq_implies_less mod_mult_self1_is_0 zero_less_numeral)
    have "\<not> bit (n_address n ! ?w) (7 - m)" if "?r \<le> m" "m < 8" for m
    proof -
      have "?p \<le> 8 * ?w + m" using that(1) by (metis add_le_cancel_left mult_div_mod_eq)
      moreover have "8 * ?w + m < 8 * length a" using in_range that(2) by linarith
      ultimately have "\<not> addr_bit (n_address n) (8 * ?w + m)"
        using assms True by (auto simp: network_ok_def host_bits_clear_def mult.commute)
      then show ?thesis using that(2) by (simp add: addr_bit_def)
    qed
    then show ?thesis
      using True same bits in_range p(2) False masked_eq [of ?r "n_address n ! ?w" "a ! ?w"]
      unfolding ip_network_contains_def by (simp add: Let_def)
  qed
next
  case False
  then show ?thesis by (auto simp: ip_network_contains_def)
qed

section \<open>The network parsers\<close>

lemma parse_canonical_iff:
  "(parse_canonical_ip_network t = Some (Some n) \<longleftrightarrow> network_ok n \<and> format_ip_network n = Some t) \<and>
   parse_canonical_ip_network t \<noteq> None"
proof -
  obtain r where r: "parse_canonical_ip_interface t = Some r"
    using parse_interface_iff [of t undefined] by blast
  have format: "network_ok n \<and> format_ip_network n = Some t \<longleftrightarrow> network_ok n \<and> t = network_text n"
    by (auto simp: network_ok_def format_network_text)
  show ?thesis
  proof (cases r)
    case None
    have "\<not> (interface_ok n \<and> t = network_text n)"
      using parse_interface_iff [of t "\<lparr>i_family = n_family n, i_address = n_address n, i_prefix_length = n_prefix_length n\<rparr>"]
        r None by (simp add: network_of_def)
    then show ?thesis using None r format by (auto simp: parse_canonical_ip_network_def network_ok_def)
  next
    case (Some i)
    then have i: "interface_ok (network_of i)" "t = network_text (network_of i)"
      using parse_interface_iff [of t i] r by simp_all
    have "parse_canonical_ip_network t
        = Some (if host_bits_clear (network_of i) then Some (network_of i) else None)"
      using r Some ip_host_bits_zero_eq [OF i(1)] by (simp add: parse_canonical_ip_network_def network_of_def)
    moreover have "n = network_of i" if "interface_ok n" "t = network_text n"
      using parse_interface_text [OF that(1)] that(2) r Some by (auto simp: network_of_def)
    ultimately show ?thesis unfolding format using i by (auto simp: network_ok_def)
  qed
qed

lemma fold_case_id: "\<not> (65 \<le> c \<and> c \<le> 70) \<Longrightarrow> fold_case c = c"
  by (simp add: fold_case_def)

lemma network_text_lower:
  assumes "interface_ok n"
  shows "map fold_case (network_text n) = network_text n"
proof (rule map_idI)
  fix c assume "c \<in> set (network_text n)"
  then consider "c \<in> set (ip_text (n_family n) (n_address n))" | "c = c_slash"
    | "c \<in> set (decimal_text (unat (n_prefix_length n)))"
    by (auto simp: network_text_def)
  then show "fold_case c = c"
  proof cases
    case 1
    from ip_text_chars [OF this] show ?thesis
      by (intro fold_case_id) (auto simp: word_le_nat_alt word_unat_eq_iff split: if_splits)
  next
    case 2
    then show ?thesis by (simp add: fold_case_def)
  next
    case 3
    have "unat (n_prefix_length n) < 1000" using unat_u8_less [of "n_prefix_length n"] by linarith
    from decimal_text_chars [OF this 3] show ?thesis
      by (intro fold_case_id) (auto simp: word_le_nat_alt)
  qed
qed

lemma parse_network_text:
  assumes "network_ok n"
  shows "parse_ip_network (network_text n) = Some (Some n)"
proof -
  let ?t = "ip_text (n_family n) (n_address n)" and ?p = "unat (n_prefix_length n)"
  have ok: "interface_ok n" "address_ok (n_family n) (n_address n)" "?p \<le> max_prefix (n_family n)"
    using assms by (simp_all add: network_ok_def interface_ok_def)
  have "c_slash \<notin> set ?t" using ip_text_chars [of c_slash "n_family n" "n_address n"] by (cases "n_family n") auto
  then have slash: "find_byte c_slash (network_text n) = Some (length ?t)"
    unfolding network_text_def by (rule find_byte_first)
  have decimal: "parse_ip_decimal (decimal_text ?p) (of_nat (max_prefix (n_family n))) = Some (ucast (n_prefix_length n))"
    using parse_decimal_text [of ?p "of_nat (max_prefix (n_family n))"] ok(3)
    by (simp add: max_prefix_def unat_of_nat split: if_splits)
  have prefix: "ucast (ucast (n_prefix_length n) :: u32) = n_prefix_length n"
    using ucast_of_u32 [of ?p] by simp
  have nonempty: "network_text n \<noteq> []" by (simp add: network_text_def)
  have cut: "take (length ?t) (network_text n) = ?t" "drop (Suc (length ?t)) (network_text n) = decimal_text ?p"
    by (simp_all add: network_text_def)
  show ?thesis
    using network_text_size [OF ok(1)] assms ip_host_bits_zero_eq [OF ok(1)] nonempty
    unfolding parse_ip_network_def network_text_lower [OF ok(1)] slash Let_def
    by (simp add: cut parse_ip_text [OF ok(2)] decimal prefix network_ok_def)
qed

lemma parse_network_shape:
  "\<exists>r. parse_ip_network t = Some r \<and> (\<forall>n. r = Some n \<longrightarrow> network_ok n)"
proof (cases "t = [] \<or> length t > kMaxIpNetworkTextBytes")
  case False
  define lower where "lower = map fold_case t"
  define slash where "slash = find_byte c_slash lower"
  define address where "address = (case slash of None \<Rightarrow> lower | Some s \<Rightarrow> take s lower)"
  define prefix where "prefix maximum = (case slash of None \<Rightarrow> Some maximum
      | Some s \<Rightarrow> parse_ip_decimal (drop (s + 1) lower) maximum)" for maximum
  have run: "parse_ip_network t = do {
        parsed \<leftarrow> parse_ip_address address;
        case parsed of
          None \<Rightarrow> Some None
        | Some (family, a, maximum) \<Rightarrow>
            (case prefix maximum of
               None \<Rightarrow> Some None
             | Some p \<Rightarrow> do {
                 zero \<leftarrow> ip_host_bits_zero \<lparr>n_family = family, n_address = a, n_prefix_length = ucast p\<rparr>;
                 Some (if zero then Some \<lparr>n_family = family, n_address = a, n_prefix_length = ucast p\<rparr> else None)
               })
      }"
    using False unfolding parse_ip_network_def Let_def lower_def slash_def address_def prefix_def by simp
  obtain r where r: "parse_ip_address address = Some r"
    "\<And>family a maximum. r = Some (family, a, maximum) \<Longrightarrow>
       address_ok family a \<and> maximum = of_nat (max_prefix family)"
    using parse_address_shape [of address] by blast
  have ok: "interface_ok \<lparr>n_family = family, n_address = a, n_prefix_length = ucast p\<rparr>"
    if "r = Some (family, a, maximum)" "prefix maximum = Some p" for family a maximum p
  proof -
    have "unat (ucast p :: u8) \<le> max_prefix family"
    proof (cases slash)
      case None
      then have "p = of_nat (max_prefix family)" using that r(2) by (simp add: prefix_def)
      then show ?thesis by (simp add: max_prefix_def split: if_splits)
    next
      case (Some s)
      then have "parse_ip_decimal (drop (s + 1) lower) (of_nat (max_prefix family)) = Some p"
        using that r(2) [OF that(1)] by (simp add: prefix_def)
      from prefix_fits [OF this] show ?thesis by simp
    qed
    then show ?thesis using r(2) [OF that(1)] by (simp add: interface_ok_def)
  qed
  show ?thesis
  proof (cases r)
    case None
    then show ?thesis using r(1) by (simp add: run)
  next
    case (Some x)
    obtain family a maximum where x: "x = (family, a, maximum)" by (cases x)
    then show ?thesis
      using r(1) Some ok [of family a maximum]
      by (cases "prefix maximum") (simp_all add: run ip_host_bits_zero_eq network_ok_def)
  qed
qed (auto simp: parse_ip_network_def)

section \<open>Properties\<close>

text \<open>C17: the canonical parser accepts a text as a network exactly when the network is well
  formed, with zero bits after the prefix, and the text is what the writer writes for it, with
  the first longest run of zero groups of an IPv6 address left out; no text makes the parser
  or the writer it calls leave an array.\<close>

theorem canonical_network_exact:
  "(parse_canonical_ip_network t = Some (Some n) \<longleftrightarrow> network_ok n \<and> format_ip_network n = Some t) \<and>
   parse_canonical_ip_network t \<noteq> None"
  by (rule parse_canonical_iff)

text \<open>The writer's search for the zero run to leave out of an IPv6 address returns a run of
  zero groups such that no run is longer and no equally long one starts before it, as RFC 5952
  asks; it returns length 0 only when no group is zero.\<close>

theorem zero_run_first_longest:
  "case best_zero_run groups 0 (length groups) 0 of (s, l) \<Rightarrow>
     (l = 0 \<or> zero_run groups s l) \<and>
     (\<forall>s' l'. zero_run groups s' l' \<and> 0 < l' \<longrightarrow> l' \<le> l \<and> (l' = l \<longrightarrow> s \<le> s'))"
proof -
  obtain s l where "best_zero_run groups 0 (length groups) 0 = (s, l)" by fastforce
  then show ?thesis using best_zero_run_first [of groups s l] by auto
qed

text \<open>C37: the parser of list files returns only well-formed networks with zero bits after the
  prefix, never leaves an array, and accepts every canonical text with the same result.\<close>

theorem tolerant_parser:
  "(\<exists>r. parse_ip_network t = Some r \<and> (r = None \<or> (\<exists>n. r = Some n \<and> network_ok n))) \<and>
   (parse_canonical_ip_network t = Some (Some n) \<longrightarrow> parse_ip_network t = Some (Some n))"
proof -
  have "parse_ip_network t = Some (Some n)" if "parse_canonical_ip_network t = Some (Some n)"
    using parse_canonical_iff [of t n] parse_network_text [of n] that
    by (auto simp: network_ok_def format_network_text)
  then show ?thesis using parse_network_shape [of t] by (metis not_None_eq)
qed

theorem tolerant_parser_witness:
  "parse_ip_network (ascii ''10.0.0.0/8'') = Some (Some \<lparr>n_family = V4, n_address = 10 # replicate 15 0, n_prefix_length = 8\<rparr>)"
proof -
  have "parse_canonical_ip_network (ascii ''10.0.0.0/8'')
      = Some (Some \<lparr>n_family = V4, n_address = 10 # replicate 15 0, n_prefix_length = 8\<rparr>)"
    by code_simp
  then show ?thesis using tolerant_parser by blast
qed

text \<open>C18: for a well-formed network the match by whole bytes and a mask holds exactly of the
  addresses of the same family and size whose leading bits, as many as the prefix length, are
  those of the network.\<close>

theorem contains_leading_bits:
  assumes "network_ok n"
  shows "ip_network_contains n family a =
    Some (family = n_family n \<and> length a = ip_address_bytes family \<and>
      (\<forall>k < unat (n_prefix_length n). addr_bit a k = addr_bit (n_address n) k))"
  by (rule contains_bits [OF assms])

theorem contains_leading_bits_witness:
  "ip_network_contains \<lparr>n_family = V4, n_address = [10, 128] @ replicate 14 0, n_prefix_length = 9\<rparr> V4 [10, 200, 1, 1]
     = Some True"
proof -
  let ?n = "\<lparr>n_family = V4, n_address = [10, 128] @ replicate 14 0, n_prefix_length = 9\<rparr>"
  have "parse_canonical_ip_network (ascii ''10.128.0.0/9'') = Some (Some ?n)" by code_simp
  then have ok: "network_ok ?n" using parse_canonical_iff by blast
  have "\<forall>k < 9. addr_bit [10, 200, 1, 1] k = addr_bit ([10, 128] @ replicate 14 0) k" by code_simp
  then show ?thesis
    unfolding contains_leading_bits [OF ok] by (simp add: ip_address_bytes_def)
qed

end
