(* ===== verification/Egress_Address.thy ===== *)
theory Egress_Address
  imports Ip_Match
begin

text \<open>
  The classes of destination addresses (\<^verbatim>\<open>src/src/common/egress_address.hpp\<close>): the tables of
  special-purpose networks, the form in which policy sees an address, its class, and the test
  that a configured network can never match.
\<close>

section \<open>Tables and operations\<close>

datatype EgressAddressClass = NeverAllowed | ExplicitOnly | Public

text \<open>An aggregate initialiser sets the first bytes of the array and leaves the others zero.\<close>

definition net :: "IpFamily \<Rightarrow> bytes \<Rightarrow> u8 \<Rightarrow> IpNetwork" where
  "net family address prefix =
     \<lparr>n_family = family, n_address = address @ replicate (16 - length address) 0, n_prefix_length = prefix\<rparr>"

definition kNeverAllowedNetworks :: "IpNetwork list" where
  "kNeverAllowedNetworks = [net V4 [0] 8, net V4 [224] 3, net V6 [] 128, net V6 [0xff] 8]"

definition kIpv4MappedNetwork :: IpNetwork where
  "kIpv4MappedNetwork = net V6 [0, 0, 0, 0, 0, 0, 0, 0, 0, 0, 0xff, 0xff] 96"

definition kExplicitOnlyIpv4 :: "IpNetwork list" where
  "kExplicitOnlyIpv4 =
     [net V4 [10] 8, net V4 [100, 64] 10, net V4 [127] 8, net V4 [169, 254] 16, net V4 [172, 16] 12,
      net V4 [192, 0, 0] 24, net V4 [192, 0, 2] 24, net V4 [192, 88, 99] 24, net V4 [192, 168] 16,
      net V4 [198, 18] 15, net V4 [198, 51, 100] 24, net V4 [203, 0, 113] 24]"

definition kIpv6GlobalUnicast :: IpNetwork where
  "kIpv6GlobalUnicast = net V6 [0x20] 3"

definition kExplicitOnlyIpv6Global :: "IpNetwork list" where
  "kExplicitOnlyIpv6Global =
     [net V6 [0x20, 0x01] 23, net V6 [0x20, 0x01, 0x0d, 0xb8] 32, net V6 [0x20, 0x02] 16,
      net V6 [0x3f, 0xff] 20]"

text \<open>\<^verbatim>\<open>std::any_of\<close>: the networks are tried in order until one matches.\<close>

fun any_of :: "('a \<Rightarrow> bool option) \<Rightarrow> 'a list \<Rightarrow> bool option" where
  "any_of p [] = Some False"
| "any_of p (x # xs) = do { hit \<leftarrow> p x; if hit then Some True else any_of p xs }"

definition contained_in_any :: "IpNetwork list \<Rightarrow> IpFamily \<Rightarrow> bytes \<Rightarrow> bool option" where
  "contained_in_any table family address = any_of (\<lambda>network. ip_network_contains network family address) table"

record EgressAddress =
  e_family :: IpFamily
  e_storage :: bytes

definition EgressAddress_bytes :: "EgressAddress \<Rightarrow> bytes" where
  "EgressAddress_bytes address = take (ip_address_bytes (e_family address)) (e_storage address)"

definition from_bytes :: "IpFamily \<Rightarrow> bytes \<Rightarrow> EgressAddress option option" where
  "from_bytes family address =
     (if length address \<noteq> ip_address_bytes family then Some None
      else do {
        mapped \<leftarrow> (if family = V6 then ip_network_contains kIpv4MappedNetwork family address
                   else Some False);
        if mapped then do {
          storage \<leftarrow> copy_to (replicate 16 0) 0 (drop 12 address);
          Some (Some \<lparr>e_family = V4, e_storage = storage\<rparr>)
        } else do {
          storage \<leftarrow> copy_to (replicate 16 0) 0 address;
          Some (Some \<lparr>e_family = family, e_storage = storage\<rparr>)
        }
      })"

definition classify_egress_address :: "EgressAddress \<Rightarrow> EgressAddressClass option" where
  "classify_egress_address address = do {
     let octets = EgressAddress_bytes address;
     never \<leftarrow> contained_in_any kNeverAllowedNetworks (e_family address) octets;
     if never then Some NeverAllowed
     else if e_family address = V4 then do {
       special \<leftarrow> contained_in_any kExplicitOnlyIpv4 V4 octets;
       Some (if special then ExplicitOnly else Public)
     } else do {
       global \<leftarrow> ip_network_contains kIpv6GlobalUnicast V6 octets;
       special \<leftarrow> (if \<not> global then Some True else contained_in_any kExplicitOnlyIpv6Global V6 octets);
       Some (if special then ExplicitOnly else Public)
     }
   }"

definition network_inside :: "IpNetwork \<Rightarrow> IpNetwork \<Rightarrow> bool option" where
  "network_inside network outer =
     (if n_family outer = n_family network \<and> n_prefix_length network \<ge> n_prefix_length outer
      then ip_network_contains outer (n_family network)
             (take (ip_address_bytes (n_family network)) (n_address network))
      else Some False)"

definition ip_network_never_allowed :: "IpNetwork \<Rightarrow> bool option" where
  "ip_network_never_allowed network = do {
     never \<leftarrow> any_of (network_inside network) kNeverAllowedNetworks;
     if never then Some True else network_inside network kIpv4MappedNetwork
   }"

section \<open>The tables\<close>

lemma any_of_eq: "(\<And>x. x \<in> set xs \<Longrightarrow> p x = Some (q x)) \<Longrightarrow> any_of p xs = Some (\<exists>x \<in> set xs. q x)"
  by (induction xs) auto

lemma network_okI:
  assumes "length (n_address n) = 16" and "n_family n = V4 \<longrightarrow> drop 4 (n_address n) = replicate 12 0"
    and "unat (n_prefix_length n) \<le> max_prefix (n_family n)" and "ip_host_bits_zero n = Some True"
  shows "network_ok n"
proof -
  have "interface_ok n" using assms by (simp add: interface_ok_def address_ok_def)
  then show ?thesis using ip_host_bits_zero_eq [of n] assms(4) by (simp add: network_ok_def)
qed

lemma tables_ok:
  "n \<in> set (kIpv4MappedNetwork # kIpv6GlobalUnicast #
       kNeverAllowedNetworks @ kExplicitOnlyIpv4 @ kExplicitOnlyIpv6Global) \<Longrightarrow> network_ok n"
proof -
  let ?ok = "\<lambda>n. length (n_address n) = 16 \<and> (n_family n = V4 \<longrightarrow> drop 4 (n_address n) = replicate 12 0) \<and>
    unat (n_prefix_length n) \<le> max_prefix (n_family n) \<and> ip_host_bits_zero n = Some True"
  have "list_all ?ok (kIpv4MappedNetwork # kIpv6GlobalUnicast #
       kNeverAllowedNetworks @ kExplicitOnlyIpv4 @ kExplicitOnlyIpv6Global)"
    by code_simp
  moreover assume "n \<in> set (kIpv4MappedNetwork # kIpv6GlobalUnicast #
       kNeverAllowedNetworks @ kExplicitOnlyIpv4 @ kExplicitOnlyIpv6Global)"
  ultimately show ?thesis using network_okI unfolding list_all_iff by blast
qed

definition in_network :: "IpNetwork \<Rightarrow> IpFamily \<Rightarrow> bytes \<Rightarrow> bool" where
  "in_network n family a \<longleftrightarrow> family = n_family n \<and> length a = ip_address_bytes family \<and>
     (\<forall>k < unat (n_prefix_length n). addr_bit a k = addr_bit (n_address n) k)"

lemma contains_eq: "network_ok n \<Longrightarrow> ip_network_contains n family a = Some (in_network n family a)"
  by (simp add: contains_bits in_network_def)

lemma contained_in_table:
  assumes "table = kNeverAllowedNetworks \<or> table = kExplicitOnlyIpv4 \<or> table = kExplicitOnlyIpv6Global"
  shows "contained_in_any table family a = Some (\<exists>n \<in> set table. in_network n family a)"
  unfolding contained_in_any_def
  by (rule any_of_eq) (rule contains_eq, rule tables_ok, use assms in auto)

lemma mapped_ok: "network_ok kIpv4MappedNetwork" and global_ok: "network_ok kIpv6GlobalUnicast"
  by (rule tables_ok, simp)+

lemma classify_eq:
  "classify_egress_address a = Some (
     if \<exists>n \<in> set kNeverAllowedNetworks. in_network n (e_family a) (EgressAddress_bytes a) then NeverAllowed
     else if (if e_family a = V4
              then \<exists>n \<in> set kExplicitOnlyIpv4. in_network n V4 (EgressAddress_bytes a)
              else \<not> in_network kIpv6GlobalUnicast V6 (EgressAddress_bytes a) \<or>
                (\<exists>n \<in> set kExplicitOnlyIpv6Global. in_network n V6 (EgressAddress_bytes a)))
     then ExplicitOnly else Public)"
  by (simp add: classify_egress_address_def Let_def contained_in_table contains_eq global_ok)

section \<open>Addresses as policy sees them\<close>

definition mapped :: "bytes \<Rightarrow> bool" where
  "mapped a \<longleftrightarrow> in_network kIpv4MappedNetwork V6 a"

lemma from_bytes_eq:
  "from_bytes family a = Some (
     if length a \<noteq> ip_address_bytes family then None
     else if family = V6 \<and> mapped a then Some \<lparr>e_family = V4, e_storage = drop 12 a @ replicate 12 0\<rparr>
     else Some \<lparr>e_family = family, e_storage = a @ replicate (16 - length a) 0\<rparr>)"
  by (auto simp: from_bytes_def contains_eq mapped_ok mapped_def copy_to_def ip_address_bytes_def)

definition egress_ok :: "EgressAddress \<Rightarrow> bool" where
  "egress_ok e \<longleftrightarrow> address_ok (e_family e) (e_storage e) \<and> (e_family e = V6 \<longrightarrow> \<not> mapped (EgressAddress_bytes e))"

lemma from_bytes_ok:
  "(\<exists>family a. from_bytes family a = Some (Some e)) \<longleftrightarrow> egress_ok e"
proof
  assume "\<exists>family a. from_bytes family a = Some (Some e)"
  then show "egress_ok e"
    by (auto simp: from_bytes_eq egress_ok_def address_ok_def EgressAddress_bytes_def ip_address_bytes_def
        split: if_splits)
next
  assume ok: "egress_ok e"
  then have "from_bytes (e_family e) (EgressAddress_bytes e) = Some (Some e)"
    by (cases e) (auto simp: from_bytes_eq egress_ok_def address_ok_def EgressAddress_bytes_def ip_address_bytes_def
        split: if_splits, (metis append_take_drop_id)+)
  then show "\<exists>family a. from_bytes family a = Some (Some e)" by blast
qed

lemma addr_bit_take: "k < 8 * n \<Longrightarrow> addr_bit (take n a) k = addr_bit a k"
  by (simp add: addr_bit_def div_less_iff_less_mult mult.commute)

definition inside :: "IpNetwork \<Rightarrow> IpNetwork \<Rightarrow> bool" where
  "inside n outer \<longleftrightarrow> n_family outer = n_family n \<and> n_prefix_length outer \<le> n_prefix_length n \<and>
     (\<forall>k < unat (n_prefix_length outer). addr_bit (n_address n) k = addr_bit (n_address outer) k)"

lemma prefix_bits: "interface_ok n \<Longrightarrow> unat (n_prefix_length n) \<le> 8 * ip_address_bytes (n_family n)"
  by (simp add: interface_ok_def max_prefix_def ip_address_bytes_def split: if_splits)

lemma network_inside_eq:
  assumes "network_ok n" and "network_ok outer"
  shows "network_inside n outer = Some (inside n outer)"
proof -
  have "length (take (ip_address_bytes (n_family n)) (n_address n)) = ip_address_bytes (n_family n)"
    using assms(1) by (simp add: network_ok_def interface_ok_def address_ok_def ip_address_bytes_def)
  moreover have "unat (n_prefix_length outer) \<le> 8 * ip_address_bytes (n_family n)" if "n_family outer = n_family n"
    using prefix_bits [of outer] assms(2) that by (simp add: network_ok_def)
  ultimately show ?thesis
    using contains_eq [OF assms(2), of "n_family n" "take (ip_address_bytes (n_family n)) (n_address n)"]
    by (auto simp: network_inside_def inside_def in_network_def addr_bit_take)
qed

lemma never_allowed_eq:
  assumes "network_ok n"
  shows "ip_network_never_allowed n
      = Some (\<exists>outer \<in> set (kIpv4MappedNetwork # kNeverAllowedNetworks). inside n outer)"
proof -
  have "any_of (network_inside n) kNeverAllowedNetworks = Some (\<exists>outer \<in> set kNeverAllowedNetworks. inside n outer)"
    by (rule any_of_eq) (rule network_inside_eq [OF assms], rule tables_ok, simp)
  then show ?thesis
    using network_inside_eq [OF assms mapped_ok] by (auto simp: ip_network_never_allowed_def)
qed

lemma inside_trans: "inside n outer \<Longrightarrow> in_network n family a \<Longrightarrow> in_network outer family a"
  by (auto simp: inside_def in_network_def word_le_nat_alt)

section \<open>An address of a network that can match\<close>

text \<open>The free bit that is set to leave the never-allowed networks: the last bit of the first
  byte of an IPv4 address, the last bit of an IPv6 address.\<close>

definition free_bit :: "IpFamily \<Rightarrow> nat" where
  "free_bit family = (if family = V4 then 7 else 127)"

definition sample_address :: "IpNetwork \<Rightarrow> bytes" where
  "sample_address n =
     (if unat (n_prefix_length n) \<le> free_bit (n_family n)
      then (n_address n)[free_bit (n_family n) div 8 := (n_address n ! (free_bit (n_family n) div 8)) OR 1]
      else n_address n)"

lemma set_low_bit: "bit ((b :: u8) OR 1) j \<longleftrightarrow> bit b j \<or> j = 0"
  by (simp add: bit_or_iff bit_1_iff)

lemma sample_bits:
  assumes "network_ok n" and "k < 128"
  shows "addr_bit (sample_address n) k \<longleftrightarrow>
    addr_bit (n_address n) k \<or> unat (n_prefix_length n) \<le> free_bit (n_family n) \<and> k = free_bit (n_family n)"
proof -
  have len: "length (n_address n) = 16" using assms by (simp add: network_ok_def interface_ok_def address_ok_def)
  obtain d where d: "free_bit (n_family n) = 8 * d + 7" "d < 16"
    by (cases "n_family n") (simp_all add: free_bit_def)
  have "k = 8 * d + 7 \<longleftrightarrow> k div 8 = d \<and> 7 - k mod 8 = 0"
  proof
    assume "k div 8 = d \<and> 7 - k mod 8 = 0"
    moreover have "k = 8 * (k div 8) + k mod 8" "k mod 8 < 8" by simp_all
    ultimately show "k = 8 * d + 7" by linarith
  qed simp
  then show ?thesis
    using len d(2) unfolding sample_address_def d(1)
    by (cases "k div 8 = d") (auto simp: addr_bit_def set_low_bit)
qed

lemma sample_in:
  assumes "network_ok n"
  shows "in_network n (n_family n) (take (ip_address_bytes (n_family n)) (sample_address n))"
proof -
  have "length (sample_address n) = 16"
    using assms by (simp add: sample_address_def network_ok_def interface_ok_def address_ok_def)
  moreover have bits: "unat (n_prefix_length n) \<le> 8 * ip_address_bytes (n_family n)"
    using prefix_bits assms by (simp add: network_ok_def)
  moreover have "addr_bit (sample_address n) k = addr_bit (n_address n) k" if "k < unat (n_prefix_length n)" for k
  proof -
    have "k < 128" using that bits by (simp add: ip_address_bytes_def split: if_splits)
    then show ?thesis using sample_bits [OF assms] that by auto
  qed
  ultimately show ?thesis by (auto simp: in_network_def addr_bit_take ip_address_bytes_def)
qed

lemma sample_address_ok:
  assumes "network_ok n"
  shows "address_ok (n_family n) (sample_address n)"
  using assms by (auto simp: network_ok_def interface_ok_def address_ok_def sample_address_def free_bit_def)

lemma table_bits:
  "n_prefix_length (net V4 [0] 8) = 8" "\<not> addr_bit (n_address (net V4 [0] 8)) 7"
  "n_prefix_length (net V4 [224] 3) = 3" "addr_bit (n_address (net V4 [224] 3)) 2"
  "n_prefix_length (net V6 [] 128) = 128" "\<not> addr_bit (n_address (net V6 [] 128)) 127"
  "n_prefix_length (net V6 [0xff] 8) = 8" "addr_bit (n_address (net V6 [0xff] 8)) 7"
  "n_prefix_length kIpv4MappedNetwork = 96" "addr_bit (n_address kIpv4MappedNetwork) 95"
  by (code_simp)+

lemma not_in_outer:
  assumes n: "network_ok n" and outer: "network_ok outer" and "\<not> inside n outer"
    and "j < unat (n_prefix_length outer)" and "n_family outer = n_family n"
    and free: "unat (n_prefix_length n) < unat (n_prefix_length outer) \<Longrightarrow>
      addr_bit (sample_address n) j \<noteq> addr_bit (n_address outer) j"
    and bound: "free_bit (n_family n) < 128"
  shows "\<not> in_network outer family (take (ip_address_bytes (n_family n)) (sample_address n))"
proof
  assume hit: "in_network outer family (take (ip_address_bytes (n_family n)) (sample_address n))"
  have bits: "unat (n_prefix_length outer) \<le> 8 * ip_address_bytes (n_family n)"
    using prefix_bits [of outer] outer assms(5) by (simp add: network_ok_def)
  then have hit_bits: "addr_bit (sample_address n) k = addr_bit (n_address outer) k"
    if "k < unat (n_prefix_length outer)" for k
    using hit that addr_bit_take [of k "ip_address_bytes (n_family n)" "sample_address n"] by (simp add: in_network_def)
  show False
  proof (cases "unat (n_prefix_length n) < unat (n_prefix_length outer)")
    case True
    then show False using free hit_bits [OF assms(4)] by blast
  next
    case False
    have "addr_bit (n_address n) k = addr_bit (n_address outer) k" if "k < unat (n_prefix_length outer)" for k
    proof -
      have "k < 128" using that bits by (simp add: ip_address_bytes_def split: if_splits)
      then show ?thesis
        using hit_bits [OF that] sample_bits [OF n, of k] that False by auto
    qed
    then show False using assms(3,5) False by (auto simp: inside_def word_le_nat_alt)
  qed
qed

lemma host_bit_clear:
  assumes "network_ok n" and "unat (n_prefix_length n) \<le> k" and "k < 8 * ip_address_bytes (n_family n)"
  shows "\<not> addr_bit (n_address n) k"
  using assms by (simp add: network_ok_def host_bits_clear_def mult.commute)

lemma sample_leaves:
  assumes n: "network_ok n" and out: "\<not> inside n outer"
    and outer: "outer \<in> set (kIpv4MappedNetwork # kNeverAllowedNetworks)"
  shows "\<not> in_network outer (n_family n) (take (ip_address_bytes (n_family n)) (sample_address n))"
proof (cases "n_family outer = n_family n")
  case True
  have ok: "network_ok outer" by (rule tables_ok) (use outer in auto)
  have clear: "\<not> addr_bit (sample_address n) k"
    if "unat (n_prefix_length n) \<le> k" "k < 8 * ip_address_bytes (n_family n)" "k \<noteq> free_bit (n_family n)" for k
  proof -
    have "k < 128" using that(2) by (simp add: ip_address_bytes_def split: if_splits)
    then show ?thesis using sample_bits [OF n] host_bit_clear [OF n that(1,2)] that(3) by simp
  qed
  have set: "addr_bit (sample_address n) (free_bit (n_family n))" if "unat (n_prefix_length n) \<le> free_bit (n_family n)"
    using sample_bits [OF n, of "free_bit (n_family n)"] that by (simp add: free_bit_def split: if_splits)
  have fam: "n_family (net f a p) = f" "n_family kIpv4MappedNetwork = V6" for f a p
    by (simp_all add: net_def kIpv4MappedNetwork_def)
  have bound: "free_bit (n_family n) < 128" by (simp add: free_bit_def)
  consider "outer = net V4 [0] 8" | "outer = net V4 [224] 3" | "outer = net V6 [] 128" | "outer = net V6 [0xff] 8"
    | "outer = kIpv4MappedNetwork"
    using outer by (auto simp: kNeverAllowedNetworks_def)
  then show ?thesis
  proof cases
    case 1
    show ?thesis
      by (rule not_in_outer [OF n ok out, of 7])
        (use 1 True set bound in \<open>auto simp: table_bits fam free_bit_def split: if_splits\<close>)
  next
    case 2
    show ?thesis
      by (rule not_in_outer [OF n ok out, of 2])
        (use 2 True clear [of 2] bound in \<open>auto simp: table_bits fam free_bit_def ip_address_bytes_def split: if_splits\<close>)
  next
    case 3
    show ?thesis
      by (rule not_in_outer [OF n ok out, of 127])
        (use 3 True set bound in \<open>auto simp: table_bits fam free_bit_def split: if_splits\<close>)
  next
    case 4
    show ?thesis
      by (rule not_in_outer [OF n ok out, of 7])
        (use 4 True clear [of 7] bound in \<open>auto simp: table_bits fam free_bit_def ip_address_bytes_def split: if_splits\<close>)
  next
    case 5
    show ?thesis
      by (rule not_in_outer [OF n ok out, of 95])
        (use 5 True clear [of 95] bound in \<open>auto simp: table_bits fam free_bit_def ip_address_bytes_def split: if_splits\<close>)
  qed
qed (simp add: in_network_def)

section \<open>Properties\<close>

text \<open>An IPv4-mapped IPv6 destination is evaluated as the IPv4 destination it names, so no
  mapped spelling of an address is ever seen by policy as IPv6.\<close>

theorem mapped_is_ipv4:
  assumes "length v4 = 4"
  shows "from_bytes V6 (replicate 10 0 @ [0xff, 0xff] @ v4) = from_bytes V4 v4 \<and>
    (\<exists>e. from_bytes V4 v4 = Some (Some e) \<and> e_family e = V4 \<and> EgressAddress_bytes e = v4)"
proof -
  let ?a = "replicate 10 0 @ [0xff, 0xff] @ v4"
  have "addr_bit ?a k = addr_bit (n_address kIpv4MappedNetwork) k" if "k < 96" for k
  proof -
    let ?pre = "replicate 10 0 @ [0xff, 0xff :: u8]"
    have "n_address kIpv4MappedNetwork = ?pre @ replicate 4 0" by code_simp
    moreover have "k div 8 < length ?pre" using that by (simp add: div_less_iff_less_mult)
    ultimately have "?a ! (k div 8) = n_address kIpv4MappedNetwork ! (k div 8)"
      using nth_append_left [of "k div 8" ?pre] by (metis append_assoc)
    then show ?thesis by (simp add: addr_bit_def)
  qed
  then have "mapped ?a"
    using assms by (simp add: mapped_def in_network_def ip_address_bytes_def table_bits)
      (simp add: kIpv4MappedNetwork_def net_def)
  then show ?thesis
    using assms by (simp add: from_bytes_eq ip_address_bytes_def EgressAddress_bytes_def)
qed

text \<open>C11: the test the configuration parser applies to an allowed network holds exactly of the
  networks no destination can use: every address in the form policy sees it that the network
  matches is in the never-allowed class. Policy sees an IPv4-mapped address as IPv4, so a network
  of mapped IPv6 addresses matches none and the test holds of it.\<close>

theorem never_allowed_exact:
  assumes "network_ok n"
  shows "ip_network_never_allowed n = Some (\<forall>family a e.
    from_bytes family a = Some (Some e) \<and> ip_network_contains n (e_family e) (EgressAddress_bytes e) = Some True \<longrightarrow>
    classify_egress_address e = Some NeverAllowed)"
proof -
  let ?tables = "set (kIpv4MappedNetwork # kNeverAllowedNetworks)"
  have "(\<exists>outer \<in> ?tables. inside n outer) \<longleftrightarrow>
      (\<forall>e. egress_ok e \<and> in_network n (e_family e) (EgressAddress_bytes e) \<longrightarrow>
        (\<exists>outer \<in> set kNeverAllowedNetworks. in_network outer (e_family e) (EgressAddress_bytes e)))"
  proof
    assume "\<exists>outer \<in> ?tables. inside n outer"
    then obtain outer where outer: "outer \<in> ?tables" "inside n outer" by blast
    show "\<forall>e. egress_ok e \<and> in_network n (e_family e) (EgressAddress_bytes e) \<longrightarrow>
        (\<exists>outer \<in> set kNeverAllowedNetworks. in_network outer (e_family e) (EgressAddress_bytes e))"
    proof (intro allI impI)
      fix e assume e: "egress_ok e \<and> in_network n (e_family e) (EgressAddress_bytes e)"
      then have hit: "in_network outer (e_family e) (EgressAddress_bytes e)" using inside_trans [OF outer(2)] by blast
      moreover have "outer \<noteq> kIpv4MappedNetwork"
        using hit e by (auto simp: egress_ok_def mapped_def in_network_def kIpv4MappedNetwork_def net_def)
      ultimately show "\<exists>outer \<in> set kNeverAllowedNetworks. in_network outer (e_family e) (EgressAddress_bytes e)"
        using outer(1) by auto
    qed
  next
    let ?e = "\<lparr>e_family = n_family n, e_storage = sample_address n\<rparr>"
    have bytes: "EgressAddress_bytes ?e = take (ip_address_bytes (n_family n)) (sample_address n)"
      by (simp add: EgressAddress_bytes_def)
    assume all: "\<forall>e. egress_ok e \<and> in_network n (e_family e) (EgressAddress_bytes e) \<longrightarrow>
        (\<exists>outer \<in> set kNeverAllowedNetworks. in_network outer (e_family e) (EgressAddress_bytes e))"
    show "\<exists>outer \<in> ?tables. inside n outer"
    proof (rule ccontr)
      assume "\<not> (\<exists>outer \<in> ?tables. inside n outer)"
      then have leaves: "\<not> in_network outer (n_family n) (EgressAddress_bytes ?e)" if "outer \<in> ?tables" for outer
        unfolding bytes using sample_leaves [OF assms] that by blast
      then have "egress_ok ?e"
        using assms leaves [of kIpv4MappedNetwork] by (auto simp: egress_ok_def mapped_def sample_address_ok)
      moreover have "in_network n (n_family n) (EgressAddress_bytes ?e)"
        unfolding bytes by (rule sample_in [OF assms])
      ultimately show False using all [rule_format, of ?e] leaves by auto
    qed
  qed
  then show ?thesis
    by (simp add: never_allowed_eq [OF assms] contains_eq [OF assms] classify_eq from_bytes_ok [symmetric]) blast
qed

theorem never_allowed_exact_witness:
  "ip_network_never_allowed (net V4 [0] 8) = Some True \<and>
   classify_egress_address \<lparr>e_family = V4, e_storage = [0, 1, 2, 3] @ replicate 12 0\<rparr> = Some NeverAllowed"
proof -
  have ok: "network_ok (net V4 [0] 8)" by (rule tables_ok) (simp add: kNeverAllowedNetworks_def)
  have never: "ip_network_never_allowed (net V4 [0] 8) = Some True" by code_simp
  let ?e = "\<lparr>e_family = V4, e_storage = [0, 1, 2, 3] @ replicate 12 0\<rparr>"
  have "from_bytes V4 [0, 1, 2, 3] = Some (Some ?e)" by code_simp
  moreover have "ip_network_contains (net V4 [0] 8) (e_family ?e) (EgressAddress_bytes ?e) = Some True"
    by code_simp
  moreover have "\<forall>family a e.
    from_bytes family a = Some (Some e) \<and> ip_network_contains (net V4 [0] 8) (e_family e) (EgressAddress_bytes e) = Some True \<longrightarrow>
    classify_egress_address e = Some NeverAllowed"
    using never unfolding never_allowed_exact [OF ok] by blast
  ultimately have "classify_egress_address ?e = Some NeverAllowed" by blast
  with never show ?thesis by blast
qed

end
