(* ===== verification/Ip_Packet.thy ===== *)
theory Ip_Packet
  imports Yume_Prelude
begin

text \<open>
  The inspection of IP packets (\<^verbatim>\<open>src/src/common/ip_packet.hpp\<close>): the structural check of the
  base header, and the check that no option and no extension header can replace the addresses
  policy is applied to. The outer \<open>None\<close> is a read outside the packet, the inner one is the
  \<^verbatim>\<open>std::nullopt\<close> of the source.
\<close>

section \<open>Operations\<close>

datatype IpPacketVersion = Ipv4 | Ipv6

record IpPacketInfo =
  p_version :: IpPacketVersion
  p_source :: bytes
  p_destination :: bytes
  p_packet_size :: nat
  p_header_size :: nat

definition length_at :: "bytes \<Rightarrow> nat \<Rightarrow> nat option" where
  "length_at packet offset =
     do { a \<leftarrow> byte_at packet offset;
          b \<leftarrow> byte_at packet (offset + 1);
          Some (push_bit 8 (unat a) OR unat b) }"

definition inspect_ip_packet :: "bytes \<Rightarrow> IpPacketInfo option option" where
  "inspect_ip_packet packet =
     (if packet = [] then Some None
      else do {
        first \<leftarrow> byte_at packet 0;
        if drop_bit 4 first = 4 then
          (if length packet < 20 then Some None
           else do {
             let header_size = unat (first AND 0x0f) * 4;
             packet_size \<leftarrow> length_at packet 2;
             if header_size < 20 \<or> packet_size < header_size \<or> packet_size > length packet then Some None
             else do {
               src \<leftarrow> subspan packet 12 4;
               dst \<leftarrow> subspan packet 16 4;
               source \<leftarrow> copy_to (replicate 16 0) 0 src;
               destination \<leftarrow> copy_to (replicate 16 0) 0 dst;
               Some (Some \<lparr>p_version = Ipv4, p_source = source, p_destination = destination,
                           p_packet_size = packet_size, p_header_size = header_size\<rparr>)
             }
           })
        else if drop_bit 4 first = 6 then
          (if length packet < 40 then Some None
           else do {
             payload \<leftarrow> length_at packet 4;
             let packet_size = 40 + payload;
             if packet_size > length packet then Some None
             else do {
               src \<leftarrow> subspan packet 8 16;
               dst \<leftarrow> subspan packet 24 16;
               source \<leftarrow> copy_to (replicate 16 0) 0 src;
               destination \<leftarrow> copy_to (replicate 16 0) 0 dst;
               Some (Some \<lparr>p_version = Ipv6, p_source = source, p_destination = destination,
                           p_packet_size = packet_size, p_header_size = 40\<rparr>)
             }
           })
        else Some None
      })"

text \<open>The padding after an end-of-options byte, and the loop over the options of an IPv4 header.\<close>

function all_zero_from :: "bytes \<Rightarrow> nat \<Rightarrow> nat \<Rightarrow> bool option" where
  "all_zero_from packet offset stop =
     (if offset < stop then do {
        b \<leftarrow> byte_at packet offset;
        if b \<noteq> 0 then Some False else all_zero_from packet (offset + 1) stop
      } else Some True)"
  by pat_completeness auto
termination
  by (relation "measure (\<lambda>(packet, offset, stop). stop - offset)") auto

declare all_zero_from.simps [simp del]

function ipv4_options :: "bytes \<Rightarrow> nat \<Rightarrow> nat \<Rightarrow> bool option" where
  "ipv4_options packet header_size offset =
     (if offset < header_size then do {
        type \<leftarrow> byte_at packet offset;
        if type = 0 then all_zero_from packet offset header_size
        else if type = 1 then ipv4_options packet header_size (offset + 1)
        else if type = 131 \<or> type = 137 then Some False
        else if header_size - offset < 2 then Some False
        else do {
          size \<leftarrow> byte_at packet (offset + 1);
          if unat size < 2 \<or> unat size > header_size - offset then Some False
          else ipv4_options packet header_size (offset + unat size)
        }
      } else Some True)"
  by pat_completeness auto
termination
  by (relation "measure (\<lambda>(packet, header_size, offset). header_size - offset)") auto

declare ipv4_options.simps [simp del]

definition known_extension :: "u8 \<Rightarrow> bool" where
  "known_extension next_header \<longleftrightarrow>
     next_header \<in> {0, 43, 44, 50, 51, 60, 135, 139, 140, 253, 254}"

text \<open>The loop over the options of a Hop-by-Hop or Destination Options header that ends at \<open>stop\<close>.\<close>

function ipv6_options :: "bytes \<Rightarrow> nat \<Rightarrow> nat \<Rightarrow> bool option" where
  "ipv6_options packet stop position =
     (if position < stop then do {
        type \<leftarrow> byte_at packet position;
        if type = 0 then ipv6_options packet stop (position + 1)
        else if type = 201 \<or> type = 194 then Some False
        else if stop - position < 2 then Some False
        else do {
          data \<leftarrow> byte_at packet (position + 1);
          if unat data > stop - position - 2 then Some False
          else do {
            padding \<leftarrow> (if type = 1 then all_zero_from packet (position + 2) (position + 2 + unat data)
                        else Some True);
            if \<not> padding then Some False
            else ipv6_options packet stop (position + (2 + unat data))
          }
        }
      } else Some True)"
  by pat_completeness auto
termination
  by (relation "measure (\<lambda>(packet, stop, position). stop - position)") auto

declare ipv6_options.simps [simp del]

definition kMaxExtensionHeaders :: nat where
  "kMaxExtensionHeaders = 8"

text \<open>
  The local variables of the walk over the extension headers, and what the body of its loop
  does: return \<^verbatim>\<open>nullopt\<close>, return the packet, or go on.
\<close>

record Walk =
  w_offset :: nat
  w_next :: u8
  w_fragment_seen :: bool
  w_authentication_seen :: bool
  w_destination_headers :: nat

datatype walk_result = Refuse | Accept | Go Walk

definition fragment_header :: "bytes \<Rightarrow> Walk \<Rightarrow> nat \<Rightarrow> u8 \<Rightarrow> walk_result option" where
  "fragment_header packet w room following = do {
     reserved \<leftarrow> byte_at packet (w_offset w + 1);
     if w_fragment_seen w \<or> reserved \<noteq> 0 then Some Refuse
     else do {
       fragment \<leftarrow> length_at packet (w_offset w + 2);
       if fragment AND 6 \<noteq> 0 then Some Refuse
       else do {
         payload_size \<leftarrow> size_sub room 8;
         if fragment AND 1 \<noteq> 0 \<and> (payload_size = 0 \<or> payload_size mod 8 \<noteq> 0) then Some Refuse
         else if fragment \<noteq> 0 \<and> known_extension following then Some Refuse
         else if fragment AND 0xfff8 \<noteq> 0 then Some (if payload_size \<noteq> 0 then Accept else Refuse)
         else Some (Go (w\<lparr>w_offset := w_offset w + 8, w_next := following, w_fragment_seen := True\<rparr>))
       }
     }
   }"

definition authentication_header :: "bytes \<Rightarrow> Walk \<Rightarrow> nat \<Rightarrow> u8 \<Rightarrow> walk_result option" where
  "authentication_header packet w room following = do {
     r1 \<leftarrow> byte_at packet (w_offset w + 2);
     r2 \<leftarrow> byte_at packet (w_offset w + 3);
     if w_authentication_seen w \<or> r1 \<noteq> 0 \<or> r2 \<noteq> 0 then Some Refuse
     else do {
       units \<leftarrow> byte_at packet (w_offset w + 1);
       let size = (unat units + 2) * 4;
       if size < 12 \<or> size mod 8 \<noteq> 0 \<or> size > room then Some Refuse
       else Some (Go (w\<lparr>w_offset := w_offset w + size, w_next := following, w_authentication_seen := True\<rparr>))
     }
   }"

definition options_header :: "bytes \<Rightarrow> Walk \<Rightarrow> nat \<Rightarrow> u8 \<Rightarrow> walk_result option" where
  "options_header packet w room following =
     (if w_next w = 0 \<and> w_offset w \<noteq> 40 then Some Refuse
      else do {
        let destinations = (if w_next w = 60 then w_destination_headers w + 1 else w_destination_headers w);
        if w_next w = 60 \<and> destinations > 2 then Some Refuse
        else do {
          units \<leftarrow> byte_at packet (w_offset w + 1);
          let size = (unat units + 1) * 8;
          if size > room then Some Refuse
          else do {
            accepted \<leftarrow> ipv6_options packet (w_offset w + size) (w_offset w + 2);
            if \<not> accepted then Some Refuse
            else Some (Go (w\<lparr>w_offset := w_offset w + size, w_next := following,
                             w_destination_headers := destinations\<rparr>))
          }
        }
      })"

definition extension_header :: "bytes \<Rightarrow> Walk \<Rightarrow> walk_result option" where
  "extension_header packet w =
     (if \<not> known_extension (w_next w) then Some Accept
      else if w_next w \<in> {43, 50, 135, 139, 140, 253, 254} then Some Refuse
      else do {
        room \<leftarrow> size_sub (length packet) (w_offset w);
        if room < 8 then Some Refuse
        else do {
          following \<leftarrow> byte_at packet (w_offset w);
          if w_next w = 44 then fragment_header packet w room following
          else if w_next w = 51 then authentication_header packet w room following
          else options_header packet w room following
        }
      })"

text \<open>The loop, \<open>remaining\<close> headers still allowed, and the test after it.\<close>

primrec walk_extensions :: "nat \<Rightarrow> bytes \<Rightarrow> Walk \<Rightarrow> bool option" where
  "walk_extensions 0 packet w = Some (\<not> known_extension (w_next w))"
| "walk_extensions (Suc remaining) packet w = do {
     result \<leftarrow> extension_header packet w;
     case result of
       Refuse \<Rightarrow> Some False
     | Accept \<Rightarrow> Some True
     | Go w \<Rightarrow> walk_extensions remaining packet w
   }"

definition inspect_ip_packet_for_address_policy :: "bytes \<Rightarrow> IpPacketInfo option option" where
  "inspect_ip_packet_for_address_policy packet = do {
     inspected \<leftarrow> inspect_ip_packet packet;
     case inspected of
       None \<Rightarrow> Some None
     | Some info \<Rightarrow>
         if p_packet_size info \<noteq> length packet then Some None
         else do {
           accepted \<leftarrow> (if p_version info = Ipv4 then ipv4_options packet (p_header_size info) 20
                        else do {
                          first \<leftarrow> byte_at packet 6;
                          walk_extensions kMaxExtensionHeaders packet
                            \<lparr>w_offset = 40, w_next = first, w_fragment_seen = False,
                             w_authentication_seen = False, w_destination_headers = 0\<rparr>
                        });
           Some (if accepted then Some info else None)
         }
   }"

section \<open>Options of an IPv4 header\<close>

fun options_ok :: "bytes \<Rightarrow> bool" where
  "options_ok [] = True"
| "options_ok (t # rest) =
     (if t = 0 then list_all (\<lambda>b. b = 0) rest
      else if t = 1 then options_ok rest
      else if t = 131 \<or> t = 137 then False
      else case rest of
        [] \<Rightarrow> False
      | n # body \<Rightarrow> 2 \<le> unat n \<and> unat n \<le> length body + 2 \<and> options_ok (drop (unat n - 2) body))"

declare options_ok.simps(2) [simp del]

lemma all_zero_from_eq:
  assumes "stop \<le> length packet"
  shows "all_zero_from packet offset stop = Some (list_all (\<lambda>b. b = 0) (take (stop - offset) (drop offset packet)))"
  using assms
proof (induction "stop - offset" arbitrary: offset)
  case 0
  then show ?case by (subst all_zero_from.simps) simp
next
  case (Suc n)
  have less: "offset < stop" "offset < length packet" using Suc.hyps(2) Suc.prems by simp_all
  have IH: "all_zero_from packet (offset + 1) stop
      = Some (list_all (\<lambda>b. b = 0) (take (stop - (offset + 1)) (drop (offset + 1) packet)))"
    using Suc.hyps(2) Suc.prems by (intro Suc.hyps(1)) simp_all
  have "take (stop - offset) (drop offset packet) = packet ! offset # take (stop - (offset + 1)) (drop (offset + 1) packet)"
    using less by (simp add: Cons_nth_drop_Suc [symmetric] Suc_diff_Suc [symmetric])
  then show ?case using less IH by (subst all_zero_from.simps) simp
qed

lemma take_drop_Cons:
  assumes "i < j" and "j \<le> length xs"
  shows "take (j - i) (drop i xs) = xs ! i # take (j - (i + 1)) (drop (i + 1) xs)"
  using assms by (simp add: Cons_nth_drop_Suc [symmetric] Suc_diff_Suc [symmetric])

lemma ipv4_options_eq:
  assumes "header_size \<le> length packet"
  shows "ipv4_options packet header_size offset
      = Some (options_ok (take (header_size - offset) (drop offset packet)))"
  using assms
proof (induction "header_size - offset" arbitrary: offset rule: less_induct)
  case less
  show ?case
  proof (cases "offset < header_size")
    case True
    let ?t = "packet ! offset" and ?rest = "take (header_size - (offset + 1)) (drop (offset + 1) packet)"
    have xs: "take (header_size - offset) (drop offset packet) = ?t # ?rest"
      using True less.prems by (rule take_drop_Cons)
    have IH: "ipv4_options packet header_size (offset + k)
        = Some (options_ok (take (header_size - (offset + k)) (drop (offset + k) packet)))" if "0 < k" for k
      using that True less.prems by (intro less.hyps) simp_all
    show ?thesis
    proof (cases "offset + 1 < header_size")
      case more: True
      let ?size = "packet ! (offset + 1)" and ?body = "take (header_size - (offset + 1 + 1)) (drop (offset + 1 + 1) packet)"
      have rest: "?rest = ?size # ?body" using more less.prems by (rule take_drop_Cons)
      have "drop (unat ?size - 2) ?body = take (header_size - (offset + unat ?size)) (drop (offset + unat ?size) packet)"
        if two: "2 \<le> unat ?size"
      proof -
        obtain m where "unat ?size = m + 2" using le_Suc_ex [OF two] by auto
        then show ?thesis by (simp add: drop_take add.commute)
      qed
      then show ?thesis
        unfolding xs using True more less.prems IH [of 1] IH [of "unat ?size"] all_zero_from_eq [of header_size packet offset]
        by (subst ipv4_options.simps) (auto simp: options_ok.simps(2) rest [simplified] xs [simplified] split: if_splits)
    next
      case False
      then have "?rest = []" by simp
      then show ?thesis
        unfolding xs using True False less.prems IH [of 1] all_zero_from_eq [of header_size packet offset]
        by (subst ipv4_options.simps) (auto simp: options_ok.simps(2) xs)
    qed
  next
    case False
    then show ?thesis by (subst ipv4_options.simps) simp
  qed
qed

section \<open>Options and headers of an IPv6 packet\<close>

text \<open>Where the next option starts, and where the next extension header starts: the layout the
  RFCs give, independent of any check.\<close>

inductive next_option :: "bytes \<Rightarrow> nat \<Rightarrow> nat \<Rightarrow> bool" for packet where
  pad1: "packet ! p = 0 \<Longrightarrow> next_option packet p (p + 1)"
| other: "packet ! p \<noteq> 0 \<Longrightarrow> next_option packet p (p + 2 + unat (packet ! (p + 1)))"

definition fragment_word :: "bytes \<Rightarrow> nat \<Rightarrow> nat" where
  "fragment_word packet offset = push_bit 8 (unat (packet ! (offset + 2))) OR unat (packet ! (offset + 3))"

definition options_size :: "bytes \<Rightarrow> nat \<Rightarrow> nat" where
  "options_size packet offset = (unat (packet ! (offset + 1)) + 1) * 8"

inductive next_header :: "bytes \<Rightarrow> u8 \<times> nat \<Rightarrow> u8 \<times> nat \<Rightarrow> bool" for packet where
  options: "n = 0 \<or> n = 60 \<Longrightarrow> next_header packet (n, p) (packet ! p, p + options_size packet p)"
| authentication: "next_header packet (51, p) (packet ! p, p + (unat (packet ! (p + 1)) + 2) * 4)"
| fragment: "fragment_word packet p AND 0xfff8 = 0 \<Longrightarrow> next_header packet (44, p) (packet ! p, p + 8)"

inductive_cases next_headerE: "next_header packet (n, p) h"
inductive_simps next_option_simps: "next_option packet p q"

lemma next_option_det: "next_option packet p q \<Longrightarrow> next_option packet p r \<Longrightarrow> q = r"
  by (auto simp: next_option_simps)

lemma ipv6_options_bounds:
  assumes "stop \<le> length packet"
  shows "\<exists>r. ipv6_options packet stop position = Some r"
  using assms
proof (induction "stop - position" arbitrary: position rule: less_induct)
  case less
  have IH: "\<exists>r. ipv6_options packet stop (position + k) = Some r" if "position < stop" "0 < k" for k
    using that less.prems by (intro less.hyps) simp_all
  show ?case
  proof (cases "position < stop")
    case True
    then show ?thesis
      using less.prems IH [OF True, of 1] IH [OF True, of "2 + unat (packet ! (position + 1))"]
        all_zero_from_eq [of "position + 2 + unat (packet ! (position + 1))" packet "position + 2"]
      by (subst ipv6_options.simps) auto
  next
    case False
    then show ?thesis by (subst ipv6_options.simps) auto
  qed
qed

lemma ipv6_options_safe:
  assumes "ipv6_options packet stop position = Some True" and "stop \<le> length packet"
    and "(next_option packet)\<^sup>*\<^sup>* position q" and "q < stop"
  shows "packet ! q \<noteq> 201 \<and> packet ! q \<noteq> 194"
  using assms(3,1,2,4)
proof (induction position rule: converse_rtranclp_induct)
  case base
  then show ?case by (subst (asm) ipv6_options.simps) (auto split: if_splits)
next
  case (step p r)
  have "p < r" using step.hyps(1) by (auto simp: next_option_simps)
  moreover have "r \<le> q" using step.hyps(2)
    by (induction rule: rtranclp_induct) (auto simp: next_option_simps)
  ultimately have p: "p < stop" using step.prems by simp
  have "ipv6_options packet stop r = Some True"
    using step.prems(1) step.hyps(1) p unfolding ipv6_options.simps [of packet stop p]
    by (auto simp: next_option_simps bind_eq_Some_conv add.assoc split: if_splits)
  with step show ?case by simp
qed

section \<open>The walk over the extension headers\<close>

text \<open>Which headers the walk must never pass.\<close>

definition header_safe :: "bytes \<Rightarrow> u8 \<times> nat \<Rightarrow> bool" where
  "header_safe packet h \<longleftrightarrow> (case h of (n, p) \<Rightarrow>
     n \<notin> {43, 50, 135, 139, 140, 253, 254} \<and>
     (n = 0 \<or> n = 60 \<longrightarrow> p + options_size packet p \<le> length packet \<and>
        (\<forall>q. (next_option packet)\<^sup>*\<^sup>* (p + 2) q \<and> q < p + options_size packet p \<longrightarrow>
           packet ! q \<noteq> 201 \<and> packet ! q \<noteq> 194)))"

text \<open>One header: it is read in bounds, it is safe when it is passed, and the walk goes on where
  the layout says.\<close>

lemma extension_header_step:
  assumes "w_offset w \<le> length packet"
  shows "\<exists>r. extension_header packet w = Some r \<and>
    (r \<noteq> Refuse \<longrightarrow> header_safe packet (w_next w, w_offset w)) \<and>
    (r = Accept \<longrightarrow> (\<nexists>h. next_header packet (w_next w, w_offset w) h)) \<and>
    (\<forall>w'. r = Go w' \<longrightarrow> w_offset w' \<le> length packet \<and>
       (\<forall>h. next_header packet (w_next w, w_offset w) h \<longrightarrow> h = (w_next w', w_offset w')))"
proof -
  let ?n = "w_next w" and ?p = "w_offset w"
  consider "\<not> known_extension ?n" | "?n \<in> {43, 50, 135, 139, 140, 253, 254}"
    | "length packet < ?p + 8" "?n = 44 \<or> ?n = 51 \<or> ?n = 0 \<or> ?n = 60"
    | "?p + 8 \<le> length packet" "?n = 44" | "?p + 8 \<le> length packet" "?n = 51"
    | "?p + 8 \<le> length packet" "?n = 0 \<or> ?n = 60"
    unfolding known_extension_def by fastforce
  then show ?thesis
  proof cases
    case 1
    then show ?thesis
      by (auto simp: extension_header_def header_safe_def known_extension_def elim!: next_headerE)
  next
    case 2
    then show ?thesis by (auto simp: extension_header_def known_extension_def)
  next
    case 3
    then show ?thesis using assms by (auto simp: extension_header_def known_extension_def)
  next
    case 4
    have word: "length_at packet (?p + 2) = Some (fragment_word packet ?p)"
      using 4 by (simp add: length_at_def fragment_word_def numeral_3_eq_3)
    show ?thesis
      using 4 word unfolding extension_header_def fragment_header_def
      by (auto simp: known_extension_def header_safe_def elim!: next_headerE)
  next
    case 5
    then show ?thesis
      unfolding extension_header_def authentication_header_def
      by (auto simp: known_extension_def header_safe_def Let_def elim!: next_headerE)
  next
    case 6
    have opts: "\<exists>r. ipv6_options packet (?p + options_size packet ?p) (?p + 2) = Some r \<and>
        (r \<longrightarrow> header_safe packet (?n, ?p))" if "?p + options_size packet ?p \<le> length packet"
      using ipv6_options_bounds [OF that, of "?p + 2"] ipv6_options_safe [OF _ that] that 6
      by (auto simp: header_safe_def)
    have ext: "known_extension ?n" "?n \<notin> {43, 50, 135, 139, 140, 253, 254}" "?n \<noteq> 44" "?n \<noteq> 51"
      using 6 by (auto simp: known_extension_def)
    have follow: "h = (packet ! ?p, ?p + options_size packet ?p)" if "next_header packet (?n, ?p) h" for h
      using that 6 by (auto elim!: next_headerE)
    let ?go = "Go (w\<lparr>w_offset := ?p + options_size packet ?p, w_next := packet ! ?p,
        w_destination_headers := (if ?n = 60 then w_destination_headers w + 1 else w_destination_headers w)\<rparr>)"
    have run: "extension_header packet w =
      (if ?n = 0 \<and> ?p \<noteq> 40 \<or> ?n = 60 \<and> 2 < w_destination_headers w + 1 \<or>
          length packet - ?p < options_size packet ?p then Some Refuse
       else do { accepted \<leftarrow> ipv6_options packet (?p + options_size packet ?p) (?p + 2);
                 if \<not> accepted then Some Refuse else Some ?go })"
      using 6 ext unfolding extension_header_def options_header_def options_size_def
      by (cases "ipv6_options packet (?p + (unat (packet ! (?p + 1)) + 1) * 8) (?p + 2)") (auto simp: Let_def)
    show ?thesis
    proof (cases "?n = 0 \<and> ?p \<noteq> 40 \<or> ?n = 60 \<and> 2 < w_destination_headers w + 1 \<or>
          length packet - ?p < options_size packet ?p")
      case True
      then show ?thesis unfolding run by simp
    next
      case False
      then have "?p + options_size packet ?p \<le> length packet" using 6 by linarith
      from opts [OF this] this show ?thesis unfolding run using False follow by auto
    qed
  qed
qed

lemma walk_bounds: "w_offset w \<le> length packet \<Longrightarrow> walk_extensions k packet w \<noteq> None"
proof (induction k arbitrary: w)
  case (Suc k)
  obtain r where r: "extension_header packet w = Some r"
    "\<forall>w'. r = Go w' \<longrightarrow> w_offset w' \<le> length packet"
    using extension_header_step [OF Suc.prems] by blast
  then show ?case using Suc.IH by (cases r) simp_all
qed simp

lemma walk_safe:
  assumes "walk_extensions k packet w = Some True" and "w_offset w \<le> length packet"
    and "(next_header packet)\<^sup>*\<^sup>* (w_next w, w_offset w) h"
  shows "header_safe packet h"
  using assms
proof (induction k arbitrary: w)
  case 0
  then have "\<not> known_extension (w_next w)" by simp
  then have "\<not> next_header packet (w_next w, w_offset w) h'" for h'
    by (auto simp: known_extension_def elim!: next_headerE)
  then have "h = (w_next w, w_offset w)" using "0.prems"(3) by (auto elim: converse_rtranclpE)
  with \<open>\<not> known_extension (w_next w)\<close> show ?case by (auto simp: header_safe_def known_extension_def)
next
  case (Suc k)
  obtain r where r: "extension_header packet w = Some r"
    "r \<noteq> Refuse \<longrightarrow> header_safe packet (w_next w, w_offset w)"
    "r = Accept \<longrightarrow> (\<nexists>h. next_header packet (w_next w, w_offset w) h)"
    "\<forall>w'. r = Go w' \<longrightarrow> w_offset w' \<le> length packet \<and>
       (\<forall>h. next_header packet (w_next w, w_offset w) h \<longrightarrow> h = (w_next w', w_offset w'))"
    using extension_header_step [OF Suc.prems(2)] by blast
  have passed: "r \<noteq> Refuse" using Suc.prems(1) r(1) by auto
  from Suc.prems(3) show ?case
  proof (cases rule: converse_rtranclpE)
    case base
    then show ?thesis using r(2) passed by blast
  next
    case (step h')
    then have "r \<noteq> Accept" using r(3) by blast
    with passed obtain w' where w': "r = Go w'" by (cases r) blast+
    have "h' = (w_next w', w_offset w')" and "w_offset w' \<le> length packet" using r(4) w' step(1) by blast+
    moreover have "walk_extensions k packet w' = Some True" using Suc.prems(1) r(1) w' by simp
    ultimately show ?thesis using Suc.IH [of w'] step(2) by blast
  qed
qed

section \<open>Properties\<close>

lemma inspect_bounds: "inspect_ip_packet packet \<noteq> None"
  by (auto simp: inspect_ip_packet_def length_at_def copy_to_def Let_def)

lemma inspect_shape:
  "inspect_ip_packet packet = Some (Some info) \<Longrightarrow>
     20 \<le> p_header_size info \<and> p_header_size info \<le> p_packet_size info \<and> p_packet_size info \<le> length packet \<and>
     (p_version info = Ipv6 \<longrightarrow> p_header_size info = 40)"
  by (auto simp: inspect_ip_packet_def length_at_def copy_to_def Let_def bind_eq_Some_conv split: if_splits)

lemma policy_eq:
  assumes "inspect_ip_packet packet = Some (Some info)" and "p_packet_size info = length packet"
  shows "inspect_ip_packet_for_address_policy packet =
    (if p_version info = Ipv4
     then Some (if options_ok (take (p_header_size info - 20) (drop 20 packet)) then Some info else None)
     else map_option (\<lambda>ok. if ok then Some info else None)
       (walk_extensions kMaxExtensionHeaders packet
          \<lparr>w_offset = 40, w_next = packet ! 6, w_fragment_seen = False,
           w_authentication_seen = False, w_destination_headers = 0\<rparr>))"
  using inspect_shape [OF assms(1)] assms
  by (cases "p_version info")
    (auto simp: inspect_ip_packet_for_address_policy_def ipv4_options_eq map_option_case
      split: option.splits)

lemma policy_accepted:
  assumes "inspect_ip_packet_for_address_policy packet = Some (Some info)"
  shows "inspect_ip_packet packet = Some (Some info)" and "p_packet_size info = length packet"
proof -
  obtain r where r: "inspect_ip_packet packet = Some r" using inspect_bounds [of packet] by blast
  then obtain i where i: "r = Some i" "p_packet_size i = length packet"
    using assms unfolding inspect_ip_packet_for_address_policy_def by (cases r) (simp_all split: if_splits)
  have "info = i"
    using assms unfolding policy_eq [OF r [unfolded i(1)] i(2)] by (auto split: if_splits)
  with r i show "inspect_ip_packet packet = Some (Some info)" "p_packet_size info = length packet" by simp_all
qed

text \<open>C13: inspecting a packet for policy never reads outside it, and an IPv4 packet passes exactly
  when its base header is well formed, it fills its datagram, and its options are a sequence
  of well-formed options with no source route, up to zero padding.\<close>

theorem ipv4_policy_exact:
  "(inspect_ip_packet_for_address_policy packet = Some (Some info) \<and> p_version info = Ipv4 \<longleftrightarrow>
      inspect_ip_packet packet = Some (Some info) \<and> p_version info = Ipv4 \<and>
      p_packet_size info = length packet \<and>
      options_ok (take (p_header_size info - 20) (drop 20 packet))) \<and>
   inspect_ip_packet_for_address_policy packet \<noteq> None"
proof -
  obtain r where r: "inspect_ip_packet packet = Some r" using inspect_bounds [of packet] by blast
  show ?thesis
  proof (cases "\<exists>i. r = Some i \<and> p_packet_size i = length packet")
    case True
    then obtain i where i: "r = Some i" "p_packet_size i = length packet" by blast
    have "40 \<le> length packet" if "p_version i = Ipv6"
      using inspect_shape [of packet i] r i that by simp
    then show ?thesis
      using policy_eq [of packet i] r i walk_bounds
      by (cases "p_version i") auto
  next
    case False
    then show ?thesis
      using r by (cases r) (auto simp: inspect_ip_packet_for_address_policy_def)
  qed
qed

text \<open>C12: in an IPv6 packet that passes, no extension header of the chain, as the layout defines
  it, is a routing header or one that cannot be inspected, and no option of a Hop-by-Hop or
  Destination Options header is a home address or a jumbo payload.\<close>

theorem ipv6_policy_safe:
  assumes "inspect_ip_packet_for_address_policy packet = Some (Some info)" and "p_version info = Ipv6"
    and "(next_header packet)\<^sup>*\<^sup>* (packet ! 6, 40) h"
  shows "header_safe packet h"
proof -
  note i = policy_accepted [OF assms(1)]
  let ?w = "\<lparr>w_offset = 40, w_next = packet ! 6, w_fragment_seen = False,
       w_authentication_seen = False, w_destination_headers = 0\<rparr>"
  have "40 \<le> length packet" using inspect_shape [OF i(1)] i(2) assms(2) by simp
  moreover have "walk_extensions kMaxExtensionHeaders packet ?w = Some True"
    using assms(1,2) unfolding policy_eq [OF i] by (auto split: if_splits)
  ultimately show ?thesis using walk_safe [of kMaxExtensionHeaders packet ?w h] assms(3) by simp
qed

definition sample_ipv6 :: bytes where
  "sample_ipv6 = [0x60, 0, 0, 0, 0, 8, 60, 64] @ replicate 32 0 @ [17, 0, 1, 4, 0, 0, 0, 0]"

theorem ipv6_policy_safe_witness: "header_safe sample_ipv6 (60, 40)"
proof -
  have "inspect_ip_packet_for_address_policy sample_ipv6 = Some (Some
      \<lparr>p_version = Ipv6, p_source = replicate 16 0, p_destination = replicate 16 0,
       p_packet_size = 48, p_header_size = 40\<rparr>)"
    by code_simp
  moreover have "sample_ipv6 ! 6 = 60" by (simp add: sample_ipv6_def)
  ultimately show ?thesis using ipv6_policy_safe [of sample_ipv6 _ "(60, 40)"] by simp
qed

end
