(* ===== verification/Udp_Queue_Budget.thy ===== *)
theory Udp_Queue_Budget
  imports Yume_Prelude
begin

text \<open>
  The bound on queued UDP datagrams (\<^verbatim>\<open>src/src/common/udp_queue_budget.hpp\<close>): the shared state
  of the budget, the reservations that release their share when they are destroyed or
  overwritten, and the steps a program can make with them. The budget is shown to implement
  a multiset of queued datagram sizes under two limits.
\<close>

section \<open>Operations\<close>

definition kMaxUdpQueuedDatagrams :: nat where
  "kMaxUdpQueuedDatagrams = 64"

definition kMaxUdpQueuedBytes :: nat where
  "kMaxUdpQueuedBytes = 1 * 1024 * 1024"

record State =
  queued_datagrams :: nat
  queued_bytes :: nat
  closed :: bool

definition initial_State :: State where
  "initial_State = \<lparr>queued_datagrams = 0, queued_bytes = 0, closed = False\<rparr>"

text \<open>A reservation holds the pointer to the shared state or none, and its bytes.\<close>

record Reservation =
  r_state :: bool
  r_bytes :: nat

definition empty_Reservation :: Reservation where
  "empty_Reservation = \<lparr>r_state = False, r_bytes = 0\<rparr>"

text \<open>\<^verbatim>\<open>kMaxUdpQueuedBytes - bytes\<close> is evaluated only when it does not wrap around.\<close>

definition try_reserve :: "nat \<Rightarrow> State \<Rightarrow> Reservation option \<times> State" where
  "try_reserve n s =
     (if closed s \<or> queued_datagrams s \<ge> kMaxUdpQueuedDatagrams \<or> n > kMaxUdpQueuedBytes \<or>
         queued_bytes s > kMaxUdpQueuedBytes - n
      then (None, s)
      else (Some \<lparr>r_state = True, r_bytes = n\<rparr>,
            s\<lparr>queued_datagrams := queued_datagrams s + 1, queued_bytes := queued_bytes s + n\<rparr>))"

definition release_now :: "Reservation \<Rightarrow> State \<Rightarrow> Reservation \<times> State" where
  "release_now r s =
     (let n = r_bytes r in
      (empty_Reservation,
       if \<not> r_state r then s
       else
         (let s = (if queued_datagrams s > 0 then s\<lparr>queued_datagrams := queued_datagrams s - 1\<rparr> else s)
          in s\<lparr>queued_bytes := (if n \<ge> queued_bytes s then 0 else queued_bytes s - n)\<rparr>)))"

text \<open>Move construction and move assignment: the source is left empty.\<close>

definition move_construct :: "Reservation \<Rightarrow> Reservation \<times> Reservation" where
  "move_construct other = (other, empty_Reservation)"

definition move_assign :: "Reservation \<Rightarrow> Reservation \<Rightarrow> State \<Rightarrow> Reservation \<times> Reservation \<times> State" where
  "move_assign this other s =
     (let (this, s) = release_now this s in (other, empty_Reservation, s))"

definition close :: "State \<Rightarrow> State" where
  "close s = s\<lparr>closed := True\<rparr>"

section \<open>Programs\<close>

text \<open>
  A program owns reservations by name. Each of its steps runs one operation under the lock:
  reserve into a new name, move into a new name, assign over an existing one, release and keep the
  empty object, destroy, close.
\<close>

type_synonym env = "nat \<Rightarrow> Reservation option"

inductive queue_step :: "env \<times> State \<Rightarrow> env \<times> State \<Rightarrow> bool" where
  reserve: "env x = None \<Longrightarrow> try_reserve n s = (Some r, s') \<Longrightarrow> queue_step (env, s) (env(x \<mapsto> r), s')"
| refuse: "try_reserve n s = (None, s') \<Longrightarrow> queue_step (env, s) (env, s')"
| move: "env x = None \<Longrightarrow> env y = Some r \<Longrightarrow> move_construct r = (a, b) \<Longrightarrow>
    queue_step (env, s) (env(x \<mapsto> a, y \<mapsto> b), s)"
| assign: "x \<noteq> y \<Longrightarrow> env x = Some r \<Longrightarrow> env y = Some q \<Longrightarrow> move_assign r q s = (a, b, s') \<Longrightarrow>
    queue_step (env, s) (env(x \<mapsto> a, y \<mapsto> b), s')"
| release: "env x = Some r \<Longrightarrow> release_now r s = (q, s') \<Longrightarrow> queue_step (env, s) (env(x \<mapsto> q), s')"
| destroy: "env x = Some r \<Longrightarrow> release_now r s = (q, s') \<Longrightarrow> queue_step (env, s) (env(x := None), s')"
| close: "queue_step (env, s) (env, close s)"

section \<open>The queue it implements\<close>

text \<open>The sizes of the datagrams now reserved.\<close>

definition holders :: "env \<Rightarrow> nat set" where
  "holders env = {x. \<exists>r. env x = Some r \<and> r_state r}"

definition reserved :: "env \<Rightarrow> nat multiset" where
  "reserved env = image_mset (\<lambda>x. r_bytes (the (env x))) (mset_set (holders env))"

definition queue_inv :: "env \<times> State \<Rightarrow> bool" where
  "queue_inv p \<longleftrightarrow> (case p of (env, s) \<Rightarrow>
     finite (dom env) \<and> (\<forall>x r. env x = Some r \<and> \<not> r_state r \<longrightarrow> r_bytes r = 0) \<and>
     queued_datagrams s = size (reserved env) \<and> queued_bytes s = sum_mset (reserved env) \<and>
     queued_datagrams s \<le> kMaxUdpQueuedDatagrams \<and> queued_bytes s \<le> kMaxUdpQueuedBytes)"

text \<open>The abstract queue: a multiset of sizes and the closed flag.\<close>

definition admits :: "nat multiset \<Rightarrow> bool \<Rightarrow> nat \<Rightarrow> bool" where
  "admits M c n \<longleftrightarrow> \<not> c \<and> size M < kMaxUdpQueuedDatagrams \<and> sum_mset M + n \<le> kMaxUdpQueuedBytes"

inductive spec_step :: "nat multiset \<times> bool \<Rightarrow> nat multiset \<times> bool \<Rightarrow> bool" where
  admit: "admits M c n \<Longrightarrow> spec_step (M, c) (add_mset n M, c)"
| skip: "spec_step (M, c) (M, c)"
| leave: "spec_step (add_mset n M, c) (M, c)"
| shut: "spec_step (M, c) (M, True)"

definition abstract :: "env \<times> State \<Rightarrow> nat multiset \<times> bool" where
  "abstract p = (case p of (env, s) \<Rightarrow> (reserved env, closed s))"

lemma finite_holders: "finite (dom env) \<Longrightarrow> finite (holders env)"
  by (rule finite_subset [of _ "dom env"]) (auto simp: holders_def)

lemma reserved_cong:
  assumes "\<And>y. y \<in> holders env \<Longrightarrow> env' y = env y" and "holders env' = holders env" and "finite (dom env)"
  shows "reserved env' = reserved env"
  unfolding reserved_def assms(2)
  by (rule image_mset_cong) (use assms(1) finite_holders [OF assms(3)] in simp)

text \<open>Setting a name: its old share leaves, its new share comes.\<close>

definition share :: "Reservation option \<Rightarrow> nat multiset" where
  "share x = (case x of None \<Rightarrow> {#} | Some r \<Rightarrow> if r_state r then {# r_bytes r #} else {#})"

lemma reserved_split:
  assumes "finite (dom env)"
  shows "reserved env = share (env x) + reserved (env(x := None))"
proof (cases "x \<in> holders env")
  case True
  then obtain r where r: "env x = Some r" "r_state r" by (auto simp: holders_def)
  have "holders env = insert x (holders (env(x := None)))" "x \<notin> holders (env(x := None))"
    using True by (auto simp: holders_def)
  moreover have fin: "finite (holders (env(x := None)))"
    using assms by (intro finite_holders) simp
  moreover have "image_mset (\<lambda>y. r_bytes (the (env y))) (mset_set (holders (env(x := None))))
      = reserved (env(x := None))"
    unfolding reserved_def by (rule image_mset_cong) (use fin in \<open>auto simp: holders_def\<close>)
  ultimately show ?thesis
    using r unfolding reserved_def [of env] by (simp add: share_def)
next
  case False
  then have "holders (env(x := None)) = holders env" by (auto simp: holders_def split: if_splits)
  then have "reserved (env(x := None)) = reserved env"
    using False assms by (intro reserved_cong) auto
  with False show ?thesis by (auto simp: share_def holders_def split: option.splits)
qed

lemma reserved_update:
  assumes "finite (dom env)"
  shows "reserved (env(x := v)) = share v + (reserved env - share (env x))"
  using reserved_split [of "env(x := v)" x] reserved_split [OF assms, of x] assms by simp

section \<open>Every step keeps the invariant and follows the queue\<close>

lemma reserve_eq:
  "try_reserve n s = (if \<not> closed s \<and> queued_datagrams s < kMaxUdpQueuedDatagrams \<and>
       queued_bytes s + n \<le> kMaxUdpQueuedBytes
     then (Some \<lparr>r_state = True, r_bytes = n\<rparr>,
           s\<lparr>queued_datagrams := queued_datagrams s + 1, queued_bytes := queued_bytes s + n\<rparr>)
     else (None, s))"
  by (auto simp: try_reserve_def)

text \<open>Under the invariant a release never meets the clamps to zero.\<close>

lemma release_eq:
  assumes "queue_inv (env, s)" and "env x = Some r"
  shows "release_now r s = (empty_Reservation,
    s\<lparr>queued_datagrams := size (reserved (env(x := None))), queued_bytes := sum_mset (reserved (env(x := None)))\<rparr>)"
proof -
  have fin: "finite (dom env)" and counts: "queued_datagrams s = size (reserved env)"
    "queued_bytes s = sum_mset (reserved env)"
    using assms(1) by (simp_all add: queue_inv_def)
  show ?thesis
    using reserved_split [OF fin, of x] counts assms(2)
    by (cases s) (auto simp: release_now_def Let_def share_def)
qed

lemma leave_share: "spec_step (share v + M, c) (M, c)"
  by (auto simp: share_def intro: spec_step.skip spec_step.leave split: option.splits)

lemma queue_step_sim:
  assumes "queue_step p q" and "queue_inv p"
  shows "queue_inv q \<and> spec_step (abstract p) (abstract q)"
  using assms
proof (induction rule: queue_step.induct)
  case (reserve env x n s r s')
  have fin: "finite (dom env)" using reserve.prems by (simp add: queue_inv_def)
  have "reserved (env(x \<mapsto> \<lparr>r_state = True, r_bytes = n\<rparr>)) = add_mset n (reserved env)"
    using reserved_update [OF fin] reserve.hyps(1) by (simp add: share_def)
  with reserve show ?case
    by (auto simp: reserve_eq queue_inv_def abstract_def admits_def intro!: spec_step.admit split: if_splits)
next
  case (refuse n s s' env)
  then show ?case by (auto simp: reserve_eq abstract_def intro: spec_step.skip split: if_splits)
next
  case (move env x y r a b s)
  have fin: "finite (dom env)" using move.prems by (simp add: queue_inv_def)
  have "reserved (env(x \<mapsto> r, y \<mapsto> empty_Reservation)) = reserved env"
    using reserved_update [of "env(x \<mapsto> r)" y "Some empty_Reservation"] reserved_update [OF fin, of x "Some r"]
      reserved_split [OF fin, of y] move.hyps fin
    by (auto simp: share_def empty_Reservation_def)
  with move show ?case
    by (auto simp: move_construct_def queue_inv_def abstract_def empty_Reservation_def intro: spec_step.skip)
next
  case (assign x y env r q s a b s')
  have fin: "finite (dom env)" using assign.prems by (simp add: queue_inv_def)
  have "reserved (env(x \<mapsto> q)) = share (Some q) + reserved (env(x := None))"
    using reserved_split [of "env(x \<mapsto> q)" x] fin by simp
  then have rest: "reserved (env(x \<mapsto> q, y \<mapsto> empty_Reservation)) = reserved (env(x := None))"
    using reserved_update [of "env(x \<mapsto> q)" y "Some empty_Reservation"] assign.hyps fin
    by (simp add: share_def empty_Reservation_def)
  have run: "a = q" "b = empty_Reservation" "s' = snd (release_now r s)"
    using assign.hyps(4) by (auto simp: move_assign_def split: prod.splits)
  note released = release_eq [OF assign.prems assign.hyps(2)]
  have "queue_inv (env(x \<mapsto> q, y \<mapsto> empty_Reservation), s')"
    using assign.prems assign.hyps released run(3) rest fin reserved_split [OF fin, of x]
    by (auto simp: queue_inv_def empty_Reservation_def)
  moreover have "spec_step (abstract (env, s)) (abstract (env(x \<mapsto> q, y \<mapsto> empty_Reservation), s'))"
    using leave_share [of "env x" "reserved (env(x := None))" "closed s"] reserved_split [OF fin, of x]
      rest released run(3) by (simp add: abstract_def)
  ultimately show ?case by (simp add: run)
next
  case (release env x r s q s')
  have fin: "finite (dom env)" using release.prems by (simp add: queue_inv_def)
  note released = release_eq [OF release.prems release.hyps(1)]
  have rest: "reserved (env(x \<mapsto> empty_Reservation)) = reserved (env(x := None))"
    using reserved_split [of "env(x \<mapsto> empty_Reservation)" x] fin by (simp add: share_def empty_Reservation_def)
  have "queue_inv (env(x \<mapsto> empty_Reservation), s')"
    using release.prems release.hyps(2) released rest fin reserved_split [OF fin, of x]
    by (auto simp: queue_inv_def empty_Reservation_def)
  moreover have "spec_step (abstract (env, s)) (abstract (env(x \<mapsto> empty_Reservation), s'))"
    using leave_share [of "env x" "reserved (env(x := None))" "closed s"] reserved_split [OF fin, of x]
      rest released release.hyps(2) by (auto simp: abstract_def)
  ultimately show ?case using released release.hyps(2) by simp
next
  case (destroy env x r s q s')
  have fin: "finite (dom env)" using destroy.prems by (simp add: queue_inv_def)
  note released = release_eq [OF destroy.prems destroy.hyps(1)]
  have "queue_inv (env(x := None), s')"
    using destroy.prems destroy.hyps(2) released fin reserved_split [OF fin, of x]
    by (auto simp: queue_inv_def)
  moreover have "spec_step (abstract (env, s)) (abstract (env(x := None), s'))"
    using leave_share [of "env x" "reserved (env(x := None))" "closed s"] reserved_split [OF fin, of x]
      released destroy.hyps(2) by (auto simp: abstract_def)
  ultimately show ?case by simp
next
  case (close env s)
  then show ?case by (auto simp: queue_inv_def abstract_def close_def intro: spec_step.shut)
qed

definition idle_queue :: "env \<times> State" where
  "idle_queue = (Map.empty, initial_State)"

lemma start_inv: "queue_inv idle_queue"
  by (simp add: idle_queue_def queue_inv_def initial_State_def reserved_def holders_def)

lemma reachable_inv: "queue_step\<^sup>*\<^sup>* idle_queue p \<Longrightarrow> queue_inv p"
  by (induction rule: rtranclp_induct) (use start_inv queue_step_sim in blast)+

section \<open>Properties\<close>

text \<open>C14: in every state a program can reach, the counters are the number and the total size of
  the live reservations and stay within the two limits; every step follows the abstract queue;
  and a request is admitted exactly when the abstract queue admits it, so saturation never
  seals the queue.\<close>

theorem udp_queue_refines:
  assumes "queue_step\<^sup>*\<^sup>* idle_queue (env, s)"
  shows "queued_datagrams s = size (reserved env) \<and> queued_bytes s = sum_mset (reserved env) \<and>
    size (reserved env) \<le> 64 \<and> sum_mset (reserved env) \<le> 1048576 \<and>
    (\<forall>q. queue_step (env, s) q \<longrightarrow> spec_step (abstract (env, s)) (abstract q)) \<and>
    (\<forall>n. (\<exists>r s'. try_reserve n s = (Some r, s')) \<longleftrightarrow> admits (reserved env) (closed s) n)"
proof -
  have inv: "queue_inv (env, s)" using reachable_inv assms by blast
  have "queued_datagrams s = size (reserved env)" "queued_bytes s = sum_mset (reserved env)"
    "size (reserved env) \<le> 64" "sum_mset (reserved env) \<le> 1048576"
    using inv by (simp_all add: queue_inv_def kMaxUdpQueuedDatagrams_def kMaxUdpQueuedBytes_def)
  moreover have "\<forall>q. queue_step (env, s) q \<longrightarrow> spec_step (abstract (env, s)) (abstract q)"
    using queue_step_sim inv by blast
  ultimately show ?thesis by (simp add: reserve_eq admits_def)
qed

theorem udp_queue_refines_witness:
  "\<exists>s. queue_step\<^sup>*\<^sup>* idle_queue ([0 \<mapsto> \<lparr>r_state = True, r_bytes = 1500\<rparr>], s) \<and> queued_bytes s = 1500"
proof -
  let ?s = "\<lparr>queued_datagrams = 1, queued_bytes = 1500, closed = False\<rparr>"
  have "try_reserve 1500 initial_State = (Some \<lparr>r_state = True, r_bytes = 1500\<rparr>, ?s)"
    by (simp add: try_reserve_def initial_State_def kMaxUdpQueuedDatagrams_def kMaxUdpQueuedBytes_def)
  from queue_step.reserve [OF _ this, of Map.empty 0]
  have run: "queue_step\<^sup>*\<^sup>* idle_queue ([0 \<mapsto> \<lparr>r_state = True, r_bytes = 1500\<rparr>], ?s)"
    unfolding idle_queue_def by auto
  have "reserved [0 \<mapsto> \<lparr>r_state = True, r_bytes = 1500\<rparr>] = {# 1500 #}"
    using reserved_split [of "[0 \<mapsto> \<lparr>r_state = True, r_bytes = 1500\<rparr>]" 0]
    by (simp add: share_def reserved_def holders_def)
  moreover have "queued_bytes ?s = sum_mset (reserved [0 \<mapsto> \<lparr>r_state = True, r_bytes = 1500\<rparr>])"
    using udp_queue_refines [OF run] by blast
  ultimately have "queued_bytes ?s = 1500" by simp
  with run show ?thesis by blast
qed

end
