(* ===== verification/Device_Nat.thy ===== *)
theory Device_Nat
  imports Yume_Prelude
begin

text \<open>
  The packet half of the device bridge (\<^verbatim>\<open>src/src/runtime/device_nat.cpp\<close>): it classifies an IP
  packet from a TUN device, rewrites TCP segments between an application and the bridge's own
  listener, answers segments of unknown connections with a reset, and builds UDP replies.

  The two hash tables are association lists; the code never depends on their order. A time point
  and a duration are unbounded integers; the clock's 64-bit range is not modelled. Checksums are sums of at most a few thousand 16-bit words in 64 bits, so they are
  natural numbers here. The packet handed back is the prefix of the storage the code returns as
  \<^verbatim>\<open>written\<close>. Inserting into a table always succeeds.
\<close>

section \<open>Data\<close>

type_synonym DeviceAddress = bytes

record DeviceAddressPair =
  ap_device :: DeviceAddress
  ap_peer :: DeviceAddress

record DeviceTcpOrigin =
  or_ipv6 :: bool
  or_destination :: DeviceAddress
  or_destination_port :: u16
  or_source_port :: u16

record DeviceDatagram =
  dg_ipv6 :: bool
  dg_source_port :: u16
  dg_destination :: DeviceAddress
  dg_destination_port :: u16
  dg_payload :: bytes

text \<open>\<^verbatim>\<open>DevicePacket\<close> with what the function gives its caller in each case.\<close>

datatype DevicePacket = Drop | Write bytes | Datagram DeviceDatagram

record DeviceNatLimits =
  lim_max_connections :: nat
  lim_pending :: int
  lim_linger :: int

datatype Phase = Pending | Accepted | Lingering

record Key =
  k_source_port :: u16
  k_destination_port :: u16
  k_destination :: DeviceAddress

record Entry =
  e_key :: Key
  e_phase :: Phase
  e_expires :: int

record Family =
  f_ipv6 :: bool
  f_addresses :: DeviceAddressPair
  f_listener_port :: u16
  f_next_port :: u16
  f_ports :: "(Key \<times> u16) list"
  f_entries :: "(u16 \<times> Entry) list"

record DeviceNat =
  dn_ipv4 :: "Family option"
  dn_ipv6 :: "Family option"
  dn_limits :: DeviceNatLimits
  dn_next_identification :: u16

definition kTcp :: u8 where "kTcp = 6"
definition kUdp :: u8 where "kUdp = 17"
definition kFin :: u8 where "kFin = 1"
definition kSyn :: u8 where "kSyn = 2"
definition kRst :: u8 where "kRst = 4"
definition kAck :: u8 where "kAck = 16"
definition kIpv4Header :: nat where "kIpv4Header = 20"
definition kIpv6Header :: nat where "kIpv6Header = 40"
definition kTcpHeader :: nat where "kTcpHeader = 20"
definition kUdpHeader :: nat where "kUdpHeader = 8"
definition kFirstPort :: u16 where "kFirstPort = 1024"
definition kHopLimit :: u8 where "kHopLimit = 64"

section \<open>Words and checksums\<close>

definition get16 :: "bytes \<Rightarrow> nat \<Rightarrow> u16 option" where
  "get16 p at = do {
     b0 \<leftarrow> byte_at p at;
     b1 \<leftarrow> byte_at p (at + 1);
     Some (push_bit 8 (ucast b0) OR ucast b1)
   }"

definition get32 :: "bytes \<Rightarrow> nat \<Rightarrow> u32 option" where
  "get32 p at = do {
     b0 \<leftarrow> byte_at p at;
     b1 \<leftarrow> byte_at p (at + 1);
     b2 \<leftarrow> byte_at p (at + 2);
     b3 \<leftarrow> byte_at p (at + 3);
     Some (push_bit 24 (ucast b0) OR push_bit 16 (ucast b1) OR push_bit 8 (ucast b2) OR ucast b3)
   }"

definition put16 :: "bytes \<Rightarrow> nat \<Rightarrow> u16 \<Rightarrow> bytes option" where
  "put16 p at value = do {
     p \<leftarrow> put_byte p at (ucast (drop_bit 8 value));
     put_byte p (at + 1) (ucast value)
   }"

definition put32 :: "bytes \<Rightarrow> nat \<Rightarrow> u32 \<Rightarrow> bytes option" where
  "put32 p at value = do {
     p \<leftarrow> put_byte p at (ucast (drop_bit 24 value));
     p \<leftarrow> put_byte p (at + 1) (ucast (drop_bit 16 value));
     p \<leftarrow> put_byte p (at + 2) (ucast (drop_bit 8 value));
     put_byte p (at + 3) (ucast value)
   }"

lemma fold_decreases:
  assumes "s div 65536 \<noteq> 0"
  shows "s mod 65536 + s div 65536 < (s :: nat)"
proof -
  have "s = 65536 * (s div 65536) + s mod 65536" by simp
  then show ?thesis using assms by linarith
qed

function fold_sum :: "nat \<Rightarrow> u16" where
  "fold_sum s = (if s div 65536 \<noteq> 0 then fold_sum (s mod 65536 + s div 65536) else of_nat s)"
  by pat_completeness auto
termination
  by (relation "measure id") (auto intro: fold_decreases)

declare fold_sum.simps [simp del]

fun sum_words :: "bytes \<Rightarrow> nat" where
  "sum_words (a # b # rest) = unat (of_be16 a b) + sum_words rest"
| "sum_words [a] = unat a * 256"
| "sum_words [] = 0"

text \<open>Both lists are equally long wherever it is called.\<close>

fun replacement :: "bytes \<Rightarrow> bytes \<Rightarrow> nat" where
  "replacement (a # b # before) (c # d # after) =
     unat (NOT (of_be16 a b)) + unat (of_be16 c d) + replacement before after"
| "replacement _ _ = 0"

definition adjust :: "bytes \<Rightarrow> nat \<Rightarrow> nat \<Rightarrow> bytes option" where
  "adjust p checksum delta = do {
     old \<leftarrow> get16 p checksum;
     put16 p checksum (NOT (fold_sum (unat (NOT old) + delta)))
   }"

definition finish :: "nat \<Rightarrow> u16" where
  "finish s = NOT (fold_sum s)"

definition address_bytes :: "bool \<Rightarrow> nat" where "address_bytes ipv6 = (if ipv6 then 16 else 4)"
definition source_offset :: "bool \<Rightarrow> nat" where "source_offset ipv6 = (if ipv6 then 8 else 12)"
definition destination_offset :: "bool \<Rightarrow> nat" where "destination_offset ipv6 = (if ipv6 then 24 else 16)"

definition same :: "bytes \<Rightarrow> nat \<Rightarrow> DeviceAddress \<Rightarrow> bool \<Rightarrow> bool option" where
  "same p at right ipv6 = do {
     left \<leftarrow> subspan p at (address_bytes ipv6);
     right \<leftarrow> subspan right 0 (address_bytes ipv6);
     Some (left = right)
   }"

definition pseudo_sum :: "bool \<Rightarrow> bytes \<Rightarrow> bytes \<Rightarrow> u8 \<Rightarrow> nat \<Rightarrow> nat" where
  "pseudo_sum ipv6 source destination protocol n =
     sum_words (take (address_bytes ipv6) source) + sum_words (take (address_bytes ipv6) destination) +
     unat protocol + n"

definition write_ip_header ::
  "bool \<Rightarrow> bytes \<Rightarrow> u8 \<Rightarrow> nat \<Rightarrow> DeviceAddress \<Rightarrow> DeviceAddress \<Rightarrow> u16 \<Rightarrow> bytes option" where
  "write_ip_header ipv6 packet protocol body source destination identification =
     (if ipv6 then do {
        packet \<leftarrow> put_byte packet 0 96;
        packet \<leftarrow> put_byte packet 1 0;
        packet \<leftarrow> put_byte packet 2 0;
        packet \<leftarrow> put_byte packet 3 0;
        packet \<leftarrow> put16 packet 4 (of_nat body);
        packet \<leftarrow> put_byte packet 6 protocol;
        packet \<leftarrow> put_byte packet 7 kHopLimit;
        packet \<leftarrow> copy_to packet 8 (take 16 source);
        copy_to packet 24 (take 16 destination)
      } else do {
        packet \<leftarrow> put_byte packet 0 69;
        packet \<leftarrow> put_byte packet 1 0;
        packet \<leftarrow> put16 packet 2 (of_nat (kIpv4Header + body));
        packet \<leftarrow> put16 packet 4 identification;
        packet \<leftarrow> put16 packet 6 16384;
        packet \<leftarrow> put_byte packet 8 kHopLimit;
        packet \<leftarrow> put_byte packet 9 protocol;
        packet \<leftarrow> put16 packet 10 0;
        packet \<leftarrow> copy_to packet 12 (take 4 source);
        packet \<leftarrow> copy_to packet 16 (take 4 destination);
        header \<leftarrow> subspan packet 0 kIpv4Header;
        put16 packet 10 (finish (sum_words header))
      })"

section \<open>The tables\<close>

definition new_DeviceNat ::
  "DeviceAddressPair option \<Rightarrow> DeviceAddressPair option \<Rightarrow> DeviceNatLimits \<Rightarrow> DeviceNat" where
  "new_DeviceNat ipv4 ipv6 limits =
     (let family = (\<lambda>v6 pair. \<lparr>f_ipv6 = v6, f_addresses = pair, f_listener_port = 0, f_next_port = 1024,
        f_ports = [], f_entries = []\<rparr>) in
      \<lparr>dn_ipv4 = map_option (family False) ipv4, dn_ipv6 = map_option (family True) ipv6,
       dn_limits = limits, dn_next_identification = 1\<rparr>)"

definition set_listener_ports :: "DeviceNat \<Rightarrow> u16 \<Rightarrow> u16 \<Rightarrow> DeviceNat" where
  "set_listener_ports n ipv4 ipv6 =
     n\<lparr>dn_ipv4 := map_option (\<lambda>f. f\<lparr>f_listener_port := ipv4\<rparr>) (dn_ipv4 n),
       dn_ipv6 := map_option (\<lambda>f. f\<lparr>f_listener_port := ipv6\<rparr>) (dn_ipv6 n)\<rparr>"

definition family :: "DeviceNat \<Rightarrow> bool \<Rightarrow> Family option" where
  "family n ipv6 = (if ipv6 then dn_ipv6 n else dn_ipv4 n)"

text \<open>The change the code makes through the pointer to a family.\<close>

definition set_family :: "DeviceNat \<Rightarrow> bool \<Rightarrow> Family \<Rightarrow> DeviceNat" where
  "set_family n ipv6 f = (if ipv6 then n\<lparr>dn_ipv6 := Some f\<rparr> else n\<lparr>dn_ipv4 := Some f\<rparr>)"

definition connections :: "DeviceNat \<Rightarrow> bool \<Rightarrow> nat" where
  "connections n ipv6 = (case family n ipv6 of None \<Rightarrow> 0 | Some f \<Rightarrow> length (f_entries f))"

text \<open>The search for a free port: the port found, and the next port to try.\<close>

primrec find_port :: "nat \<Rightarrow> (u16 \<times> Entry) list \<Rightarrow> u16 \<Rightarrow> u16 option \<times> u16" where
  "find_port 0 entries next_port = (None, next_port)"
| "find_port (Suc tries) entries next_port =
     (let port = next_port;
          next_port = (if port = 65535 then kFirstPort else port + 1)
      in if map_of entries port \<noteq> None then find_port tries entries next_port
         else (Some port, next_port))"

definition allocate :: "DeviceNatLimits \<Rightarrow> Family \<Rightarrow> Key \<Rightarrow> int \<Rightarrow> u16 option \<times> Family" where
  "allocate limits f key now =
     (if length (f_entries f) \<ge> lim_max_connections limits then (None, f)
      else case find_port (65535 - unat kFirstPort + 1) (f_entries f) (f_next_port f) of
        (None, next_port) \<Rightarrow> (None, f\<lparr>f_next_port := next_port\<rparr>)
      | (Some port, next_port) \<Rightarrow>
          (Some port,
           f\<lparr>f_next_port := next_port,
             f_entries := (port, \<lparr>e_key = key, e_phase = Pending, e_expires = now + lim_pending limits\<rparr>) # f_entries f,
             f_ports := (if map_of (f_ports f) key = None then (key, port) # f_ports f else f_ports f)\<rparr>))"

text \<open>An update through a reference to the entry of a port.\<close>

definition update_entry :: "Family \<Rightarrow> u16 \<Rightarrow> (Entry \<Rightarrow> Entry) \<Rightarrow> Family" where
  "update_entry f port change =
     f\<lparr>f_entries := map (\<lambda>(p, e). (p, if p = port then change e else e)) (f_entries f)\<rparr>"

definition accept :: "DeviceNat \<Rightarrow> bool \<Rightarrow> u16 \<Rightarrow> DeviceTcpOrigin option \<times> DeviceNat" where
  "accept n ipv6 peer_port =
     (case family n ipv6 of
        None \<Rightarrow> (None, n)
      | Some f \<Rightarrow>
          (case map_of (f_entries f) peer_port of
             None \<Rightarrow> (None, n)
           | Some e \<Rightarrow>
               (Some \<lparr>or_ipv6 = ipv6, or_destination = k_destination (e_key e),
                  or_destination_port = k_destination_port (e_key e),
                  or_source_port = k_source_port (e_key e)\<rparr>,
                set_family n ipv6 (update_entry f peer_port (\<lambda>e. e\<lparr>e_phase := Accepted\<rparr>)))))"

definition release :: "DeviceNat \<Rightarrow> bool \<Rightarrow> u16 \<Rightarrow> int \<Rightarrow> DeviceNat" where
  "release n ipv6 peer_port now =
     (case family n ipv6 of
        None \<Rightarrow> n
      | Some f \<Rightarrow>
          (case map_of (f_entries f) peer_port of
             None \<Rightarrow> n
           | Some e \<Rightarrow>
               set_family n ipv6 (update_entry f peer_port
                 (\<lambda>e. e\<lparr>e_phase := Lingering, e_expires := now + lim_linger (dn_limits n)\<rparr>))))"

fun sweep_entries :: "int \<Rightarrow> (Key \<times> u16) list \<Rightarrow> (u16 \<times> Entry) list \<Rightarrow> (Key \<times> u16) list \<times> (u16 \<times> Entry) list" where
  "sweep_entries now ports [] = (ports, [])"
| "sweep_entries now ports ((port, e) # entries) =
     (if e_phase e \<noteq> Accepted \<and> e_expires e \<le> now
      then sweep_entries now (filter (\<lambda>(k, _). k \<noteq> e_key e) ports) entries
      else let (ports, kept) = sweep_entries now ports entries in (ports, (port, e) # kept))"

definition sweep_family :: "int \<Rightarrow> Family \<Rightarrow> Family" where
  "sweep_family now f =
     (let (ports, entries) = sweep_entries now (f_ports f) (f_entries f)
      in f\<lparr>f_ports := ports, f_entries := entries\<rparr>)"

definition sweep :: "DeviceNat \<Rightarrow> int \<Rightarrow> DeviceNat" where
  "sweep n now =
     n\<lparr>dn_ipv4 := map_option (sweep_family now) (dn_ipv4 n),
       dn_ipv6 := map_option (sweep_family now) (dn_ipv6 n)\<rparr>"

section \<open>Translation\<close>

text \<open>A reset answers a segment of a connection nothing here knows; the packet's storage is reused.\<close>

definition write_reset ::
  "bool \<Rightarrow> bytes \<Rightarrow> Key \<Rightarrow> DeviceAddress \<Rightarrow> u16 \<Rightarrow> u32 \<Rightarrow> u32 \<Rightarrow> u8 \<Rightarrow> bytes option" where
  "write_reset ipv6 packet key device identification sequence acknowledgement flags = do {
     let from = k_destination key;
     let ip_header = (if ipv6 then kIpv6Header else kIpv4Header);
     packet \<leftarrow> write_ip_header ipv6 packet kTcp kTcpHeader from device identification;
     packet \<leftarrow> put16 packet ip_header (k_destination_port key);
     packet \<leftarrow> put16 packet (ip_header + 2) (k_source_port key);
     packet \<leftarrow> put32 packet (ip_header + 4) sequence;
     packet \<leftarrow> put32 packet (ip_header + 8) acknowledgement;
     packet \<leftarrow> put_byte packet (ip_header + 12) 80;
     packet \<leftarrow> put_byte packet (ip_header + 13) flags;
     packet \<leftarrow> put16 packet (ip_header + 14) 0;
     packet \<leftarrow> put16 packet (ip_header + 16) 0;
     packet \<leftarrow> put16 packet (ip_header + 18) 0;
     segment \<leftarrow> subspan packet ip_header kTcpHeader;
     packet \<leftarrow> put16 packet (ip_header + 16)
       (finish (pseudo_sum ipv6 from device kTcp kTcpHeader + sum_words segment));
     subspan packet 0 (ip_header + kTcpHeader)
   }"

definition reset_segment ::
  "Family \<Rightarrow> u16 \<Rightarrow> bytes \<Rightarrow> nat \<Rightarrow> u8 \<Rightarrow> Key \<Rightarrow> DevicePacket option" where
  "reset_segment f identification packet header flags key = do {
     b12 \<leftarrow> byte_at packet (header + 12);
     let offset = unat (drop_bit 4 b12) * 4;
     if offset < kTcpHeader \<or> offset > length packet - header then Some Drop
     else do {
       let n = (of_nat (length packet - header - offset) :: u32);
       let n = (if flags AND kSyn \<noteq> 0 then n + 1 else n);
       let n = (if flags AND kFin \<noteq> 0 then n + 1 else n);
       let acked = (flags AND kAck \<noteq> 0);
       sequence \<leftarrow> (if acked then get32 packet (header + 8) else Some 0);
       acknowledgement \<leftarrow> (if acked then Some 0 else map_option (\<lambda>s. s + n) (get32 packet (header + 4)));
       written \<leftarrow> write_reset (f_ipv6 f) packet key (ap_device (f_addresses f)) identification sequence
         acknowledgement (if acked then kRst else kRst OR kAck);
       Some (Write written)
     }
   }"

definition rewrite_segment ::
  "bool \<Rightarrow> bytes \<Rightarrow> nat \<Rightarrow> DeviceAddress \<Rightarrow> DeviceAddress \<Rightarrow> u16 \<Rightarrow> u16 \<Rightarrow> bytes option" where
  "rewrite_segment ipv6 packet header new_source new_destination new_source_port new_destination_port = do {
     let n = address_bytes ipv6;
     ports \<leftarrow> put16 (replicate 4 0) 0 new_source_port;
     ports \<leftarrow> put16 ports 2 new_destination_port;
     source \<leftarrow> subspan packet (source_offset ipv6) n;
     destination \<leftarrow> subspan packet (destination_offset ipv6) n;
     tcp \<leftarrow> subspan packet header 4;
     new_source \<leftarrow> subspan new_source 0 n;
     new_destination \<leftarrow> subspan new_destination 0 n;
     let addresses = replacement source new_source + replacement destination new_destination;
     let all = addresses + replacement tcp ports;
     packet \<leftarrow> (if \<not> ipv6 then adjust packet 10 addresses else Some packet);
     packet \<leftarrow> adjust packet (header + 16) all;
     packet \<leftarrow> copy_to packet (source_offset ipv6) new_source;
     packet \<leftarrow> copy_to packet (destination_offset ipv6) new_destination;
     copy_to packet header ports
   }"

text \<open>An application's segment: the port of its connection, or the packet that ends the call.\<close>

datatype Outbound = UsePort u16 | EndWith DevicePacket

definition outbound_port ::
  "DeviceNatLimits \<Rightarrow> Family \<Rightarrow> u16 \<Rightarrow> bytes \<Rightarrow> nat \<Rightarrow> int \<Rightarrow> u8 \<Rightarrow> Key \<Rightarrow> (Outbound \<times> Family \<times> u16) option" where
  "outbound_port limits f identification packet header now flags key =
     (let opening = (flags AND (kSyn OR kAck OR kRst) = kSyn) in
      case map_of (f_ports f) key of
        Some port \<Rightarrow>
          (case map_of (f_entries f) port of
             None \<Rightarrow> None
           | Some e \<Rightarrow>
               (if opening \<and> e_phase e = Lingering
                then Some (UsePort port,
                  update_entry f port (\<lambda>e. e\<lparr>e_phase := Pending, e_expires := now + lim_pending limits\<rparr>), identification)
                else Some (UsePort port, f, identification)))
      | None \<Rightarrow>
          (if opening then
             (case allocate limits f key now of
                (None, f) \<Rightarrow> Some (EndWith Drop, f, identification)
              | (Some port, f) \<Rightarrow> Some (UsePort port, f, identification))
           else if flags AND kRst \<noteq> 0 then Some (EndWith Drop, f, identification)
           else do {
             answer \<leftarrow> reset_segment f identification packet header flags key;
             Some (EndWith answer, f, if answer = Drop then identification else identification + 1)
           }))"

definition translate_tcp ::
  "DeviceNatLimits \<Rightarrow> Family \<Rightarrow> u16 \<Rightarrow> bytes \<Rightarrow> nat \<Rightarrow> int \<Rightarrow> (DevicePacket \<times> Family \<times> u16) option" where
  "translate_tcp limits f identification packet header now =
     (let ipv6 = f_ipv6 f in
      if length packet - header < kTcpHeader \<or> f_listener_port f = 0 then Some (Drop, f, identification)
      else do {
        source_port \<leftarrow> get16 packet header;
        destination_port \<leftarrow> get16 packet (header + 2);
        flags \<leftarrow> byte_at packet (header + 13);
        to_peer \<leftarrow> same packet (destination_offset ipv6) (ap_peer (f_addresses f)) ipv6;
        if to_peer then
          (if source_port \<noteq> f_listener_port f then Some (Drop, f, identification)
           else case map_of (f_entries f) destination_port of
             None \<Rightarrow> Some (Drop, f, identification)
           | Some e \<Rightarrow> do {
               packet \<leftarrow> rewrite_segment ipv6 packet header (k_destination (e_key e))
                 (ap_device (f_addresses f)) (k_destination_port (e_key e)) (k_source_port (e_key e));
               Some (Write packet, f, identification)
             })
        else do {
          to_device \<leftarrow> same packet (destination_offset ipv6) (ap_device (f_addresses f)) ipv6;
          if to_device \<or> source_port = 0 \<or> destination_port = 0 then Some (Drop, f, identification)
          else do {
            destination \<leftarrow> subspan packet (destination_offset ipv6) (address_bytes ipv6);
            destination \<leftarrow> copy_to (replicate 16 0) 0 destination;
            let key = \<lparr>k_source_port = source_port, k_destination_port = destination_port,
                       k_destination = destination\<rparr>;
            (outbound, f, identification) \<leftarrow> outbound_port limits f identification packet header now flags key;
            case outbound of
              EndWith answer \<Rightarrow> Some (answer, f, identification)
            | UsePort port \<Rightarrow> do {
                packet \<leftarrow> rewrite_segment ipv6 packet header (ap_peer (f_addresses f))
                  (ap_device (f_addresses f)) port (f_listener_port f);
                Some (Write packet, f, identification)
              }
          }
        }
      })"

text \<open>The IP header of a packet: where its body starts and ends, and the transport protocol.\<close>

definition ip_header :: "bool \<Rightarrow> bytes \<Rightarrow> (nat \<times> nat \<times> u8) option option" where
  "ip_header ipv6 packet =
     (if ipv6 then
        (if length packet < kIpv6Header then Some None
         else do {
           n \<leftarrow> get16 packet 4;
           protocol \<leftarrow> byte_at packet 6;
           Some (Some (kIpv6Header, kIpv6Header + unat n, protocol))
         })
      else
        (if length packet < kIpv4Header then Some None
         else do {
           b0 \<leftarrow> byte_at packet 0;
           whole \<leftarrow> get16 packet 2;
           fragment \<leftarrow> get16 packet 6;
           if fragment AND 16383 \<noteq> 0 then Some None
           else do {
             protocol \<leftarrow> byte_at packet 9;
             Some (Some (unat (b0 AND 15) * 4, unat whole, protocol))
           }
         }))"

definition translate_udp :: "Family \<Rightarrow> bytes \<Rightarrow> nat \<Rightarrow> u8 \<Rightarrow> DevicePacket option" where
  "translate_udp f body header protocol =
     (let ipv6 = f_ipv6 f; whole = length body in
      if protocol \<noteq> kUdp \<or> whole - header < kUdpHeader then Some Drop
      else do {
        n \<leftarrow> get16 body (header + 4);
        destination \<leftarrow> subspan body (destination_offset ipv6) (address_bytes ipv6);
        to_peer \<leftarrow> same body (destination_offset ipv6) (ap_peer (f_addresses f)) ipv6;
        to_device \<leftarrow> same body (destination_offset ipv6) (ap_device (f_addresses f)) ipv6;
        if unat n \<le> kUdpHeader \<or> unat n > whole - header \<or> to_peer \<or> to_device then Some Drop
        else do {
          source_port \<leftarrow> get16 body header;
          destination_port \<leftarrow> get16 body (header + 2);
          destination \<leftarrow> copy_to (replicate 16 0) 0 destination;
          payload \<leftarrow> subspan body (header + kUdpHeader) (unat n - kUdpHeader);
          if source_port = 0 \<or> destination_port = 0 then Some Drop
          else Some (Datagram \<lparr>dg_ipv6 = ipv6, dg_source_port = source_port, dg_destination = destination,
            dg_destination_port = destination_port, dg_payload = payload\<rparr>)
        }
      })"

definition translate :: "DeviceNat \<Rightarrow> bytes \<Rightarrow> int \<Rightarrow> (DevicePacket \<times> DeviceNat) option" where
  "translate n packet now =
     (if packet = [] then Some (Drop, n)
      else do {
        b0 \<leftarrow> byte_at packet 0;
        let version = drop_bit 4 b0;
        let ipv6 = (version = 6);
        case family n ipv6 of
          None \<Rightarrow> Some (Drop, n)
        | Some f \<Rightarrow>
            if version \<noteq> 4 \<and> version \<noteq> 6 then Some (Drop, n)
            else do {
              found \<leftarrow> ip_header ipv6 packet;
              case found of
                None \<Rightarrow> Some (Drop, n)
              | Some (header, whole, protocol) \<Rightarrow>
                  if header < (if ipv6 then kIpv6Header else kIpv4Header) \<or> whole < header \<or> whole > length packet
                  then Some (Drop, n)
                  else do {
                    let body = take whole packet;
                    ours \<leftarrow> same body (source_offset ipv6) (ap_device (f_addresses f)) ipv6;
                    if \<not> ours then Some (Drop, n)
                    else if protocol = kTcp then do {
                      (answer, f, identification) \<leftarrow>
                        translate_tcp (dn_limits n) f (dn_next_identification n) body header now;
                      Some (answer, (set_family n ipv6 f)\<lparr>dn_next_identification := identification\<rparr>)
                    } else do {
                      answer \<leftarrow> translate_udp f body header protocol;
                      Some (answer, n)
                    }
                  }
            }
      })"

section \<open>Replies\<close>

definition build_reply ::
  "DeviceNat \<Rightarrow> bool \<Rightarrow> DeviceAddress \<Rightarrow> u16 \<Rightarrow> u16 \<Rightarrow> bytes \<Rightarrow> nat \<Rightarrow> bytes \<Rightarrow> (nat \<times> bytes \<times> DeviceNat) option" where
  "build_reply n ipv6 source source_port destination_port payload mtu out =
     (let header = (if ipv6 then kIpv6Header else kIpv4Header);
          body = kUdpHeader + length payload;
          whole = header + body
      in case family n ipv6 of
           None \<Rightarrow> Some (0, out, n)
         | Some f \<Rightarrow>
             if payload = [] \<or> whole > mtu \<or> whole > length out \<or> (if ipv6 then body else whole) > 65535
             then Some (0, out, n)
             else do {
               let device = ap_device (f_addresses f);
               out \<leftarrow> write_ip_header ipv6 out kUdp body source device (dn_next_identification n);
               let n = n\<lparr>dn_next_identification := dn_next_identification n + 1\<rparr>;
               out \<leftarrow> put16 out header source_port;
               out \<leftarrow> put16 out (header + 2) destination_port;
               out \<leftarrow> put16 out (header + 4) (of_nat body);
               out \<leftarrow> put16 out (header + 6) 0;
               out \<leftarrow> copy_to out (header + kUdpHeader) payload;
               segment \<leftarrow> subspan out header body;
               let checksum = finish (pseudo_sum ipv6 source device kUdp body + sum_words segment);
               let checksum = (if checksum = 0 then 65535 else checksum);
               out \<leftarrow> put16 out (header + 6) checksum;
               Some (whole, out, n)
             })"

end
