(* ===== verification/Nat_Checksums.thy ===== *)
theory Nat_Checksums
  imports Device_Nat
begin

text \<open>
  Internet checksums of the device bridge: the folded sum is the one's complement sum, replacing
  words by RFC 1624 keeps a valid checksum valid, and the packets the bridge builds itself carry
  valid ones.
\<close>

section \<open>One's complement sums\<close>

lemma unat_not16: "unat (NOT (w :: u16)) = 65535 - unat w"
proof -
  have "unat (- 1 - w) = unat (- 1 :: u16) - unat w" by (rule unat_sub) simp
  moreover have "unat (- 1 :: u16) = 65535" by (simp add: unsigned_minus_1_eq_mask mask_eq_exp_minus_1)
  moreover have "NOT w = - 1 - w" by (simp add: not_eq_complement)
  ultimately show ?thesis by simp
qed

lemma fold_sum_small: "s < 65536 \<Longrightarrow> fold_sum s = of_nat s"
  by (subst fold_sum.simps) simp

lemma fold_sum_mod: "unat (fold_sum s) mod 65535 = s mod 65535"
proof (induction s rule: fold_sum.induct)
  case (1 s)
  show ?case
  proof (cases "s div 65536 = 0")
    case True
    then have "s < 65536" by (simp add: div_eq_0_iff)
    then show ?thesis by (simp add: fold_sum_small)
  next
    case False
    have "s = 65535 * (s div 65536) + (s mod 65536 + s div 65536)"
      using mult_div_mod_eq [of 65536 s] by simp
    then have "s mod 65535 = (s mod 65536 + s div 65536) mod 65535"
      by (metis mod_mult_self4)
    with False 1 show ?thesis by (subst fold_sum.simps) simp
  qed
qed

lemma fold_sum_zero: "fold_sum s = 0 \<longleftrightarrow> s = 0"
proof (induction s rule: fold_sum.induct)
  case (1 s)
  show ?case
  proof (cases "s div 65536 = 0")
    case True
    then have "s < 65536" by (simp add: div_eq_0_iff)
    then show ?thesis by (simp add: fold_sum_small word_unat_eq_iff)
  next
    case False
    with 1 show ?thesis by (subst fold_sum.simps) auto
  qed
qed

text \<open>A receiver accepts a sum that folds to all ones.\<close>

lemma fold_sum_ones: "fold_sum s = 65535 \<longleftrightarrow> 0 < s \<and> s mod 65535 = 0"
proof
  assume ones: "fold_sum s = 65535"
  then have "s mod 65535 = 0" using fold_sum_mod [of s] by simp
  moreover have "s \<noteq> 0" using ones fold_sum_zero [of s] by auto
  ultimately show "0 < s \<and> s mod 65535 = 0" by simp
next
  assume s: "0 < s \<and> s mod 65535 = 0"
  then have "65535 dvd unat (fold_sum s)" and ne: "unat (fold_sum s) \<noteq> 0"
    using fold_sum_mod [of s] fold_sum_zero [of s] by (simp_all add: unat_eq_0 mod_eq_0_iff_dvd)
  then obtain k where k: "unat (fold_sum s) = 65535 * k" by (auto elim: dvdE)
  then have "65535 * k < 65535 * 2" using unat_u16_less [of "fold_sum s"] by linarith
  then have "k < 2" by simp
  with k ne have "unat (fold_sum s) = 65535" by (cases k) auto
  then show "fold_sum s = 65535" by (simp add: word_unat_eq_iff)
qed

lemma sum_words_append: "even (length a) \<Longrightarrow> sum_words (a @ b) = sum_words a + sum_words b"
  by (induction a rule: sum_words.induct) auto

lemma replacement_sum:
  "length a = length b \<Longrightarrow> even (length a) \<Longrightarrow>
   replacement a b + sum_words a = sum_words b + 65535 * (length a div 2)"
proof (induction a b rule: replacement.induct)
  case (1 a b before c d after)
  have "unat (of_be16 a b) \<le> 65535" using unat_u16_less [of "of_be16 a b"] by linarith
  with 1 show ?case by (simp add: unat_not16)
qed auto

text \<open>A checksum computed over its own field as zero makes the sum acceptable.\<close>

lemma unat_finish: "unat (finish s) = 65535 - unat (fold_sum s)"
  by (simp add: finish_def unat_not16)

lemma finish_mod: "(s + unat (finish s)) mod 65535 = 0"
proof -
  have le: "unat (fold_sum s) \<le> 65535" using unat_u16_less [of "fold_sum s"] by linarith
  have "(s + unat (finish s)) mod 65535 = (unat (fold_sum s) + unat (finish s)) mod 65535"
    using fold_sum_mod [of s] by (metis mod_add_left_eq)
  then show ?thesis using le by (simp add: unat_finish)
qed

text \<open>The update of a checksum by what was replaced.\<close>

lemma adjusted_mod:
  "(unat (NOT (fold_sum (unat (NOT (old :: u16)) + delta))) + delta) mod 65535 = unat old mod 65535"
proof -
  let ?f = "fold_sum (unat (NOT old) + delta)"
  have le: "unat ?f \<le> 65535" "unat old \<le> 65535"
    using unat_u16_less [of ?f] unat_u16_less [of old] by linarith+
  let ?o = "int (unat old)" and ?d = "int delta"
  have "int (unat ?f mod 65535) = int ((unat (NOT old) + delta) mod 65535)"
    by (simp only: fold_sum_mod)
  then have f: "int (unat ?f) mod 65535 = (65535 + ?d - ?o) mod 65535"
    using le(2) by (simp add: unat_not16 zmod_int of_nat_diff)
  have "(65535 + ?d - int (unat ?f)) mod 65535 = (65535 + ?d - int (unat ?f) mod 65535) mod 65535"
    by (rule mod_diff_right_eq [symmetric])
  also have "\<dots> = (65535 + ?d - (65535 + ?d - ?o)) mod 65535"
    unfolding f by (rule mod_diff_right_eq)
  finally have "(65535 + ?d - int (unat ?f)) mod 65535 = ?o mod 65535" by simp
  moreover have "int (unat (NOT ?f) + delta) = 65535 + ?d - int (unat ?f)"
    using le(1) unfolding unat_not16 by (simp only: of_nat_add of_nat_diff of_nat_numeral)
  ultimately have "int ((unat (NOT ?f) + delta) mod 65535) = int (unat old mod 65535)"
    by (simp only: zmod_int of_nat_numeral)
  then show ?thesis by (simp only: of_nat_eq_iff)
qed

section \<open>Access to a packet in parts\<close>

lemma get16_eq: "get16 = read_u16_be"
  by (intro ext) (simp add: get16_def read_u16_be_def)

lemma put16_eq: "put16 = write_u16_be"
  by (intro ext) (simp add: put16_def write_u16_be_def)

lemma get32_eq: "get32 = read_u32_be"
  by (intro ext) (simp add: get32_def read_u32_be_def)

lemma put32_eq: "put32 = write_u32_be"
  by (intro ext) (simp add: put32_def write_u32_be_def)

lemma copy_to_mid:
  assumes "at = length pre" and "length source = length mid"
  shows "copy_to (pre @ mid @ post) at source = Some (pre @ source @ post)"
  using copy_to_next [of "at" pre source "mid @ post"] assms by simp

lemma put16_mid:
  assumes "at = length pre" and "length mid = 2"
  shows "put16 (pre @ mid @ post) at v = Some (pre @ be16 v @ post)"
  using write_u16_be_next [of "at" pre "mid @ post" v] assms by (simp add: put16_eq)

lemma adjust_mid:
  assumes "at = length pre"
  shows "adjust (pre @ be16 old @ post) at delta
    = Some (pre @ be16 (NOT (fold_sum (unat (NOT old) + delta))) @ post)"
  using read_u16_be_append [OF assms, of old post] put16_mid [OF assms, of "be16 old" post]
  by (simp add: adjust_def get16_eq)

lemma split_front:
  assumes "n \<le> length xs"
  obtains front tail where "xs = front @ tail" and "length front = n"
  using assms by (metis append_take_drop_id length_take min.absorb2)

lemma be16_parts:
  assumes "length xs = 2"
  obtains v where "xs = be16 v"
proof -
  from assms obtain a b where "xs = [a, b]" by (auto simp: numeral_2_eq_2 length_Suc_conv)
  then show ?thesis using that [of "of_be16 a b"] by simp
qed

text \<open>A TCP packet in parts: the IP header up to the addresses, the addresses, IP options, the
  ports, the TCP header up to its checksum, the checksum and the rest.\<close>

definition packet_of :: "bytes \<Rightarrow> bytes \<Rightarrow> bytes \<Rightarrow> bytes \<Rightarrow> bytes \<Rightarrow> bytes \<Rightarrow> u16 \<Rightarrow> bytes \<Rightarrow> bytes" where
  "packet_of H source destination options ports M checksum rest =
     H @ source @ destination @ options @ ports @ M @ be16 checksum @ rest"

definition parts_ok :: "bool \<Rightarrow> nat \<Rightarrow> bytes \<Rightarrow> bytes \<Rightarrow> bytes \<Rightarrow> bytes \<Rightarrow> bytes \<Rightarrow> bytes \<Rightarrow> bool" where
  "parts_ok ipv6 header H source destination options ports M \<longleftrightarrow>
     length H = source_offset ipv6 \<and> length source = address_bytes ipv6 \<and>
     length destination = address_bytes ipv6 \<and>
     header = destination_offset ipv6 + address_bytes ipv6 + length options \<and> length ports = 4 \<and> length M = 12"

lemma parts_offsets:
  "destination_offset ipv6 = source_offset ipv6 + address_bytes ipv6" "even (source_offset ipv6)"
  "even (address_bytes ipv6)" "address_bytes ipv6 \<le> 16"
  by (simp_all add: destination_offset_def source_offset_def address_bytes_def)

lemma packet_parts:
  assumes "destination_offset ipv6 + address_bytes ipv6 \<le> header" and "header + 20 \<le> length packet"
  obtains H source destination options ports M checksum rest where
    "packet = packet_of H source destination options ports M checksum rest"
    and "parts_ok ipv6 header H source destination options ports M"
proof -
  have le: "source_offset ipv6 + (address_bytes ipv6 + (address_bytes ipv6 +
      (header - (destination_offset ipv6 + address_bytes ipv6) + 20))) \<le> length packet"
    using assms parts_offsets(1) [of ipv6] by simp
  obtain H p1 where p1: "packet = H @ p1" "length H = source_offset ipv6"
    by (rule split_front [of "source_offset ipv6" packet]) (use le in auto)
  obtain source p2 where p2: "p1 = source @ p2" "length source = address_bytes ipv6"
    by (rule split_front [of "address_bytes ipv6" p1]) (use le p1 in auto)
  obtain destination p3 where p3: "p2 = destination @ p3" "length destination = address_bytes ipv6"
    by (rule split_front [of "address_bytes ipv6" p2]) (use le p1 p2 in auto)
  obtain options p4 where p4: "p3 = options @ p4"
      "length options = header - (destination_offset ipv6 + address_bytes ipv6)"
    by (rule split_front [of "header - (destination_offset ipv6 + address_bytes ipv6)" p3])
       (use le p1 p2 p3 in auto)
  obtain ports p5 where p5: "p4 = ports @ p5" "length ports = 4"
    by (rule split_front [of 4 p4]) (use le p1 p2 p3 p4 in auto)
  obtain M p6 where p6: "p5 = M @ p6" "length M = 12"
    by (rule split_front [of 12 p5]) (use le p1 p2 p3 p4 p5 in auto)
  obtain sum rest where p7: "p6 = sum @ rest" "length sum = 2"
    by (rule split_front [of 2 p6]) (use le p1 p2 p3 p4 p5 p6 in auto)
  obtain checksum where "sum = be16 checksum" by (rule be16_parts [OF p7(2)])
  with p1 p2 p3 p4 p5 p6 p7 assms(1) show ?thesis
    using that [of H source destination options ports M checksum rest]
    by (simp add: packet_of_def parts_ok_def)
qed

lemma rewrite_segment_parts:
  fixes new_source_port new_destination_port :: u16
  assumes "parts_ok ipv6 header H source destination options ports M"
    and "address_bytes ipv6 \<le> length new_source" and "address_bytes ipv6 \<le> length new_destination"
    and "\<not> ipv6 \<Longrightarrow> H = A @ be16 head_sum"
  defines "n \<equiv> address_bytes ipv6"
    and "new_ports \<equiv> be16 new_source_port @ be16 new_destination_port"
  defines "delta \<equiv> replacement source (take n new_source) + replacement destination (take n new_destination)"
  shows "rewrite_segment ipv6 (packet_of H source destination options ports M checksum rest) header
      new_source new_destination new_source_port new_destination_port
    = Some (packet_of (if ipv6 then H else A @ be16 (NOT (fold_sum (unat (NOT head_sum) + delta))))
        (take n new_source) (take n new_destination) options new_ports M
        (NOT (fold_sum (unat (NOT checksum) + (delta + replacement ports new_ports)))) rest)"
proof -
  have new_ports: "put16 (replicate 4 0) 0 new_source_port = Some (be16 new_source_port @ replicate 2 0)"
      "put16 (be16 new_source_port @ replicate 2 0) 2 new_destination_port = Some new_ports"
    using put16_mid [of 0 "[]" "replicate 2 0" "replicate 2 0" new_source_port]
      put16_mid [of 2 "be16 new_source_port" "replicate 2 0" "[]" new_destination_port]
    by (simp_all add: new_ports_def eval_nat_numeral)
  let ?H = "if ipv6 then H else A @ be16 (NOT (fold_sum (unat (NOT head_sum) + delta)))"
  let ?c = "NOT (fold_sum (unat (NOT checksum) + (delta + replacement ports new_ports)))"
  have len: "length H = source_offset ipv6" "length ?H = source_offset ipv6" "length source = n"
      "length destination = n" "length ports = 4" "length new_ports = 4"
      "length (take n new_source) = n" "length (take n new_destination) = n"
      "destination_offset ipv6 = source_offset ipv6 + n"
      "header = source_offset ipv6 + n + n + length options"
      "header + 16 = source_offset ipv6 + n + n + length options + length ports + length M"
    using assms(1-3) assms(4) parts_offsets(1) [of ipv6] by (auto simp: parts_ok_def n_def new_ports_def source_offset_def)
  let ?tail = "options @ ports @ M @ be16 checksum @ rest"
  have read: "subspan (packet_of H source destination options ports M checksum rest) (source_offset ipv6) n = Some source"
      "subspan (packet_of H source destination options ports M checksum rest) (destination_offset ipv6) n = Some destination"
      "subspan (packet_of H source destination options ports M checksum rest) header 4 = Some ports"
      "subspan new_source 0 n = Some (take n new_source)" "subspan new_destination 0 n = Some (take n new_destination)"
    using len assms(2,3) subspan_append [of "source_offset ipv6" H n source "destination @ ?tail"]
      subspan_append [of "destination_offset ipv6" "H @ source" n destination ?tail]
      subspan_append [of header "H @ source @ destination @ options" 4 ports "M @ be16 checksum @ rest"]
    by (simp_all add: packet_of_def n_def)
  have one: "(if \<not> ipv6 then adjust (packet_of H source destination options ports M checksum rest) 10 delta
        else Some (packet_of H source destination options ports M checksum rest))
      = Some (packet_of ?H source destination options ports M checksum rest)"
    using adjust_mid [of 10 A head_sum "source @ destination @ ?tail" delta] assms(4) len(1)
    by (auto simp: packet_of_def source_offset_def)
  have two: "adjust (packet_of h source destination options ports M checksum rest) (header + 16) d
      = Some (packet_of h source destination options ports M (NOT (fold_sum (unat (NOT checksum) + d))) rest)"
    if "length h = source_offset ipv6" for h d
    using adjust_mid [of "header + 16" "h @ source @ destination @ options @ ports @ M" checksum rest d] len that
    by (simp add: packet_of_def)
  have three: "copy_to (packet_of h source destination options ports M c rest) (source_offset ipv6) (take n new_source)
        = Some (packet_of h (take n new_source) destination options ports M c rest)"
      "copy_to (packet_of h (take n new_source) destination options ports M c rest) (destination_offset ipv6) (take n new_destination)
        = Some (packet_of h (take n new_source) (take n new_destination) options ports M c rest)"
      "copy_to (packet_of h (take n new_source) (take n new_destination) options ports M c rest) header new_ports
        = Some (packet_of h (take n new_source) (take n new_destination) options new_ports M c rest)"
    if "length h = source_offset ipv6" for h c
    using len that
      copy_to_mid [of "source_offset ipv6" h "take n new_source" source "destination @ options @ ports @ M @ be16 c @ rest"]
      copy_to_mid [of "destination_offset ipv6" "h @ take n new_source" "take n new_destination" destination
        "options @ ports @ M @ be16 c @ rest"]
      copy_to_mid [of header "h @ take n new_source @ take n new_destination @ options" new_ports ports
        "M @ be16 c @ rest"]
    by (simp_all add: packet_of_def)
  show ?thesis
    unfolding rewrite_segment_def Let_def new_ports n_def [symmetric] bind.bind_lunit read delta_def [symmetric] one
      two [OF len(2)] three [OF len(2)] ..
qed

section \<open>Checksums of a packet\<close>

text \<open>What a receiver adds up for the TCP checksum, and for the checksum of an IPv4 header.\<close>

definition tcp_sum :: "bool \<Rightarrow> nat \<Rightarrow> bytes \<Rightarrow> nat" where
  "tcp_sum ipv6 header packet =
     pseudo_sum ipv6 (drop (source_offset ipv6) packet) (drop (destination_offset ipv6) packet) kTcp
       (length packet - header) + sum_words (drop header packet)"

definition header_sum :: "nat \<Rightarrow> bytes \<Rightarrow> nat" where
  "header_sum header packet = sum_words (take header packet)"

lemma sum_words_be16 [simp]: "sum_words (be16 v) = unat v"
  by (simp add: be16_def)

lemma tcp_sum_parts:
  assumes "parts_ok ipv6 header H source destination options ports M"
  shows "tcp_sum ipv6 header (packet_of H source destination options ports M checksum rest)
    = sum_words source + sum_words destination + 6 + (18 + length rest) + sum_words ports + sum_words M +
      unat checksum + sum_words rest"
proof -
  let ?p = "packet_of H source destination options ports M checksum rest"
  have "drop header ?p = ports @ M @ be16 checksum @ rest"
    using assms parts_offsets(1) [of ipv6] by (simp add: packet_of_def parts_ok_def)
  moreover have "take (address_bytes ipv6) (drop (source_offset ipv6) ?p) = source"
      "take (address_bytes ipv6) (drop (destination_offset ipv6) ?p) = destination"
    using assms parts_offsets(1) [of ipv6] by (simp_all add: packet_of_def parts_ok_def)
  moreover have "length ?p - header = 18 + length rest"
    using assms parts_offsets(1) [of ipv6] by (simp add: packet_of_def parts_ok_def)
  ultimately show ?thesis
    using assms by (simp add: tcp_sum_def pseudo_sum_def sum_words_append parts_ok_def kTcp_def)
qed

lemma header_sum_parts:
  assumes "parts_ok ipv6 header H source destination options ports M"
  shows "header_sum header (packet_of H source destination options ports M checksum rest)
    = sum_words H + sum_words source + sum_words destination + sum_words options"
proof -
  have "take header (packet_of H source destination options ports M checksum rest)
      = H @ source @ destination @ options"
    using assms parts_offsets(1) [of ipv6] by (simp add: packet_of_def parts_ok_def)
  then show ?thesis
    using assms parts_offsets(2,3) [of ipv6] by (simp add: header_sum_def sum_words_append parts_ok_def)
qed

text \<open>Two numbers that leave the same remainder after a common number is added.\<close>

lemma mod_shift: "(a + c) mod m = (b + c) mod m \<Longrightarrow> a mod m = (b :: nat) mod m"
proof -
  assume "(a + c) mod m = (b + c) mod m"
  then have "int ((a + c) mod m) = int ((b + c) mod m)" by simp
  then have "int m dvd int a - int b" by (simp add: zmod_int mod_eq_dvd_iff)
  then have "int (a mod m) = int (b mod m)" by (simp add: zmod_int mod_eq_dvd_iff)
  then show ?thesis by simp
qed

lemma exchange_sum:
  fixes D x y K c c' q m :: nat
  assumes "D + x = y + m * q" and "(c' + D) mod m = c mod m"
  shows "(y + K + c') mod m = (x + K + c) mod m"
proof (rule mod_shift [of _ D])
  have "(y + K + c' + D) mod m = (y + K + (c' + D)) mod m" by (simp add: ac_simps)
  also have "\<dots> = (y + K + c) mod m" using assms(2) by (metis mod_add_right_eq)
  also have "\<dots> = (y + K + c + m * q) mod m" by simp
  also have "y + K + c + m * q = x + K + c + D" using assms(1) by simp
  finally show "(y + K + c' + D) mod m = (x + K + c + D) mod m" .
qed

lemma rewrite_keeps_sums:
  assumes "parts_ok ipv6 header H source destination options ports M"
    and "address_bytes ipv6 \<le> length new_source" and "address_bytes ipv6 \<le> length new_destination"
    and "rewrite_segment ipv6 (packet_of H source destination options ports M checksum rest) header
      new_source new_destination new_source_port new_destination_port = Some packet'"
  shows "tcp_sum ipv6 header packet' mod 65535
      = tcp_sum ipv6 header (packet_of H source destination options ports M checksum rest) mod 65535"
    and "\<not> ipv6 \<Longrightarrow> header_sum header packet' mod 65535
      = header_sum header (packet_of H source destination options ports M checksum rest) mod 65535"
proof -
  let ?n = "address_bytes ipv6" and ?P = "be16 new_source_port @ be16 new_destination_port"
  let ?s = "take ?n new_source" and ?d = "take ?n new_destination"
  let ?delta = "replacement source ?s + replacement destination ?d"
  obtain A head_sum where H: "H = A @ be16 head_sum" "length A = source_offset ipv6 - 2"
  proof -
    have "source_offset ipv6 - 2 \<le> length H" using assms(1) by (simp add: parts_ok_def)
    then obtain A tail where "H = A @ tail" "length A = source_offset ipv6 - 2" by (rule split_front)
    moreover from this have "length tail = 2" using assms(1) by (simp add: parts_ok_def source_offset_def split: if_splits)
    ultimately show ?thesis using that be16_parts by metis
  qed
  let ?h = "NOT (fold_sum (unat (NOT head_sum) + ?delta))"
  let ?H = "if ipv6 then H else A @ be16 ?h"
  let ?c = "NOT (fold_sum (unat (NOT checksum) + (?delta + replacement ports ?P)))"
  have packet': "packet' = packet_of ?H ?s ?d options ?P M ?c rest"
    using rewrite_segment_parts [OF assms(1-3) H(1)] assms(4) by simp
  have ok: "parts_ok ipv6 header ?H ?s ?d options ?P M"
    using assms(1-3) H by (auto simp: parts_ok_def source_offset_def)
  have addresses: "?delta + (sum_words source + sum_words destination)
      = sum_words ?s + sum_words ?d + 65535 * ?n"
    using replacement_sum [of source ?s] replacement_sum [of destination ?d] assms(1-3) parts_offsets(3) [of ipv6]
    by (auto simp: parts_ok_def address_bytes_def)
  have "replacement ports ?P + sum_words ports = sum_words ?P + 65535 * 2"
    using replacement_sum [of ports ?P] assms(1) by (simp add: parts_ok_def)
  with addresses have all: "(?delta + replacement ports ?P) + (sum_words source + sum_words destination + sum_words ports)
      = sum_words ?s + sum_words ?d + sum_words ?P + 65535 * (?n + 2)"
    by (simp add: algebra_simps)
  show "tcp_sum ipv6 header packet' mod 65535
      = tcp_sum ipv6 header (packet_of H source destination options ports M checksum rest) mod 65535"
    using exchange_sum [OF all adjusted_mod [of checksum], of "6 + (18 + length rest) + sum_words M + sum_words rest"]
    unfolding packet' tcp_sum_parts [OF ok] tcp_sum_parts [OF assms(1)] by (simp add: ac_simps)
  show "header_sum header packet' mod 65535
      = header_sum header (packet_of H source destination options ports M checksum rest) mod 65535" if "\<not> ipv6"
  proof -
    have "even (length A)" using H(2) that by (simp add: source_offset_def)
    then have "sum_words (A @ be16 v) = sum_words A + unat v" for v by (simp add: sum_words_append)
    then show ?thesis
      using exchange_sum [OF addresses adjusted_mod [of head_sum], of "sum_words A + sum_words options"] that
      unfolding packet' header_sum_parts [OF ok] header_sum_parts [OF assms(1)] by (simp add: H(1) ac_simps)
  qed
qed

end
