(* ===== verification/Nat_Packets.thy ===== *)
theory Nat_Packets
  imports Nat_Checksums
begin

text \<open>
  The packets the device bridge writes itself: resets and UDP replies, byte for byte.
\<close>

section \<open>IP headers\<close>

definition ipv4_header :: "u8 \<Rightarrow> nat \<Rightarrow> bytes \<Rightarrow> bytes \<Rightarrow> u16 \<Rightarrow> u16 \<Rightarrow> bytes" where
  "ipv4_header protocol body source destination identification checksum =
     [69, 0] @ be16 (of_nat (20 + body)) @ be16 identification @ be16 16384 @ [64, protocol] @
     be16 checksum @ take 4 source @ take 4 destination"

definition ipv6_header :: "u8 \<Rightarrow> nat \<Rightarrow> bytes \<Rightarrow> bytes \<Rightarrow> bytes" where
  "ipv6_header protocol body source destination =
     [96, 0, 0, 0] @ be16 (of_nat body) @ [protocol, 64] @ take 16 source @ take 16 destination"

definition own_header :: "bool \<Rightarrow> u8 \<Rightarrow> nat \<Rightarrow> bytes \<Rightarrow> bytes \<Rightarrow> u16 \<Rightarrow> bytes" where
  "own_header ipv6 protocol body source destination identification =
     (if ipv6 then ipv6_header protocol body source destination
      else ipv4_header protocol body source destination identification
        (finish (sum_words (ipv4_header protocol body source destination identification 0))))"

lemma length_own_header:
  assumes "length source = 16" and "length destination = 16"
  shows "length (own_header ipv6 protocol body source destination identification) = (if ipv6 then 40 else 20)"
  using assms by (simp add: own_header_def ipv4_header_def ipv6_header_def)

lemma own_header_checksum:
  assumes "length source = 16" and "length destination = 16"
  shows "fold_sum (sum_words (own_header False protocol body source destination identification)) = 65535"
proof -
  let ?pre = "[69, 0] @ be16 (of_nat (20 + body)) @ be16 identification @ be16 16384 @ [64, protocol]"
  let ?s = "sum_words (ipv4_header protocol body source destination identification 0)"
  have sum: "sum_words (ipv4_header protocol body source destination identification c) = ?s + unat c" for c
    using assms by (simp add: ipv4_header_def sum_words_append)
  have "unat (of_be16 69 0) = 17664" by (simp add: of_be16_def)
  then have "0 < ?s" by (simp add: ipv4_header_def)
  then show ?thesis
    unfolding own_header_def if_False sum [of "finish ?s"] fold_sum_ones by (simp add: finish_mod)
qed

lemma write_ip_header_ipv6:
  assumes "length source = 16" and "length destination = 16" and "40 \<le> length packet"
  shows "write_ip_header True packet protocol body source destination identification
    = Some (own_header True protocol body source destination identification @ drop 40 packet)"
proof -
  have "take 16 source = source" "take 16 destination = destination" using assms by simp_all
  with assms show ?thesis
    unfolding write_ip_header_def put16_eq
    by (simp add: wire kHopLimit_def del: append_assoc append.simps)
       (simp add: own_header_def ipv6_header_def)
qed

lemma write_ip_header_ipv4:
  assumes "length source = 16" and "length destination = 16" and "20 \<le> length packet"
  shows "write_ip_header False packet protocol body source destination identification
    = Some (own_header False protocol body source destination identification @ drop 20 packet)"
proof -
  let ?h = "ipv4_header protocol body source destination identification"
  let ?pre = "[69, 0] @ be16 (of_nat (20 + body)) @ be16 identification @ be16 16384 @ [64, protocol]"
  let ?post = "take 4 source @ take 4 destination @ drop 20 packet"
  have len: "length (take 4 source) = 4" "length (take 4 destination) = 4" "length (?h 0) = 20"
    using assms by (simp_all add: ipv4_header_def)
  have head: "subspan (?h 0 @ drop 20 packet) 0 kIpv4Header = Some (?h 0)"
    using subspan_append [of 0 "[]" kIpv4Header "?h 0" "drop 20 packet"] len by (simp add: kIpv4Header_def)
  have last: "put16 (?h 0 @ drop 20 packet) 10 v = Some (?h v @ drop 20 packet)" for v
    using put16_mid [of 10 ?pre "be16 0" ?post v] by (simp add: ipv4_header_def)
  let ?first = "do {
        packet \<leftarrow> put_byte packet 0 69;
        packet \<leftarrow> put_byte packet 1 0;
        packet \<leftarrow> write_u16_be packet 2 (of_nat (kIpv4Header + body));
        packet \<leftarrow> write_u16_be packet 4 identification;
        packet \<leftarrow> write_u16_be packet 6 16384;
        packet \<leftarrow> put_byte packet 8 kHopLimit;
        packet \<leftarrow> put_byte packet 9 protocol;
        packet \<leftarrow> write_u16_be packet 10 0;
        packet \<leftarrow> copy_to packet 12 (take 4 source);
        copy_to packet 16 (take 4 destination) }"
  have "?first = Some (?h 0 @ drop 20 packet)"
    using assms len
    by (simp add: wire kHopLimit_def kIpv4Header_def del: append_assoc append.simps)
       (simp add: ipv4_header_def)
  moreover have "write_ip_header False packet protocol body source destination identification
      = Option.bind ?first (\<lambda>p. Option.bind (subspan p 0 kIpv4Header) (\<lambda>h. write_u16_be p 10 (finish (sum_words h))))"
    by (simp add: write_ip_header_def put16_eq Option.bind_assoc)
  ultimately show ?thesis
    using head last by (simp add: own_header_def put16_eq)
qed

lemma write_ip_header_eq:
  assumes "length source = 16" and "length destination = 16" and "(if ipv6 then 40 else 20) \<le> length packet"
  shows "write_ip_header ipv6 packet protocol body source destination identification
    = Some (own_header ipv6 protocol body source destination identification @ drop (if ipv6 then 40 else 20) packet)"
  using assms write_ip_header_ipv4 write_ip_header_ipv6 by (cases ipv6) auto

section \<open>Resets\<close>

definition reset_bytes :: "Key \<Rightarrow> u32 \<Rightarrow> u32 \<Rightarrow> u8 \<Rightarrow> u16 \<Rightarrow> bytes" where
  "reset_bytes key sequence acknowledgement flags checksum =
     be16 (k_destination_port key) @ be16 (k_source_port key) @ be32 sequence @ be32 acknowledgement @
     [80, flags] @ be16 0 @ be16 checksum @ be16 0"

lemma length_reset_bytes [simp]: "length (reset_bytes key sequence acknowledgement flags checksum) = 20"
  by (simp add: reset_bytes_def)

lemma put_reset:
  assumes "length pre = k" and "20 \<le> length rest"
  shows "do {
       packet \<leftarrow> put16 (pre @ rest) k (k_destination_port key);
       packet \<leftarrow> put16 packet (k + 2) (k_source_port key);
       packet \<leftarrow> put32 packet (k + 4) sequence;
       packet \<leftarrow> put32 packet (k + 8) acknowledgement;
       packet \<leftarrow> put_byte packet (k + 12) 80;
       packet \<leftarrow> put_byte packet (k + 13) flags;
       packet \<leftarrow> put16 packet (k + 14) 0;
       packet \<leftarrow> put16 packet (k + 16) 0;
       put16 packet (k + 18) 0 }
     = Some (pre @ reset_bytes key sequence acknowledgement flags 0 @ drop 20 rest)"
  using assms unfolding put16_eq put32_eq
  by (simp add: wire del: append_assoc append.simps) (simp add: reset_bytes_def)

text \<open>The checksum a receiver verifies in a packet the bridge built.\<close>

definition built_sum :: "bool \<Rightarrow> bytes \<Rightarrow> bytes \<Rightarrow> u8 \<Rightarrow> bytes \<Rightarrow> nat" where
  "built_sum ipv6 source destination protocol segment =
     pseudo_sum ipv6 source destination protocol (length segment) + sum_words segment"

definition reset_packet :: "bool \<Rightarrow> DeviceAddress \<Rightarrow> u16 \<Rightarrow> Key \<Rightarrow> u32 \<Rightarrow> u32 \<Rightarrow> u8 \<Rightarrow> bytes" where
  "reset_packet ipv6 device identification key sequence acknowledgement flags =
     own_header ipv6 kTcp 20 (k_destination key) device identification @
     reset_bytes key sequence acknowledgement flags
       (finish (built_sum ipv6 (k_destination key) device kTcp (reset_bytes key sequence acknowledgement flags 0)))"

lemma write_reset_eq:
  assumes "length (k_destination key) = 16" and "length device = 16"
    and "(if ipv6 then 40 else 20) + 20 \<le> length packet"
  shows "write_reset ipv6 packet key device identification sequence acknowledgement flags
    = Some (reset_packet ipv6 device identification key sequence acknowledgement flags)"
proof -
  let ?k = "if ipv6 then kIpv6Header else kIpv4Header :: nat"
  let ?h = "own_header ipv6 kTcp 20 (k_destination key) device identification"
  let ?r = "reset_bytes key sequence acknowledgement flags"
  let ?c = "finish (built_sum ipv6 (k_destination key) device kTcp (?r 0))"
  let ?tail = "drop 20 (drop ?k packet)"
  have k: "?k = (if ipv6 then 40 else 20)" by (simp add: kIpv6Header_def kIpv4Header_def)
  have h: "length ?h = ?k" using length_own_header [OF assms(1,2)] k by simp
  have ip: "write_ip_header ipv6 packet kTcp kTcpHeader (k_destination key) device identification
      = Some (?h @ drop ?k packet)"
    using write_ip_header_eq [OF assms(1,2), of ipv6 packet kTcp 20 identification] assms(3) k
    by (simp add: kTcpHeader_def split: if_splits)
  have segment: "subspan (?h @ ?r 0 @ ?tail) ?k kTcpHeader = Some (?r 0)"
    by (rule subspan_append) (simp_all add: h kTcpHeader_def)
  let ?B = "be16 (k_destination_port key) @ be16 (k_source_port key) @ be32 sequence @ be32 acknowledgement @
    [80, flags] @ be16 0"
  have r: "?r c = ?B @ be16 c @ be16 0" for c by (simp add: reset_bytes_def)
  have sum: "put16 (?h @ ?r 0 @ ?tail) (?k + 16) c = Some (?h @ ?r c @ ?tail)" for c
    using put16_mid [of "?k + 16" "?h @ ?B" "be16 0" "be16 0 @ ?tail" c] h unfolding r by simp
  have all: "subspan (?h @ ?r ?c @ ?tail) 0 (?k + kTcpHeader) = Some (?h @ ?r ?c)"
    using subspan_append [of 0 "[]" "?k + kTcpHeader" "?h @ ?r ?c" ?tail] by (simp add: h kTcpHeader_def)
  let ?put = "do {
       packet \<leftarrow> put16 (?h @ drop ?k packet) ?k (k_destination_port key);
       packet \<leftarrow> put16 packet (?k + 2) (k_source_port key);
       packet \<leftarrow> put32 packet (?k + 4) sequence;
       packet \<leftarrow> put32 packet (?k + 8) acknowledgement;
       packet \<leftarrow> put_byte packet (?k + 12) 80;
       packet \<leftarrow> put_byte packet (?k + 13) flags;
       packet \<leftarrow> put16 packet (?k + 14) 0;
       packet \<leftarrow> put16 packet (?k + 16) 0;
       put16 packet (?k + 18) 0 }"
  have put: "?put = Some (?h @ ?r 0 @ ?tail)"
    by (rule put_reset [OF h]) (use assms(3) k in \<open>simp split: if_splits\<close>)
  have "write_reset ipv6 packet key device identification sequence acknowledgement flags
      = Option.bind ?put (\<lambda>p. Option.bind (subspan p ?k kTcpHeader) (\<lambda>segment.
          Option.bind (put16 p (?k + 16) (finish (pseudo_sum ipv6 (k_destination key) device kTcp kTcpHeader
            + sum_words segment))) (\<lambda>p. subspan p 0 (?k + kTcpHeader))))"
    unfolding write_reset_def Let_def ip bind.bind_lunit by (simp only: Option.bind_assoc)
  also have "\<dots> = Some (?h @ ?r ?c)"
    unfolding put bind.bind_lunit segment sum using all by (simp add: built_sum_def kTcpHeader_def)
  finally show ?thesis by (simp add: reset_packet_def)
qed

text \<open>The addresses in a header the bridge wrote.\<close>

lemma own_header_parts:
  assumes "length source = 16" and "length destination = 16"
  obtains H where "own_header ipv6 protocol body source destination identification
      = H @ take (address_bytes ipv6) source @ take (address_bytes ipv6) destination"
    and "length H = source_offset ipv6"
proof (cases ipv6)
  case True
  then show ?thesis using that [of "[96, 0, 0, 0] @ be16 (of_nat body) @ [protocol, 64]"]
    by (simp add: own_header_def ipv6_header_def address_bytes_def source_offset_def)
next
  case False
  let ?c = "finish (sum_words (ipv4_header protocol body source destination identification 0))"
  show ?thesis
    using False that [of "[69, 0] @ be16 (of_nat (20 + body)) @ be16 identification @ be16 16384 @
      [64, protocol] @ be16 ?c"]
    by (simp add: own_header_def ipv4_header_def address_bytes_def source_offset_def)
qed

text \<open>What a receiver adds up over the transport part of a packet of the given protocol.\<close>

definition transport_sum :: "bool \<Rightarrow> u8 \<Rightarrow> nat \<Rightarrow> bytes \<Rightarrow> nat" where
  "transport_sum ipv6 protocol header packet =
     pseudo_sum ipv6 (drop (source_offset ipv6) packet) (drop (destination_offset ipv6) packet) protocol
       (length packet - header) + sum_words (drop header packet)"

lemma transport_sum_built:
  assumes "length source = 16" and "length destination = 16"
  shows "transport_sum ipv6 protocol (if ipv6 then 40 else 20)
      (own_header ipv6 p body source destination identification @ segment)
    = built_sum ipv6 source destination protocol segment"
proof -
  obtain H where H: "own_header ipv6 p body source destination identification
      = H @ take (address_bytes ipv6) source @ take (address_bytes ipv6) destination" "length H = source_offset ipv6"
    by (rule own_header_parts [OF assms])
  moreover have n: "length (take (address_bytes ipv6) source) = address_bytes ipv6"
      "length (take (address_bytes ipv6) destination) = address_bytes ipv6"
    using assms parts_offsets(4) [of ipv6] by simp_all
  moreover have "(if ipv6 then 40 else 20) = source_offset ipv6 + address_bytes ipv6 + address_bytes ipv6"
    by (simp add: source_offset_def address_bytes_def)
  ultimately show ?thesis
    using parts_offsets(1) [of ipv6] by (simp add: transport_sum_def built_sum_def pseudo_sum_def)
qed

lemma built_sum_positive: "protocol \<noteq> 0 \<Longrightarrow> 0 < built_sum ipv6 source destination protocol segment"
  by (simp add: built_sum_def pseudo_sum_def unat_gt_0)

lemma reset_packet_checksums:
  assumes "length (k_destination key) = 16" and "length device = 16"
  shows "fold_sum (transport_sum ipv6 kTcp (if ipv6 then 40 else 20)
      (reset_packet ipv6 device identification key sequence acknowledgement flags)) = 65535"
    and "\<not> ipv6 \<Longrightarrow> fold_sum (header_sum 20
      (reset_packet ipv6 device identification key sequence acknowledgement flags)) = 65535"
proof -
  let ?r = "reset_bytes key sequence acknowledgement flags"
  let ?s = "built_sum ipv6 (k_destination key) device kTcp"
  have words: "sum_words (?r c) = sum_words (?r 0) + unat c" for c
    by (simp add: reset_bytes_def sum_words_append)
  have sum: "?s (?r c) = ?s (?r 0) + unat c" for c unfolding built_sum_def words [of c] by simp
  have "?s (?r (finish (?s (?r 0)))) mod 65535 = 0"
    unfolding sum [of "finish (?s (?r 0))"] by (rule finish_mod)
  then show "fold_sum (transport_sum ipv6 kTcp (if ipv6 then 40 else 20)
      (reset_packet ipv6 device identification key sequence acknowledgement flags)) = 65535"
    unfolding reset_packet_def transport_sum_built [OF assms] fold_sum_ones
    using built_sum_positive [of kTcp] by (simp add: kTcp_def)
  show "fold_sum (header_sum 20
      (reset_packet ipv6 device identification key sequence acknowledgement flags)) = 65535" if "\<not> ipv6"
    using own_header_checksum [OF assms, of kTcp 20 identification]
      length_own_header [OF assms, of ipv6 kTcp 20 identification] that
    by (simp add: header_sum_def reset_packet_def)
qed

section \<open>UDP replies\<close>

definition udp_bytes :: "u16 \<Rightarrow> u16 \<Rightarrow> bytes \<Rightarrow> u16 \<Rightarrow> bytes" where
  "udp_bytes source_port destination_port payload checksum =
     be16 source_port @ be16 destination_port @ be16 (of_nat (8 + length payload)) @ be16 checksum @ payload"

lemma length_udp_bytes: "length (udp_bytes source_port destination_port payload checksum) = 8 + length payload"
  by (simp add: udp_bytes_def)

definition reply_packet :: "bool \<Rightarrow> DeviceAddress \<Rightarrow> DeviceAddress \<Rightarrow> u16 \<Rightarrow> u16 \<Rightarrow> u16 \<Rightarrow> bytes \<Rightarrow> bytes" where
  "reply_packet ipv6 source device identification source_port destination_port payload =
     (let c = finish (built_sum ipv6 source device kUdp (udp_bytes source_port destination_port payload 0))
      in own_header ipv6 kUdp (8 + length payload) source device identification @
         udp_bytes source_port destination_port payload (if c = 0 then 65535 else c))"

lemma put_udp:
  assumes "length pre = k" and "8 + length payload \<le> length rest"
  shows "do {
       out \<leftarrow> put16 (pre @ rest) k source_port;
       out \<leftarrow> put16 out (k + 2) destination_port;
       out \<leftarrow> put16 out (k + 4) (of_nat (8 + length payload));
       out \<leftarrow> put16 out (k + 6) 0;
       copy_to out (k + 8) payload }
     = Some (pre @ udp_bytes source_port destination_port payload 0 @ drop (8 + length payload) rest)"
  using assms unfolding put16_eq
  by (simp add: wire del: append_assoc append.simps) (simp add: udp_bytes_def add.commute)

lemma build_reply_eq:
  fixes payload :: bytes
  assumes "family n ipv6 = Some f" and "length source = 16" and "length (ap_device (f_addresses f)) = 16"
  defines "whole \<equiv> (if ipv6 then 40 else 20) + (8 + length payload)"
  shows "build_reply n ipv6 source source_port destination_port payload mtu out =
    (if payload = [] \<or> whole > mtu \<or> whole > length out \<or> (if ipv6 then 8 + length payload else whole) > 65535
     then Some (0, out, n)
     else Some (whole,
       reply_packet ipv6 source (ap_device (f_addresses f)) (dn_next_identification n) source_port destination_port payload
         @ drop whole out,
       n\<lparr>dn_next_identification := dn_next_identification n + 1\<rparr>))"
proof -
  let ?k = "if ipv6 then kIpv6Header else kIpv4Header :: nat" and ?device = "ap_device (f_addresses f)"
  let ?n = "8 + length payload"
  let ?h = "own_header ipv6 kUdp ?n source ?device (dn_next_identification n)"
  let ?u = "udp_bytes source_port destination_port payload"
  let ?s = "built_sum ipv6 source ?device kUdp (?u 0)"
  have k: "?k = (if ipv6 then 40 else 20)" by (simp add: kIpv6Header_def kIpv4Header_def)
  show ?thesis
  proof (cases "payload = [] \<or> whole > mtu \<or> whole > length out \<or> (if ipv6 then ?n else whole) > 65535")
    case True
    show ?thesis
      unfolding build_reply_def Let_def assms(1) option.case kUdpHeader_def k whole_def [symmetric] if_P [OF True] ..
  next
    case False
    let ?tail = "drop ?n (drop ?k out)"
    have room: "whole \<le> length out" using False by simp
    have h: "length ?h = ?k" using length_own_header [OF assms(2,3)] k by simp
    have ip: "write_ip_header ipv6 out kUdp ?n source ?device (dn_next_identification n) = Some (?h @ drop ?k out)"
      using write_ip_header_eq [OF assms(2,3), of ipv6 out kUdp ?n] room k by (simp add: whole_def split: if_splits)
    let ?put = "do {
         out \<leftarrow> put16 (?h @ drop ?k out) ?k source_port;
         out \<leftarrow> put16 out (?k + 2) destination_port;
         out \<leftarrow> put16 out (?k + 4) (of_nat ?n);
         out \<leftarrow> put16 out (?k + 6) 0;
         copy_to out (?k + 8) payload }"
    have put: "?put = Some (?h @ ?u 0 @ ?tail)"
      by (rule put_udp [OF h]) (use room k in \<open>simp add: whole_def split: if_splits\<close>)
    have segment: "subspan (?h @ ?u 0 @ ?tail) ?k ?n = Some (?u 0)"
      by (rule subspan_append) (simp_all add: h udp_bytes_def)
    have sum: "put16 (?h @ ?u 0 @ ?tail) (?k + 6) c = Some (?h @ ?u c @ ?tail)" for c
      using put16_mid [of "?k + 6" "?h @ be16 source_port @ be16 destination_port @ be16 (of_nat ?n)" "be16 0"
          "payload @ ?tail" c] h by (simp add: udp_bytes_def)
    have "build_reply n ipv6 source source_port destination_port payload mtu out
        = Option.bind ?put (\<lambda>out. Option.bind (subspan out ?k ?n) (\<lambda>segment.
            let c = finish (pseudo_sum ipv6 source ?device kUdp ?n + sum_words segment) in
            Option.bind (put16 out (?k + 6) (if c = 0 then 65535 else c)) (\<lambda>out.
              Some (whole, out, n\<lparr>dn_next_identification := dn_next_identification n + 1\<rparr>))))"
      unfolding build_reply_def Let_def assms(1) option.case kUdpHeader_def
      unfolding ip [unfolded k] bind.bind_lunit Option.bind_assoc k whole_def [symmetric] if_not_P [OF False] ..
    also have "\<dots> = Some (whole, ?h @ ?u (if finish ?s = 0 then 65535 else finish ?s) @ ?tail,
        n\<lparr>dn_next_identification := dn_next_identification n + 1\<rparr>)"
      unfolding put bind.bind_lunit segment sum built_sum_def length_udp_bytes Let_def ..
    finally show ?thesis
      unfolding if_not_P [OF False] by (simp add: reply_packet_def Let_def whole_def k add.commute)
  qed
qed

lemma reply_packet_checksums:
  fixes ipv6 and identification source_port destination_port :: u16 and payload :: bytes
  assumes "length source = 16" and "length device = 16"
  defines "p \<equiv> reply_packet ipv6 source device identification source_port destination_port payload"
  shows "fold_sum (transport_sum ipv6 kUdp (if ipv6 then 40 else 20) p) = 65535"
    and "\<not> ipv6 \<Longrightarrow> fold_sum (header_sum 20 p) = 65535"
proof -
  let ?u = "udp_bytes source_port destination_port payload"
  let ?s = "built_sum ipv6 source device kUdp"
  let ?c = "if finish (?s (?u 0)) = 0 then 65535 else finish (?s (?u 0))"
  have words: "sum_words (?u c) = sum_words (?u 0) + unat c" for c
    by (simp add: udp_bytes_def sum_words_append)
  have sum: "?s (?u c) = ?s (?u 0) + unat c" for c
    unfolding built_sum_def words [of c] length_udp_bytes by simp
  have "?s (?u ?c) mod 65535 = 0"
  proof (cases "finish (?s (?u 0)) = 0")
    case True
    then have "?s (?u 0) mod 65535 = 0" using finish_mod [of "?s (?u 0)"] by simp
    then show ?thesis using True sum [of 65535] by simp
  next
    case False
    then show ?thesis using sum [of "finish (?s (?u 0))"] finish_mod [of "?s (?u 0)"] by simp
  qed
  then show "fold_sum (transport_sum ipv6 kUdp (if ipv6 then 40 else 20) p) = 65535"
    unfolding p_def reply_packet_def Let_def transport_sum_built [OF assms(1,2)] fold_sum_ones
    using built_sum_positive [of kUdp] by (simp add: kUdp_def)
  show "fold_sum (header_sum 20 p) = 65535" if "\<not> ipv6"
    using own_header_checksum [OF assms(1,2), of kUdp "8 + length payload" identification]
      length_own_header [OF assms(1,2), of ipv6 kUdp "8 + length payload" identification] that
    by (simp add: header_sum_def p_def reply_packet_def Let_def)
qed

end
