(* ===== verification/Nat_Tables.thy ===== *)
theory Nat_Tables
  imports Nat_Packets
begin

text \<open>
  The connection tables of the device bridge. In every reachable state the two tables of a family
  are inverse to each other, and the bridge never runs out of ports before it runs out of
  connections.
\<close>

section \<open>The search for a port\<close>

definition next_of :: "u16 \<Rightarrow> u16" where
  "next_of port = (if port = 65535 then kFirstPort else port + 1)"

lemma find_port_step:
  "find_port (Suc tries) entries p =
     (if map_of entries p \<noteq> None then find_port tries entries (next_of p) else (Some p, next_of p))"
  by (simp add: Let_def next_of_def)

lemma find_port_Some:
  "find_port tries entries p = (Some port, q) \<Longrightarrow> map_of entries port = None \<and> q = next_of port \<and>
     (\<exists>i < tries. port = (next_of ^^ i) p)"
proof (induction tries arbitrary: p)
  case (Suc tries)
  show ?case
  proof (cases "map_of entries p = None")
    case True
    with Suc.prems show ?thesis by (auto simp: Let_def next_of_def)
  next
    case False
    with Suc.prems have "find_port tries entries (next_of p) = (Some port, q)"
      by (simp add: Let_def next_of_def split: if_splits)
    from Suc.IH [OF this] obtain i where "map_of entries port = None" "q = next_of port" "i < tries"
        "port = (next_of ^^ Suc i) p" by (auto simp: funpow_swap1)
    then show ?thesis by (metis Suc_less_eq)
  qed
qed simp

lemma find_port_None:
  "find_port tries entries p = (None, q) \<Longrightarrow> i < tries \<Longrightarrow> map_of entries ((next_of ^^ i) p) \<noteq> None"
proof (induction tries arbitrary: p i)
  case (Suc tries)
  have taken: "map_of entries p \<noteq> None"
    using Suc.prems(1) by (auto simp: Let_def split: if_splits)
  then have rest: "find_port tries entries (next_of p) = (None, q)"
    using Suc.prems(1) by (simp add: Let_def next_of_def)
  show ?case
  proof (cases i)
    case 0
    with taken show ?thesis by simp
  next
    case (Suc j)
    with Suc.prems(2) Suc.IH [OF rest, of j] show ?thesis by (simp add: funpow_swap1)
  qed
qed simp

text \<open>The ports from 1024 on in the order the search visits them.\<close>

lemma next_of_pow:
  assumes "1024 \<le> unat p" and "i < 64512"
  shows "unat ((next_of ^^ i) p) = (if unat p + i \<le> 65535 then unat p + i else unat p + i - 64512)"
  using assms(2)
proof (induction i)
  case 0
  have "unat p \<le> 65535" using unat_u16_less [of p] by linarith
  then show ?case by simp
next
  case (Suc i)
  have step: "unat (next_of q) = (if unat q = 65535 then 1024 else unat q + 1)" for q
  proof (cases "q = 65535")
    case True
    then show ?thesis by (simp add: next_of_def kFirstPort_def)
  next
    case False
    then have "unat q \<noteq> 65535" by (simp add: word_unat_eq_iff)
    then have q: "unat q < 65535" using unat_u16_less [of q] by linarith
    then have "unat (q + 1) = unat q + 1" by (simp add: unat_plus_if_size word_size)
    with False q show ?thesis by (simp add: next_of_def)
  qed
  have p: "unat p \<le> 65535" using unat_u16_less [of p] by linarith
  have IH: "unat ((next_of ^^ i) p) = (if unat p + i \<le> 65535 then unat p + i else unat p + i - 64512)"
    using Suc by simp
  consider "unat p + i < 65535" | "unat p + i = 65535" | "65535 < unat p + i" by linarith
  then show ?case
  proof cases
    case 1
    with IH show ?thesis by (simp add: step)
  next
    case 2
    with IH show ?thesis by (simp add: step)
  next
    case 3
    then have "unat p + i - 64512 \<noteq> 65535" using p Suc.prems by linarith
    with 3 IH show ?thesis by (simp add: step)
  qed
qed

lemma next_of_inj:
  assumes "1024 \<le> unat p" and "i < 64512" and "j < 64512" and "(next_of ^^ i) p = (next_of ^^ j) p"
  shows "i = j"
proof -
  define n where "n = unat p"
  have n: "1024 \<le> n" "n \<le> 65535" using assms(1) unat_u16_less [of p] unfolding n_def by linarith+
  have "(if n + i \<le> 65535 then n + i else n + i - 64512) = (if n + j \<le> 65535 then n + j else n + j - 64512)"
    using next_of_pow [OF assms(1,2)] next_of_pow [OF assms(1,3)] unfolding assms(4) n_def by metis
  then show ?thesis using n assms(2,3) by (auto split: if_splits)
qed

lemma find_port_succeeds:
  assumes "1024 \<le> unat p" and "length entries < tries" and "tries \<le> 64512"
  obtains port q where "find_port tries entries p = (Some port, q)"
proof (cases "find_port tries entries p")
  case (Pair found q)
  show ?thesis
  proof (cases found)
    case None
    have "inj_on (\<lambda>i. (next_of ^^ i) p) {..<tries}"
      using next_of_inj [OF assms(1)] assms(3) by (intro inj_onI) (meson less_le_trans lessThan_iff)
    then have "card ((\<lambda>i. (next_of ^^ i) p) ` {..<tries}) = tries" by (simp add: card_image)
    moreover have "(\<lambda>i. (next_of ^^ i) p) ` {..<tries} \<subseteq> fst ` set entries"
      using find_port_None [of tries entries p q] Pair None by (force simp: map_of_eq_None_iff)
    then have "card ((\<lambda>i. (next_of ^^ i) p) ` {..<tries}) \<le> card (fst ` set entries)"
      by (intro card_mono) auto
    moreover have "card (fst ` set entries) \<le> length entries"
      by (metis card_length length_map list.set_map)
    ultimately show ?thesis using assms(2) by linarith
  next
    case (Some port)
    with Pair that show ?thesis by simp
  qed
qed

section \<open>The invariant of a family\<close>

text \<open>The two tables of a family as mutually inverse finite maps.\<close>

definition inverse_tables :: "(Key \<times> u16) list \<Rightarrow> (u16 \<times> Entry) list \<Rightarrow> bool" where
  "inverse_tables ports entries \<longleftrightarrow>
     distinct (map fst ports) \<and> distinct (map fst entries) \<and>
     (\<forall>key port. map_of ports key = Some port \<longleftrightarrow> (\<exists>e. map_of entries port = Some e \<and> e_key e = key))"

definition entry_ok :: "u16 \<times> Entry \<Rightarrow> bool" where
  "entry_ok pe \<longleftrightarrow> 1024 \<le> unat (fst pe) \<and> length (k_destination (e_key (snd pe))) = 16"

definition pair_ok :: "DeviceAddressPair \<Rightarrow> bool" where
  "pair_ok pair \<longleftrightarrow> length (ap_device pair) = 16 \<and> length (ap_peer pair) = 16"

definition family_ok :: "DeviceNatLimits \<Rightarrow> bool \<Rightarrow> Family \<Rightarrow> bool" where
  "family_ok limits ipv6 f \<longleftrightarrow>
     f_ipv6 f = ipv6 \<and> pair_ok (f_addresses f) \<and> 1024 \<le> unat (f_next_port f) \<and>
     inverse_tables (f_ports f) (f_entries f) \<and> list_all entry_ok (f_entries f) \<and>
     length (f_entries f) \<le> lim_max_connections limits"

definition nat_ok :: "DeviceNat \<Rightarrow> bool" where
  "nat_ok n \<longleftrightarrow> (\<forall>ipv6 f. family n ipv6 = Some f \<longrightarrow> family_ok (dn_limits n) ipv6 f)"

lemma inverse_tablesD:
  assumes "inverse_tables ports entries"
  shows "map_of ports key = Some port \<Longrightarrow> \<exists>e. map_of entries port = Some e \<and> e_key e = key"
    and "map_of entries port = Some e \<Longrightarrow> map_of ports (e_key e) = Some port"
  using assms unfolding inverse_tables_def by blast+

lemma inverse_tables_length:
  assumes "inverse_tables ports entries"
  shows "length ports = length entries"
proof -
  have d: "distinct (map fst ports)" "distinct (map fst entries)" using assms by (simp_all add: inverse_tables_def)
  have "fst ` set ports = e_key ` snd ` set entries"
    using assms d unfolding inverse_tables_def by (force simp: image_iff)
  moreover have "inj_on e_key (snd ` set entries)"
  proof (rule inj_onI; clarsimp)
    fix p q e e' assume "(p, e) \<in> set entries" "(q, e') \<in> set entries" "e_key e = e_key e'"
    then show "e = e'" using inverse_tablesD(2) [OF assms] d(2) by (metis map_of_is_SomeI option.inject)
  qed
  moreover have "inj_on snd (set entries)"
  proof (rule inj_onI; clarsimp)
    fix p q e assume "(p, e) \<in> set entries" "(q, e) \<in> set entries"
    then show "p = q" using inverse_tablesD(2) [OF assms] d(2) by (metis map_of_is_SomeI option.inject)
  qed
  ultimately have "card (fst ` set ports) = card (set entries)" by (simp add: card_image)
  moreover have "card (fst ` set ports) = length ports" using d(1) by (metis distinct_card length_map list.set_map)
  moreover have "card (set entries) = length entries" using d(2) by (metis distinct_card distinct_map)
  ultimately show ?thesis by simp
qed

lemma inverse_tables_Nil: "inverse_tables [] []"
  by (simp add: inverse_tables_def)

lemma inverse_tables_Cons:
  assumes "inverse_tables ports entries" and "map_of ports (e_key e) = None" and "map_of entries port = None"
  shows "inverse_tables ((e_key e, port) # ports) ((port, e) # entries)"
proof -
  have "e_key e \<notin> fst ` set ports" "port \<notin> fst ` set entries"
    using assms(2,3) by (simp_all add: map_of_eq_None_iff)
  moreover have "map_of ports key \<noteq> Some port" for key using inverse_tablesD(1) [OF assms(1)] assms(3) by fastforce
  moreover have "map_of entries q = Some e' \<Longrightarrow> e_key e' \<noteq> e_key e" for q e'
    using inverse_tablesD(2) [OF assms(1)] assms(2) by fastforce
  ultimately show ?thesis using assms(1) unfolding inverse_tables_def by (auto split: if_splits)
qed

text \<open>An update that keeps the key of an entry keeps the tables inverse.\<close>

lemma map_of_change:
  "map_of (map (\<lambda>(p, e). (p, if p = port then change e else e)) entries) q
   = map_option (\<lambda>e. if q = port then change e else e) (map_of entries q)"
  by (induction entries) auto

lemma family_ok_update:
  assumes "family_ok limits ipv6 f" and "\<And>e. e_key (change e) = e_key e"
  shows "family_ok limits ipv6 (update_entry f port change)"
proof -
  let ?es = "map (\<lambda>(p, e). (p, if p = port then change e else e)) (f_entries f)"
  have "map fst ?es = map fst (f_entries f)" by auto
  moreover have "(\<exists>e. map_of ?es q = Some e \<and> e_key e = k) \<longleftrightarrow> (\<exists>e. map_of (f_entries f) q = Some e \<and> e_key e = k)" for q k
    unfolding map_of_change by (cases "map_of (f_entries f) q") (auto simp: assms(2))
  ultimately have "inverse_tables (f_ports f) ?es"
    using assms(1) unfolding family_ok_def inverse_tables_def by presburger
  moreover have "list_all entry_ok ?es"
    using assms unfolding family_ok_def by (auto simp: list_all_iff entry_ok_def)
  ultimately show ?thesis using assms(1) by (simp add: family_ok_def update_entry_def)
qed

text \<open>Removing the entries that satisfy a condition, and their keys.\<close>

definition expired :: "int \<Rightarrow> Entry \<Rightarrow> bool" where
  "expired now e \<longleftrightarrow> e_phase e \<noteq> Accepted \<and> e_expires e \<le> now"

lemma sweep_entries_filter:
  "sweep_entries now ports entries =
     (filter (\<lambda>(k, _). \<forall>(p, e) \<in> set entries. expired now e \<longrightarrow> k \<noteq> e_key e) ports,
      filter (\<lambda>(p, e). \<not> expired now e) entries)"
proof (induction entries arbitrary: ports)
  case (Cons pe entries)
  obtain p e where pe: "pe = (p, e)" by (cases pe)
  show ?case
  proof (cases "expired now e")
    case True
    with Cons show ?thesis by (simp add: pe expired_def conj_commute split_def)
  next
    case False
    with Cons show ?thesis by (auto simp add: pe expired_def split_def)
  qed
qed simp

lemma map_of_filter_fst:
  "map_of (filter (\<lambda>(k, _). P k) xs) k = (if P k then map_of xs k else None)"
  by (induction xs) auto

lemma map_of_filter_snd:
  "distinct (map fst xs) \<Longrightarrow>
    map_of (filter (\<lambda>(k, v). P v) xs) k = (case map_of xs k of Some v \<Rightarrow> if P v then Some v else None | None \<Rightarrow> None)"
  by (induction xs) (auto simp: map_of_eq_None_iff split: option.splits)

text \<open>What a sweep leaves of the entry table, and of the key table.\<close>

lemma swept_entries:
  assumes "distinct (map fst (f_entries f))"
  shows "map_of (f_entries (sweep_family now f)) port = Some e \<longleftrightarrow>
    map_of (f_entries f) port = Some e \<and> \<not> expired now e"
  using map_of_filter_snd [OF assms, of "\<lambda>e. \<not> expired now e" port]
  by (auto simp: sweep_family_def sweep_entries_filter split: option.splits)

lemma swept_ports:
  assumes "inverse_tables (f_ports f) (f_entries f)"
  shows "map_of (f_ports (sweep_family now f)) key = Some port \<longleftrightarrow>
    (\<exists>e. map_of (f_entries f) port = Some e \<and> e_key e = key \<and> \<not> expired now e)"
proof -
  have d: "distinct (map fst (f_entries f))" using assms by (simp add: inverse_tables_def)
  have swept: "map_of (f_ports (sweep_family now f)) key =
      (if \<forall>(p, e) \<in> set (f_entries f). expired now e \<longrightarrow> key \<noteq> e_key e then map_of (f_ports f) key else None)"
    by (simp add: sweep_family_def sweep_entries_filter map_of_filter_fst)
  have same: "e = e'" if "(p, e) \<in> set (f_entries f)" "map_of (f_entries f) q = Some e'" "e_key e = e_key e'" for p q e e'
    using inverse_tablesD(2) [OF assms] map_of_is_SomeI [OF d that(1)] that(2,3) by (metis option.inject)
  show ?thesis
  proof
    assume "map_of (f_ports (sweep_family now f)) key = Some port"
    then have live: "\<forall>(p, e) \<in> set (f_entries f). expired now e \<longrightarrow> key \<noteq> e_key e" "map_of (f_ports f) key = Some port"
      unfolding swept by (simp_all split: if_splits)
    from inverse_tablesD(1) [OF assms live(2)]
    obtain e where e: "map_of (f_entries f) port = Some e" "e_key e = key" by blast
    with live(1) map_of_SomeD [OF e(1)] show "\<exists>e. map_of (f_entries f) port = Some e \<and> e_key e = key \<and> \<not> expired now e"
      by blast
  next
    assume "\<exists>e. map_of (f_entries f) port = Some e \<and> e_key e = key \<and> \<not> expired now e"
    then obtain e where e: "map_of (f_entries f) port = Some e" "e_key e = key" "\<not> expired now e" by blast
    have live: "\<forall>(p, e) \<in> set (f_entries f). expired now e \<longrightarrow> key \<noteq> e_key e" using same [OF _ e(1)] e(2,3) by fastforce
    show "map_of (f_ports (sweep_family now f)) key = Some port"
      unfolding swept if_P [OF live] using inverse_tablesD(2) [OF assms e(1)] e(2) by simp
  qed
qed

lemma family_ok_sweep:
  assumes "family_ok limits ipv6 f"
  shows "family_ok limits ipv6 (sweep_family now f)"
proof -
  have inv: "inverse_tables (f_ports f) (f_entries f)" using assms by (simp add: family_ok_def)
  then have d: "distinct (map fst (f_ports f))" "distinct (map fst (f_entries f))" by (simp_all add: inverse_tables_def)
  have "inverse_tables (f_ports (sweep_family now f)) (f_entries (sweep_family now f))"
    unfolding inverse_tables_def swept_entries [OF d(2)] swept_ports [OF inv]
    using d by (auto simp: sweep_family_def sweep_entries_filter distinct_map_filter)
  moreover have "list_all entry_ok (f_entries (sweep_family now f))"
      "length (f_entries (sweep_family now f)) \<le> lim_max_connections limits"
    using assms by (auto simp: family_ok_def sweep_family_def sweep_entries_filter list_all_iff
        intro: order_trans [OF length_filter_le])
  moreover have "f_ipv6 (sweep_family now f) = f_ipv6 f" "f_addresses (sweep_family now f) = f_addresses f"
      "f_next_port (sweep_family now f) = f_next_port f"
    by (simp_all add: sweep_family_def sweep_entries_filter)
  ultimately show ?thesis using assms by (simp add: family_ok_def)
qed

section \<open>Allocation\<close>

lemma next_of_low: "1024 \<le> unat p \<Longrightarrow> 1024 \<le> unat (next_of p)"
proof (cases "p = 65535")
  case False
  assume "1024 \<le> unat p"
  moreover have "unat p \<noteq> 65535" using False by (simp add: word_unat_eq_iff)
  then have "unat p < 65535" using unat_u16_less [of p] by linarith
  then have "unat (p + 1) = unat p + 1" by (simp add: unat_plus_if_size word_size)
  ultimately show ?thesis using False by (simp add: next_of_def)
qed (simp add: next_of_def kFirstPort_def)

lemma next_of_pow_low: "1024 \<le> unat p \<Longrightarrow> 1024 \<le> unat ((next_of ^^ i) p)"
  by (induction i) (simp_all add: next_of_low)

lemma find_port_next_low:
  "find_port tries entries p = (found, q) \<Longrightarrow> 1024 \<le> unat p \<Longrightarrow> 1024 \<le> unat q"
  by (induction tries arbitrary: p) (auto simp: find_port_step next_of_low simp del: find_port.simps(2) split: if_splits)

text \<open>A key without a connection gets a free port exactly below the two limits.\<close>

lemma allocate_cases:
  assumes "family_ok limits ipv6 f" and "map_of (f_ports f) key = None"
  obtains (found) port q where "allocate limits f key now = (Some port, f\<lparr>f_next_port := q,
        f_entries := (port, \<lparr>e_key = key, e_phase = Pending, e_expires = now + lim_pending limits\<rparr>) # f_entries f,
        f_ports := (key, port) # f_ports f\<rparr>)"
      "map_of (f_entries f) port = None" "1024 \<le> unat port" "1024 \<le> unat q"
      "length (f_entries f) < lim_max_connections limits"
  | (full) q where "allocate limits f key now = (None, f\<lparr>f_next_port := q\<rparr>)" "1024 \<le> unat q"
      "lim_max_connections limits \<le> length (f_entries f) \<or> 64512 \<le> length (f_entries f)"
proof (cases "lim_max_connections limits \<le> length (f_entries f)")
  case True
  then have "allocate limits f key now = (None, f\<lparr>f_next_port := f_next_port f\<rparr>)" by (simp add: allocate_def)
  then show ?thesis by (rule full) (use True assms(1) in \<open>auto simp: family_ok_def\<close>)
next
  case False
  define tries :: nat where "tries = 64512"
  have low: "1024 \<le> unat (f_next_port f)" using assms(1) by (simp add: family_ok_def)
  have tries: "65535 - unat kFirstPort + 1 = tries" by (simp add: kFirstPort_def tries_def)
  obtain found q where search: "find_port tries (f_entries f) (f_next_port f) = (found, q)" by fastforce
  note q = find_port_next_low [OF search low]
  have alloc: "allocate limits f key now = (case (found, q) of (None, next_port) \<Rightarrow> (None, f\<lparr>f_next_port := next_port\<rparr>)
      | (Some port, next_port) \<Rightarrow> (Some port, f\<lparr>f_next_port := next_port,
        f_entries := (port, \<lparr>e_key = key, e_phase = Pending, e_expires = now + lim_pending limits\<rparr>) # f_entries f,
        f_ports := (key, port) # f_ports f\<rparr>))"
    unfolding allocate_def tries search if_not_P [OF False] assms(2) by (cases found) simp_all
  show ?thesis
  proof (cases found)
    case None
    have "\<not> length (f_entries f) < tries"
    proof
      assume "length (f_entries f) < tries"
      then obtain port q' where "find_port tries (f_entries f) (f_next_port f) = (Some port, q')"
        by (rule find_port_succeeds [OF low]) (auto simp: tries_def)
      with search None show False by simp
    qed
    then have "64512 \<le> length (f_entries f)" by (simp add: tries_def)
    with None alloc q full show ?thesis by simp
  next
    case (Some port)
    with find_port_Some [of tries "f_entries f" "f_next_port f" port q] search
    obtain i where "map_of (f_entries f) port = None" "port = (next_of ^^ i) (f_next_port f)" by blast
    with Some alloc q False next_of_pow_low [OF low] found show ?thesis by simp
  qed
qed

lemma family_ok_allocate:
  assumes "family_ok limits ipv6 f" and "map_of (f_ports f) key = None" and "length (k_destination key) = 16"
  shows "family_ok limits ipv6 (snd (allocate limits f key now))"
  using assms(1,2)
proof (cases rule: allocate_cases [where now = now])
  case (found port q)
  then have "inverse_tables ((key, port) # f_ports f)
      ((port, \<lparr>e_key = key, e_phase = Pending, e_expires = now + lim_pending limits\<rparr>) # f_entries f)"
    using inverse_tables_Cons [of "f_ports f" "f_entries f"
        "\<lparr>e_key = key, e_phase = Pending, e_expires = now + lim_pending limits\<rparr>" port] assms
    by (simp add: family_ok_def)
  with found assms show ?thesis by (simp add: family_ok_def entry_ok_def)
next
  case (full q)
  with assms show ?thesis by (simp add: family_ok_def)
qed

end
