(* ===== verification/Nat_Translation.thy ===== *)
theory Nat_Translation
  imports Nat_Tables
begin

text \<open>
  The device bridge packet by packet: what a rewritten segment carries, that every packet the bridge
  writes has valid checksums, and that the answer to a forwarded segment finds its way back.
\<close>

section \<open>Rewritten segments\<close>

text \<open>
  The addresses and ports of a segment, and its bytes other than the addresses, the ports and the
  two checksums.
\<close>

definition endpoints :: "bool \<Rightarrow> nat \<Rightarrow> bytes \<Rightarrow> bytes \<times> u16 \<times> bytes \<times> u16" where
  "endpoints ipv6 header packet =
     (take (address_bytes ipv6) (drop (source_offset ipv6) packet),
      of_be16 (packet ! header) (packet ! (header + 1)),
      take (address_bytes ipv6) (drop (destination_offset ipv6) packet),
      of_be16 (packet ! (header + 2)) (packet ! (header + 3)))"

definition carried :: "bool \<Rightarrow> nat \<Rightarrow> bytes \<Rightarrow> bytes \<times> bytes \<times> bytes \<times> bytes" where
  "carried ipv6 header packet =
     (take (if ipv6 then 8 else 10) packet,
      take (header - (destination_offset ipv6 + address_bytes ipv6)) (drop (destination_offset ipv6 + address_bytes ipv6) packet),
      take 12 (drop (header + 4) packet),
      drop (header + 18) packet)"

lemma endpoints_parts:
  assumes "parts_ok ipv6 header H source destination options (be16 sp @ be16 dp) M"
  shows "endpoints ipv6 header (packet_of H source destination options (be16 sp @ be16 dp) M checksum rest)
    = (source, sp, destination, dp)"
proof -
  let ?p = "packet_of H source destination options (be16 sp @ be16 dp) M checksum rest"
  have header: "header = length (H @ source @ destination @ options)"
    using assms parts_offsets(1) [of ipv6] by (simp add: parts_ok_def)
  have "?p ! header = (be16 sp @ be16 dp) ! 0" "?p ! (header + 1) = (be16 sp @ be16 dp) ! 1"
      "?p ! (header + 2) = (be16 sp @ be16 dp) ! 2" "?p ! (header + 3) = (be16 sp @ be16 dp) ! 3"
    unfolding header packet_of_def by (simp_all add: nth_append)
  moreover have "take (address_bytes ipv6) (drop (source_offset ipv6) ?p) = source"
      "take (address_bytes ipv6) (drop (destination_offset ipv6) ?p) = destination"
    using assms parts_offsets(1) [of ipv6] by (simp_all add: packet_of_def parts_ok_def)
  ultimately show ?thesis by (simp add: endpoints_def be16_def of_be16_be16)
qed

lemma carried_parts:
  assumes "parts_ok ipv6 header H source destination options ports M"
  shows "carried ipv6 header (packet_of H source destination options ports M checksum rest)
    = (take (if ipv6 then 8 else 10) H, options, M, rest)"
  using assms parts_offsets(1) [of ipv6]
  by (auto simp: carried_def packet_of_def parts_ok_def source_offset_def address_bytes_def)

text \<open>The checksums a receiver verifies.\<close>

definition checksums_ok :: "bool \<Rightarrow> u8 \<Rightarrow> nat \<Rightarrow> bytes \<Rightarrow> bool" where
  "checksums_ok ipv6 protocol header packet \<longleftrightarrow>
     fold_sum (transport_sum ipv6 protocol header packet) = 65535 \<and>
     (\<not> ipv6 \<longrightarrow> fold_sum (header_sum header packet) = 65535)"

definition room_for_segment :: "bool \<Rightarrow> nat \<Rightarrow> bytes \<Rightarrow> bool" where
  "room_for_segment ipv6 header packet \<longleftrightarrow> (if ipv6 then 40 else 20) \<le> header \<and> header + 20 \<le> length packet"

lemma room_offsets:
  "room_for_segment ipv6 header packet \<Longrightarrow>
    destination_offset ipv6 + address_bytes ipv6 \<le> header \<and> header + 20 \<le> length packet"
  by (simp add: room_for_segment_def destination_offset_def address_bytes_def split: if_splits)

lemma sum_words_mono: "a # rest = packet \<Longrightarrow> a \<noteq> 0 \<Longrightarrow> 0 < sum_words packet"
proof (cases rest)
  case (Cons b rest')
  assume "a # rest = packet" "a \<noteq> 0"
  moreover have "of_be16 a b \<noteq> 0" if "a \<noteq> 0"
  proof
    assume "of_be16 a b = 0"
    then have "[a, b] = be16 0" using be16_eq_list by blast
    with that show False by (simp add: be16_def)
  qed
  ultimately show ?thesis using Cons by (auto simp: unat_gt_0)
qed (auto simp: unat_gt_0)

lemma tcp_sum_transport: "tcp_sum ipv6 header packet = transport_sum ipv6 kTcp header packet"
  by (simp add: tcp_sum_def transport_sum_def)

lemma checksums_kept:
  assumes "checksums_ok ipv6 kTcp header packet"
    and "tcp_sum ipv6 header out mod 65535 = tcp_sum ipv6 header packet mod 65535"
    and "\<not> ipv6 \<Longrightarrow> header_sum header out mod 65535 = header_sum header packet mod 65535"
    and "out \<noteq> []" and "out ! 0 \<noteq> 0" and "0 < header"
  shows "checksums_ok ipv6 kTcp header out"
proof -
  have "0 < transport_sum ipv6 kTcp header out" by (simp add: transport_sum_def pseudo_sum_def kTcp_def)
  moreover have "0 < header_sum header out"
    using assms(4-6) sum_words_mono [of "hd out" "tl (take header out)" "take header out"]
    by (cases out; cases header) (auto simp: header_sum_def)
  ultimately show ?thesis
    using assms(1-3) unfolding checksums_ok_def fold_sum_ones tcp_sum_transport by auto
qed

text \<open>Everything a rewriting does: new endpoints, the same other bytes, and checksums as good as before.\<close>

lemma rewrite_segment_ok:
  assumes "room_for_segment ipv6 header packet" and "length new_source = 16" and "length new_destination = 16"
  obtains out where "rewrite_segment ipv6 packet header new_source new_destination sp dp = Some out"
    and "length out = length packet"
    and "endpoints ipv6 header out = (take (address_bytes ipv6) new_source, sp, take (address_bytes ipv6) new_destination, dp)"
    and "carried ipv6 header out = carried ipv6 header packet"
    and "tcp_sum ipv6 header out mod 65535 = tcp_sum ipv6 header packet mod 65535"
    and "\<not> ipv6 \<Longrightarrow> header_sum header out mod 65535 = header_sum header packet mod 65535"
proof -
  obtain H source destination options ports M checksum rest where
    p: "packet = packet_of H source destination options ports M checksum rest"
    and ok: "parts_ok ipv6 header H source destination options ports M"
    by (rule packet_parts [of ipv6 header packet]) (use room_offsets [OF assms(1)] in auto)
  let ?n = "address_bytes ipv6"
  have n: "?n \<le> length new_source" "?n \<le> length new_destination" using assms(2,3) parts_offsets(4) [of ipv6] by simp_all
  obtain A head_sum where A: "\<not> ipv6 \<Longrightarrow> H = A @ be16 head_sum"
  proof (cases ipv6)
    case False
    then have "length (take 10 H) = 10" "length (drop 10 H) = 2" using ok by (simp_all add: parts_ok_def source_offset_def)
    with that show ?thesis by (metis append_take_drop_id be16_parts)
  qed (use that in blast)
  define H' where "H' = (if ipv6 then H else A @ be16 (NOT (fold_sum (unat (NOT head_sum) +
    (replacement source (take ?n new_source) + replacement destination (take ?n new_destination))))))"
  let ?out = "\<lambda>c. packet_of H' (take ?n new_source) (take ?n new_destination) options (be16 sp @ be16 dp) M c rest"
  obtain c where out: "rewrite_segment ipv6 packet header new_source new_destination sp dp = Some (?out c)"
    using rewrite_segment_parts [OF ok n A] unfolding p H'_def by blast
  have ok': "parts_ok ipv6 header H' (take ?n new_source) (take ?n new_destination) options (be16 sp @ be16 dp) M"
    using ok n A by (auto simp: parts_ok_def H'_def)
  have H': "length H' = length H" "take (if ipv6 then 8 else 10) H' = take (if ipv6 then 8 else 10) H"
    using A ok by (auto simp: H'_def parts_ok_def source_offset_def)
  show ?thesis
  proof (rule that [OF out])
    show "length (?out c) = length packet" using ok ok' H' by (simp add: p packet_of_def parts_ok_def)
    show "endpoints ipv6 header (?out c) = (take ?n new_source, sp, take ?n new_destination, dp)"
      by (rule endpoints_parts [OF ok'])
    show "carried ipv6 header (?out c) = carried ipv6 header packet"
      unfolding p carried_parts [OF ok] carried_parts [OF ok'] H'(2) ..
    note sums = rewrite_keeps_sums [OF ok n out [unfolded p]]
    show "tcp_sum ipv6 header (?out c) mod 65535 = tcp_sum ipv6 header packet mod 65535" using sums(1) p by simp
    show "header_sum header (?out c) mod 65535 = header_sum header packet mod 65535" if "\<not> ipv6"
      using sums(2) [OF that] p by simp
  qed
qed

section \<open>One segment\<close>

definition is_opening :: "u8 \<Rightarrow> bool" where
  "is_opening flags \<longleftrightarrow> flags AND (kSyn OR kAck OR kRst) = kSyn"

text \<open>A segment of an unknown connection is dropped or answered by a reset.\<close>

lemma reset_segment_ok:
  assumes "room_for_segment (f_ipv6 f) header packet" and "pair_ok (f_addresses f)" and "length (k_destination key) = 16"
  obtains "reset_segment f identification packet header flags key = Some Drop"
  | sequence acknowledgement rst where "reset_segment f identification packet header flags key
      = Some (Write (reset_packet (f_ipv6 f) (ap_device (f_addresses f)) identification key sequence acknowledgement rst))"
proof -
  have len: "header + 20 \<le> length packet" "(if f_ipv6 f then 40 else 20) + 20 \<le> length packet"
      "length (ap_device (f_addresses f)) = 16"
    using assms by (auto simp: room_for_segment_def pair_ok_def split: if_splits)
  obtain s a where words: "get32 packet (header + 8) = Some s" "get32 packet (header + 4) = Some a"
    using len(1) by (simp add: get32_def)
  note reset = write_reset_eq [OF assms(3) len(3,2)]
  let ?offset = "unat (drop_bit 4 (packet ! (header + 12))) * 4"
  have b12: "byte_at packet (header + 12) = Some (packet ! (header + 12))" using len(1) by simp
  show ?thesis
  proof (cases "?offset < kTcpHeader \<or> ?offset > length packet - header")
    case True
    then show ?thesis using that(1) unfolding reset_segment_def b12 bind.bind_lunit Let_def by simp
  next
    case False
    then show ?thesis
      by (cases "flags AND kAck = 0")
         (rule that(2), unfold reset_segment_def b12 bind.bind_lunit Let_def words reset, simp)+
  qed
qed

lemma outbound_port_ok:
  assumes "family_ok limits ipv6 f" and "room_for_segment ipv6 header packet" and "length (k_destination key) = 16"
  obtains
    (reset) sequence acknowledgement rst where
      "outbound_port limits f identification packet header now flags key = Some (EndWith (Write
        (reset_packet ipv6 (ap_device (f_addresses f)) identification key sequence acknowledgement rst)), f, identification + 1)"
      "map_of (f_ports f) key = None" "\<not> is_opening flags"
  | (dropped) f' where
      "outbound_port limits f identification packet header now flags key = Some (EndWith Drop, f', identification)"
      "family_ok limits ipv6 f'" "map_of (f_ports f) key = None"
      "is_opening flags \<Longrightarrow> lim_max_connections limits \<le> length (f_entries f) \<or> 64512 \<le> length (f_entries f)"
  | (port) port e f' where
      "outbound_port limits f identification packet header now flags key = Some (UsePort port, f', identification)"
      "family_ok limits ipv6 f'" "map_of (f_entries f') port = Some e" "e_key e = key"
      "f_addresses f' = f_addresses f" "f_listener_port f' = f_listener_port f"
proof (cases "map_of (f_ports f) key")
  case (Some p)
  have inv: "inverse_tables (f_ports f) (f_entries f)" using assms(1) by (simp add: family_ok_def)
  obtain e where e: "map_of (f_entries f) p = Some e" "e_key e = key" using inverse_tablesD(1) [OF inv Some] by blast
  let ?change = "\<lambda>e :: Entry. e\<lparr>e_phase := Pending, e_expires := now + lim_pending limits\<rparr>"
  let ?f = "update_entry f p ?change"
  have f: "family_ok limits ipv6 ?f" by (rule family_ok_update [OF assms(1)]) simp
  have changed: "map_of (f_entries ?f) p = Some (?change e)" using e(1) unfolding update_entry_def by (simp add: map_of_change)
  show ?thesis
  proof (cases "is_opening flags \<and> e_phase e = Lingering")
    case True
    then have "outbound_port limits f identification packet header now flags key = Some (UsePort p, ?f, identification)"
      unfolding outbound_port_def Some option.case e(1) Let_def by (simp add: is_opening_def)
    then show ?thesis by (rule port [OF _ f changed]) (simp_all add: e(2) update_entry_def)
  next
    case False
    then have "outbound_port limits f identification packet header now flags key = Some (UsePort p, f, identification)"
      unfolding outbound_port_def Some option.case e(1) Let_def is_opening_def by (simp only: if_False)
    then show ?thesis by (rule port [OF _ assms(1) e]) simp_all
  qed
next
  case None
  show ?thesis
  proof (cases "is_opening flags")
    case True
    have keep: "family_ok limits ipv6 (snd (allocate limits f key now))" by (rule family_ok_allocate [OF assms(1) None assms(3)])
    from assms(1) None show ?thesis
    proof (cases rule: allocate_cases [where now = now])
      case (found p q)
      let ?f = "snd (allocate limits f key now)"
      have "outbound_port limits f identification packet header now flags key = Some (UsePort p, ?f, identification)"
        unfolding outbound_port_def None option.case Let_def found(1) using True by (simp add: is_opening_def)
      then show ?thesis
        by (rule port [OF _ keep, where e = "\<lparr>e_key = key, e_phase = Pending, e_expires = now + lim_pending limits\<rparr>"])
           (simp_all add: found(1))
    next
      case (full q)
      let ?f = "snd (allocate limits f key now)"
      have "outbound_port limits f identification packet header now flags key = Some (EndWith Drop, ?f, identification)"
        unfolding outbound_port_def None option.case Let_def full(1) using True by (simp add: is_opening_def)
      then show ?thesis by (rule dropped [OF _ keep None]) (rule full(3))
    qed
  next
    case False
    have plain: "outbound_port limits f identification packet header now flags key =
        (if flags AND kRst \<noteq> 0 then Some (EndWith Drop, f, identification)
         else Option.bind (reset_segment f identification packet header flags key) (\<lambda>answer.
           Some (EndWith answer, f, if answer = Drop then identification else identification + 1)))"
      unfolding outbound_port_def None option.case Let_def using False by (simp only: is_opening_def if_False)
    have drop: ?thesis if "outbound_port limits f identification packet header now flags key = Some (EndWith Drop, f, identification)"
      using that by (rule dropped [OF _ assms(1) None]) (use False in simp)
    have f: "f_ipv6 f = ipv6" "pair_ok (f_addresses f)" using assms(1) by (simp_all add: family_ok_def)
    show ?thesis
    proof (cases "flags AND kRst = 0")
      case True
      have room: "room_for_segment (f_ipv6 f) header packet" using assms(2) f(1) by simp
      show ?thesis
      proof (rule reset_segment_ok [OF room f(2) assms(3), of identification flags])
        assume "reset_segment f identification packet header flags key = Some Drop"
        then show ?thesis using True by (intro drop) (simp add: plain)
      next
        fix sequence acknowledgement rst
        assume "reset_segment f identification packet header flags key = Some (Write
          (reset_packet (f_ipv6 f) (ap_device (f_addresses f)) identification key sequence acknowledgement rst))"
        then show ?thesis using True f(1) by (intro reset [OF _ None False]) (simp add: plain)
      qed
    qed (rule drop, simp add: plain)
  qed
qed

text \<open>The segment read through its endpoints.\<close>

definition padded :: "bytes \<Rightarrow> DeviceAddress" where
  "padded d = d @ replicate (16 - length d) 0"

lemma get16_in: "at + 1 < length packet \<Longrightarrow> get16 packet at = Some (of_be16 (packet ! at) (packet ! (at + 1)))"
  by (simp add: get16_def of_be16_def)

lemma same_eq:
  assumes "at + address_bytes ipv6 \<le> length packet" and "length address = 16"
  shows "same packet at address ipv6 = Some (take (address_bytes ipv6) (drop at packet) = take (address_bytes ipv6) address)"
  using assms parts_offsets(4) [of ipv6] by (simp add: same_def)

lemma padded_eq: "length d \<le> 16 \<Longrightarrow> copy_to (replicate 16 0) 0 d = Some (padded d)"
  by (simp add: copy_to_def padded_def)

lemma translate_tcp_eq:
  assumes "room_for_segment ipv6 header packet" and "f_ipv6 f = ipv6" and "pair_ok (f_addresses f)"
    and "endpoints ipv6 header packet = (s, sp, d, dp)"
  defines "device \<equiv> ap_device (f_addresses f)" and "peer \<equiv> ap_peer (f_addresses f)"
  shows "translate_tcp limits f identification packet header now =
    (if f_listener_port f = 0 then Some (Drop, f, identification)
     else if d = take (address_bytes ipv6) peer then
       (if sp \<noteq> f_listener_port f then Some (Drop, f, identification)
        else case map_of (f_entries f) dp of
          None \<Rightarrow> Some (Drop, f, identification)
        | Some e \<Rightarrow> map_option (\<lambda>out. (Write out, f, identification))
            (rewrite_segment ipv6 packet header (k_destination (e_key e)) device (k_destination_port (e_key e))
              (k_source_port (e_key e))))
     else if d = take (address_bytes ipv6) device \<or> sp = 0 \<or> dp = 0 then Some (Drop, f, identification)
     else Option.bind (outbound_port limits f identification packet header now (packet ! (header + 13))
         \<lparr>k_source_port = sp, k_destination_port = dp, k_destination = padded d\<rparr>)
       (\<lambda>(outbound, f', identification'). case outbound of
          EndWith answer \<Rightarrow> Some (answer, f', identification')
        | UsePort port \<Rightarrow> map_option (\<lambda>out. (Write out, f', identification'))
            (rewrite_segment ipv6 packet header (ap_peer (f_addresses f')) (ap_device (f_addresses f')) port (f_listener_port f'))))"
proof -
  note room = room_offsets [OF assms(1)]
  have e: "sp = of_be16 (packet ! header) (packet ! (header + 1))"
      "dp = of_be16 (packet ! (header + 2)) (packet ! (header + 3))"
      "d = take (address_bytes ipv6) (drop (destination_offset ipv6) packet)"
    using assms(4) by (simp_all add: endpoints_def)
  have ports: "get16 packet header = Some sp" "get16 packet (header + 2) = Some dp"
    using room e by (simp_all add: get16_in eval_nat_numeral)
  have flags: "byte_at packet (header + 13) = Some (packet ! (header + 13))" using room by simp
  have addr: "same packet (destination_offset ipv6) peer ipv6 = Some (d = take (address_bytes ipv6) peer)"
      "same packet (destination_offset ipv6) device ipv6 = Some (d = take (address_bytes ipv6) device)"
    using room assms(3) unfolding e(3) by (auto simp: pair_ok_def peer_def device_def intro!: same_eq)
  have sub: "subspan packet (destination_offset ipv6) (address_bytes ipv6) = Some d" using room e(3) by simp
  have d: "length d \<le> 16" using e(3) parts_offsets(4) [of ipv6] by simp
  have long: "\<not> length packet - header < kTcpHeader" using room unfolding kTcpHeader_def by linarith
  show ?thesis
    unfolding translate_tcp_def Let_def assms(2) ports bind.bind_lunit flags device_def [symmetric] peer_def [symmetric]
      addr sub padded_eq [OF d]
    using long by (auto simp: map_option_case map_conv_bind_option split: option.splits Outbound.splits intro!: bind_option_cong)
qed

section \<open>One packet\<close>

text \<open>
  An IP packet of a family that carries a protocol: the size of its IP header, and the part of it
  that its length field covers.
\<close>

definition ip_version :: "bytes \<Rightarrow> u8" where
  "ip_version packet = drop_bit 4 (packet ! 0)"

definition ip_frame :: "bytes \<Rightarrow> (bool \<times> nat \<times> u8 \<times> bytes) option" where
  "ip_frame packet =
     (if packet = [] \<or> ip_version packet \<noteq> 4 \<and> ip_version packet \<noteq> 6 then None
      else let ipv6 = (ip_version packet = 6) in
        case ip_header ipv6 packet of
          Some (Some (header, whole, protocol)) \<Rightarrow>
            if (if ipv6 then 40 else 20) \<le> header \<and> header \<le> whole \<and> whole \<le> length packet
            then Some (ipv6, header, protocol, take whole packet) else None
        | _ \<Rightarrow> None)"

lemma ip_header_total: "packet \<noteq> [] \<Longrightarrow> ip_header ipv6 packet \<noteq> None"
  by (auto simp: ip_header_def kIpv4Header_def kIpv6Header_def get16_in)

lemma ip_frame_Some:
  assumes "ip_frame packet = Some (ipv6, header, protocol, body)"
  shows "packet \<noteq> []" and "ip_version packet = (if ipv6 then 6 else 4)"
    and "ip_header ipv6 packet = Some (Some (header, length body, protocol))" and "body = take (length body) packet"
    and "(if ipv6 then 40 else 20) \<le> header" and "header \<le> length body"
  using assms by (auto simp: ip_frame_def Let_def min_def split: if_splits option.splits prod.splits)

text \<open>\<^verbatim>\<open>translate\<close> on frames: anything else is dropped and changes nothing.\<close>

lemma translate_frame:
  assumes "nat_ok n"
  shows "translate n packet now =
    (case ip_frame packet of
       None \<Rightarrow> Some (Drop, n)
     | Some (ipv6, header, protocol, body) \<Rightarrow>
         (case family n ipv6 of
            None \<Rightarrow> Some (Drop, n)
          | Some f \<Rightarrow>
              if take (address_bytes ipv6) (drop (source_offset ipv6) body) \<noteq> take (address_bytes ipv6) (ap_device (f_addresses f))
              then Some (Drop, n)
              else if protocol = kTcp
              then map_option (\<lambda>(answer, f', identification). (answer, (set_family n ipv6 f')\<lparr>dn_next_identification := identification\<rparr>))
                (translate_tcp (dn_limits n) f (dn_next_identification n) body header now)
              else map_option (\<lambda>answer. (answer, n)) (translate_udp f body header protocol)))"
proof (cases "ip_frame packet")
  case None
  show ?thesis
  proof (cases "packet = [] \<or> ip_version packet \<noteq> 4 \<and> ip_version packet \<noteq> 6")
    case True
    then show ?thesis using None
      by (cases packet) (auto simp: translate_def ip_version_def Let_def split: option.splits)
  next
    case False
    then show ?thesis
      using None ip_header_total [of packet "ip_version packet = 6"]
      by (auto simp: translate_def ip_frame_def ip_version_def kIpv4Header_def kIpv6Header_def Let_def
          split: option.splits if_splits prod.splits)
  qed
next
  case (Some frame)
  obtain ipv6 header protocol body where frame: "frame = (ipv6, header, protocol, body)" by (cases frame)
  note F = ip_frame_Some [OF Some [unfolded frame]]
  show ?thesis
  proof (cases "family n ipv6")
    case None
    with Some F(1,2) show ?thesis by (auto simp: translate_def frame ip_version_def Let_def split: if_splits)
  next
    case (Some f)
    have "length (ap_device (f_addresses f)) = 16"
      using assms Some by (auto simp: nat_ok_def family_ok_def pair_ok_def)
    moreover have "source_offset ipv6 + address_bytes ipv6 \<le> length body"
      using F(5,6) by (simp add: source_offset_def address_bytes_def split: if_splits)
    ultimately have ours: "same body (source_offset ipv6) (ap_device (f_addresses f)) ipv6 =
        Some (take (address_bytes ipv6) (drop (source_offset ipv6) body) = take (address_bytes ipv6) (ap_device (f_addresses f)))"
      by (intro same_eq)
    have b0: "byte_at packet 0 = Some (packet ! 0)" using F(1) by simp
    have version: "drop_bit 4 (packet ! 0) = (if ipv6 then 6 else 4)" using F(2) by (simp add: ip_version_def)
    have six: "((if ipv6 then 6 else 4) = (6 :: u8)) = ipv6" by simp
    have sizes: "\<not> (header < (if ipv6 then kIpv6Header else kIpv4Header) \<or> length body < header \<or> length packet < length body)"
      using F(4-6) by (auto simp: kIpv4Header_def kIpv6Header_def split: if_splits)
    show ?thesis
      unfolding translate_def b0 bind.bind_lunit Let_def version six Some option.case F(3) prod.case if_not_P [OF sizes]
        F(4) [symmetric] ours \<open>ip_frame packet = Some frame\<close> frame
      using F(1) by (auto simp: map_option_case map_conv_bind_option split: option.splits)
  qed
qed

end
