(* ===== verification/Nat_Bridge.thy ===== *)
theory Nat_Bridge
  imports Nat_Translation
begin

text \<open>
  The device bridge as a whole: its operations as steps, the states they reach, and what holds of
  every packet and every connection in them.
\<close>

section \<open>Every packet has an answer\<close>

lemma family_set_family [simp]:
  "family (set_family n ipv6 f) v = (if v = ipv6 then Some f else family n v)"
  by (auto simp: family_def set_family_def)

lemma family_identification [simp]: "family (n\<lparr>dn_next_identification := i\<rparr>) v = family n v"
  by (simp add: family_def)

lemma limits_set_family [simp]: "dn_limits (set_family n ipv6 f) = dn_limits n"
  by (simp add: set_family_def)

lemma nat_ok_set_family:
  assumes "nat_ok n" and "family_ok (dn_limits n) ipv6 f"
  shows "nat_ok (set_family n ipv6 f)" and "nat_ok ((set_family n ipv6 f)\<lparr>dn_next_identification := i\<rparr>)"
  using assms by (auto simp: nat_ok_def)

text \<open>A UDP datagram read through its endpoints and its length field.\<close>

definition udp_length :: "nat \<Rightarrow> bytes \<Rightarrow> nat" where
  "udp_length header body = unat (of_be16 (body ! (header + 4)) (body ! (header + 5)))"

lemma translate_udp_eq:
  assumes "(if f_ipv6 f then 40 else 20) \<le> header" and "header \<le> length body" and "pair_ok (f_addresses f)"
    and "f_ipv6 f = ipv6" and "endpoints ipv6 header body = (s, sp, d, dp)"
  defines "n \<equiv> udp_length header body"
  shows "translate_udp f body header protocol = Some
    (if protocol \<noteq> kUdp \<or> length body < header + 8 \<or> n \<le> 8 \<or> length body < header + n \<or> sp = 0 \<or> dp = 0 \<or>
        d = take (address_bytes ipv6) (ap_peer (f_addresses f)) \<or> d = take (address_bytes ipv6) (ap_device (f_addresses f))
     then Drop
     else Datagram \<lparr>dg_ipv6 = ipv6, dg_source_port = sp, dg_destination = padded d, dg_destination_port = dp,
       dg_payload = take (n - 8) (drop (header + 8) body)\<rparr>)"
proof (cases "protocol \<noteq> kUdp \<or> length body < header + 8")
  case True
  with assms(2) show ?thesis by (auto simp: translate_udp_def Let_def kUdpHeader_def)
next
  case False
  have room: "destination_offset ipv6 + address_bytes ipv6 \<le> length body" "header + 8 \<le> length body"
    using assms(1,2,4) False by (auto simp: destination_offset_def address_bytes_def split: if_splits)
  have e: "sp = of_be16 (body ! header) (body ! (header + 1))" "dp = of_be16 (body ! (header + 2)) (body ! (header + 3))"
      "d = take (address_bytes ipv6) (drop (destination_offset ipv6) body)"
    using assms(5) by (simp_all add: endpoints_def)
  have words: "get16 body header = Some sp" "get16 body (header + 2) = Some dp"
      "get16 body (header + 4) = Some (of_be16 (body ! (header + 4)) (body ! (header + 5)))"
    using room e by (simp_all add: get16_in eval_nat_numeral)
  have addr: "same body (destination_offset ipv6) (ap_peer (f_addresses f)) ipv6 = Some (d = take (address_bytes ipv6) (ap_peer (f_addresses f)))"
      "same body (destination_offset ipv6) (ap_device (f_addresses f)) ipv6 = Some (d = take (address_bytes ipv6) (ap_device (f_addresses f)))"
    using room(1) assms(3) unfolding e(3) by (auto simp: pair_ok_def intro!: same_eq)
  have sub: "subspan body (destination_offset ipv6) (address_bytes ipv6) = Some d" using room(1) e(3) by simp
  have pad: "copy_to (replicate 16 0) 0 d = Some (padded d)"
    using parts_offsets(4) [of ipv6] e(3) by (intro padded_eq) simp
  have long: "\<not> (protocol \<noteq> kUdp \<or> length body - header < kUdpHeader)"
    using False unfolding kUdpHeader_def by linarith
  have over: "n > length body - header \<longleftrightarrow> length body < header + n" using room(2) by linarith
  show ?thesis
  proof (cases "n \<le> 8 \<or> length body < header + n")
    case True
    then show ?thesis
      unfolding translate_udp_def Let_def assms(4) if_not_P [OF long] words addr sub bind.bind_lunit
        udp_length_def [symmetric] n_def [symmetric] over by (auto simp: kUdpHeader_def)
  next
    case fits: False
    then have payload: "subspan body (header + kUdpHeader) (n - kUdpHeader) = Some (take (n - 8) (drop (header + 8) body))"
      by (simp add: kUdpHeader_def)
    show ?thesis
      unfolding translate_udp_def Let_def assms(4) if_not_P [OF long] words addr sub bind.bind_lunit
        udp_length_def [symmetric] n_def [symmetric] over pad payload
      using fits False by (auto simp: kUdpHeader_def)
  qed
qed

lemma translate_tcp_cases:
  assumes "family_ok limits ipv6 f" and "(if ipv6 then 40 else 20) \<le> header" and "header \<le> length body"
  obtains
    (dropped) f' where "translate_tcp limits f identification body header now = Some (Drop, f', identification)"
      "family_ok limits ipv6 f'"
  | (reset) key sequence acknowledgement rst where "translate_tcp limits f identification body header now = Some
        (Write (reset_packet ipv6 (ap_device (f_addresses f)) identification key sequence acknowledgement rst), f, identification + 1)"
      "length (k_destination key) = 16" "room_for_segment ipv6 header body"
  | (rewritten) out f' where "translate_tcp limits f identification body header now = Some (Write out, f', identification)"
      "family_ok limits ipv6 f'" "room_for_segment ipv6 header body" "length out = length body"
      "carried ipv6 header out = carried ipv6 header body"
      "tcp_sum ipv6 header out mod 65535 = tcp_sum ipv6 header body mod 65535"
      "\<not> ipv6 \<Longrightarrow> header_sum header out mod 65535 = header_sum header body mod 65535"
proof (cases "room_for_segment ipv6 header body")
  case False
  then have "length body - header < kTcpHeader" using assms(2,3) by (auto simp: room_for_segment_def kTcpHeader_def)
  then have "translate_tcp limits f identification body header now = Some (Drop, f, identification)"
    by (simp add: translate_tcp_def Let_def)
  then show ?thesis using assms(1) by (rule dropped)
next
  case True
  note by_reset = reset and by_drop = dropped
  have f: "f_ipv6 f = ipv6" "pair_ok (f_addresses f)" using assms(1) by (simp_all add: family_ok_def)
  obtain s sp d dp where ends: "endpoints ipv6 header body = (s, sp, d, dp)" by (metis prod_cases4)
  have d: "length (padded d) = 16" using ends parts_offsets(4) [of ipv6] by (auto simp: endpoints_def padded_def)
  note eq = translate_tcp_eq [OF True f ends, of limits identification now]
  have drop: ?thesis if "translate_tcp limits f identification body header now = Some (Drop, f, identification)"
    using that assms(1) by (rule dropped)
  have rewrite: ?thesis if tcp: "translate_tcp limits f identification body header now
        = map_option (\<lambda>out. (Write out, f', identification)) (rewrite_segment ipv6 body header ns nd a b)"
      "family_ok limits ipv6 f'" "length ns = 16" "length nd = 16" for f' ns nd a b
  proof (rule rewrite_segment_ok [OF True that(3,4), of a b])
    fix out
    assume out: "rewrite_segment ipv6 body header ns nd a b = Some out"
    show ?thesis if "length out = length body" "carried ipv6 header out = carried ipv6 header body"
        "tcp_sum ipv6 header out mod 65535 = tcp_sum ipv6 header body mod 65535"
        "\<not> ipv6 \<Longrightarrow> header_sum header out mod 65535 = header_sum header body mod 65535"
      by (rule rewritten [of out f']) (use that \<open>family_ok limits ipv6 f'\<close> True out in \<open>simp_all add: tcp\<close>)
  qed
  consider (off) "f_listener_port f = 0" | (peer) "f_listener_port f \<noteq> 0" "d = take (address_bytes ipv6) (ap_peer (f_addresses f))"
    | (refused) "f_listener_port f \<noteq> 0" "d \<noteq> take (address_bytes ipv6) (ap_peer (f_addresses f))"
        "d = take (address_bytes ipv6) (ap_device (f_addresses f)) \<or> sp = 0 \<or> dp = 0"
    | (out) "f_listener_port f \<noteq> 0" "d \<noteq> take (address_bytes ipv6) (ap_peer (f_addresses f))"
        "\<not> (d = take (address_bytes ipv6) (ap_device (f_addresses f)) \<or> sp = 0 \<or> dp = 0)" by blast
  then show ?thesis
  proof cases
    case off
    with eq show ?thesis by (intro drop) simp
  next
    case peer
    show ?thesis
    proof (cases "sp = f_listener_port f \<and> map_of (f_entries f) dp \<noteq> None")
      case False
      with eq peer show ?thesis by (intro drop) (auto split: option.splits)
    next
      case True
      then obtain e where e: "sp = f_listener_port f" "map_of (f_entries f) dp = Some e" by blast
      with assms(1) map_of_SomeD [OF e(2)] have key: "length (k_destination (e_key e)) = 16"
        by (auto simp: family_ok_def list_all_iff entry_ok_def)
      have "translate_tcp limits f identification body header now = map_option (\<lambda>out. (Write out, f, identification))
          (rewrite_segment ipv6 body header (k_destination (e_key e)) (ap_device (f_addresses f)) (k_destination_port (e_key e))
            (k_source_port (e_key e)))"
        using eq peer e by simp
      then show ?thesis by (rule rewrite [OF _ assms(1) key]) (use f(2) in \<open>simp add: pair_ok_def\<close>)
    qed
  next
    case refused
    with eq show ?thesis by (intro drop) simp
  next
    case out
    let ?key = "\<lparr>k_source_port = sp, k_destination_port = dp, k_destination = padded d\<rparr>"
    have key: "length (k_destination ?key) = 16" using d by simp
    from assms(1) True key show ?thesis
    proof (cases rule: outbound_port_ok [where identification = identification and now = now and flags = "body ! (header + 13)"])
      case (reset sequence acknowledgement rst)
      with eq out show ?thesis by (intro by_reset [OF _ key True]) simp
    next
      case (dropped f')
      with eq out show ?thesis by (intro by_drop [of f']) simp_all
    next
      case (port p e f')
      then have "translate_tcp limits f identification body header now = map_option (\<lambda>out. (Write out, f', identification))
          (rewrite_segment ipv6 body header (ap_peer (f_addresses f')) (ap_device (f_addresses f')) p (f_listener_port f'))"
        using eq out by simp
      then show ?thesis by (rule rewrite [OF _ port(2)]) (use port(2) in \<open>simp_all add: family_ok_def pair_ok_def\<close>)
    qed
  qed
qed

section \<open>Steps\<close>

text \<open>One call of an operation. An address is an array of sixteen bytes.\<close>

datatype NatCall =
    Listen u16 u16
  | Packet bytes int
  | Accept bool u16
  | Release bool u16 int
  | Sweep int
  | Reply bool DeviceAddress u16 u16 bytes nat bytes

inductive nat_step :: "DeviceNat \<Rightarrow> NatCall \<Rightarrow> DeviceNat \<Rightarrow> bool" where
  listen: "nat_step n (Listen a b) (set_listener_ports n a b)"
| packet: "translate n p now = Some (answer, n') \<Longrightarrow> nat_step n (Packet p now) n'"
| accept: "accept n ipv6 port = (origin, n') \<Longrightarrow> nat_step n (Accept ipv6 port) n'"
| release: "nat_step n (Release ipv6 port now) (release n ipv6 port now)"
| sweep: "nat_step n (Sweep now) (sweep n now)"
| reply: "length source = 16 \<Longrightarrow> build_reply n ipv6 source sp dp payload mtu out = Some (written, out', n') \<Longrightarrow>
    nat_step n (Reply ipv6 source sp dp payload mtu out) n'"

inductive nat_run :: "DeviceNat \<Rightarrow> NatCall list \<Rightarrow> DeviceNat \<Rightarrow> bool" where
  stay: "nat_run n [] n"
| go: "nat_step n call m \<Longrightarrow> nat_run m calls n' \<Longrightarrow> nat_run n (call # calls) n'"

inductive nat_reachable :: "DeviceNat \<Rightarrow> bool" where
  start: "list_all pair_ok (map the (filter (\<lambda>p. p \<noteq> None) [ipv4, ipv6])) \<Longrightarrow> nat_reachable (new_DeviceNat ipv4 ipv6 limits)"
| step: "nat_reachable n \<Longrightarrow> nat_step n call n' \<Longrightarrow> nat_reachable n'"

inductive_simps nat_run_simps: "nat_run n [] n'" "nat_run n (call # calls) n'"

lemma nat_ok_new:
  assumes "list_all pair_ok (map the (filter (\<lambda>p. p \<noteq> None) [ipv4, ipv6]))"
  shows "nat_ok (new_DeviceNat ipv4 ipv6 limits)"
  using assms
  by (auto simp: nat_ok_def family_def new_DeviceNat_def family_ok_def inverse_tables_Nil Let_def split: if_splits)

lemma translate_total:
  assumes "nat_ok n"
  obtains answer n' where "translate n packet now = Some (answer, n')" and "nat_ok n'" and "dn_limits n' = dn_limits n"
proof -
  have "\<exists>answer n'. translate n packet now = Some (answer, n') \<and> nat_ok n' \<and> dn_limits n' = dn_limits n"
  proof (cases "ip_frame packet")
    case None
    then show ?thesis unfolding translate_frame [OF assms] using assms by simp
  next
    case (Some frame)
    obtain ipv6 header protocol body where frame: "frame = (ipv6, header, protocol, body)" by (cases frame)
    note F = ip_frame_Some [OF Some [unfolded frame]]
    show ?thesis
    proof (cases "family n ipv6")
      case None
      then show ?thesis unfolding translate_frame [OF assms] Some frame using assms by simp
    next
      case f: (Some f)
      then have ok: "family_ok (dn_limits n) ipv6 f" using assms by (simp add: nat_ok_def)
      note keep = nat_ok_set_family [OF assms]
      obtain answer f' i where tcp: "translate_tcp (dn_limits n) f (dn_next_identification n) body header now = Some (answer, f', i)"
          "family_ok (dn_limits n) ipv6 f'"
        by (rule translate_tcp_cases [OF ok F(5,6), of "dn_next_identification n" now]) (use ok in auto)
      have g: "f_ipv6 f = ipv6" "pair_ok (f_addresses f)" using ok by (simp_all add: family_ok_def)
      obtain s sp d dp where ends: "endpoints ipv6 header body = (s, sp, d, dp)" by (metis prod_cases4)
      obtain answer' where udp: "translate_udp f body header protocol = Some answer'"
        using translate_udp_eq [OF F(5) [folded g(1)] F(6) g(2,1) ends] by blast
      show ?thesis
        unfolding translate_frame [OF assms] Some frame f option.case prod.case tcp(1) udp
        using keep(2) [OF tcp(2)] assms by simp
    qed
  qed
  then show ?thesis using that by blast
qed

lemma build_reply_total:
  assumes "nat_ok n" and "length source = 16"
  obtains written out' n' where "build_reply n ipv6 source sp dp payload mtu out = Some (written, out', n')"
    and "n' = n \<or> n' = n\<lparr>dn_next_identification := dn_next_identification n + 1\<rparr>"
proof (cases "family n ipv6")
  case None
  then show ?thesis using that by (simp add: build_reply_def Let_def)
next
  case (Some f)
  then have "length (ap_device (f_addresses f)) = 16" using assms(1) by (auto simp: nat_ok_def family_ok_def pair_ok_def)
  from build_reply_eq [OF Some assms(2) this] show ?thesis using that by (metis (no_types, lifting))
qed

lemma nat_ok_update:
  assumes "nat_ok n" and "family n ipv6 = Some f" and "\<And>e. e_key (change e) = e_key e"
  shows "nat_ok (set_family n ipv6 (update_entry f port change))"
  using assms by (intro nat_ok_set_family family_ok_update) (simp_all add: nat_ok_def)

lemma nat_ok_accept: "nat_ok n \<Longrightarrow> nat_ok (snd (accept n ipv6 port))"
  by (simp add: accept_def nat_ok_update split: option.split)

lemma nat_ok_release: "nat_ok n \<Longrightarrow> nat_ok (release n ipv6 port now)"
  by (simp add: release_def nat_ok_update split: option.split)

lemma family_listen:
  "family (set_listener_ports n a b) v = map_option (\<lambda>f. f\<lparr>f_listener_port := if v then b else a\<rparr>) (family n v)"
  by (simp add: family_def set_listener_ports_def)

lemma nat_ok_listen: "nat_ok n \<Longrightarrow> nat_ok (set_listener_ports n a b)"
proof -
  assume "nat_ok n"
  moreover have "dn_limits (set_listener_ports n a b) = dn_limits n" by (simp add: set_listener_ports_def)
  moreover have "family_ok l v (f\<lparr>f_listener_port := p\<rparr>) = family_ok l v f" for l v f p by (simp add: family_ok_def)
  ultimately show ?thesis by (auto simp: nat_ok_def family_listen)
qed

lemma family_sweep: "family (sweep n now) v = map_option (sweep_family now) (family n v)"
  by (simp add: family_def sweep_def)

lemma nat_ok_sweep: "nat_ok n \<Longrightarrow> nat_ok (sweep n now)"
  using family_ok_sweep by (auto simp: nat_ok_def family_sweep) (simp add: sweep_def)

lemma nat_ok_step:
  assumes "nat_ok n" and "nat_step n call n'"
  shows "nat_ok n'"
  using assms(2)
proof cases
  case (listen a b)
  with nat_ok_listen [OF assms(1)] show ?thesis by simp
next
  case (packet p now answer)
  obtain answer' m where "translate n p now = Some (answer', m)" "nat_ok m" by (rule translate_total [OF assms(1)])
  with packet show ?thesis by simp
next
  case (accept ipv6 port origin)
  with nat_ok_accept [OF assms(1), of ipv6 port] show ?thesis by simp
next
  case (release ipv6 port now)
  with nat_ok_release [OF assms(1)] show ?thesis by simp
next
  case (sweep now)
  with nat_ok_sweep [OF assms(1)] show ?thesis by simp
next
  case (reply source ipv6 sp dp payload mtu out written out')
  obtain w o' m where "build_reply n ipv6 source sp dp payload mtu out = Some (w, o', m)"
      "m = n \<or> m = n\<lparr>dn_next_identification := dn_next_identification n + 1\<rparr>"
    by (rule build_reply_total [OF assms(1) reply(2)])
  with reply have "n' = n \<or> n' = n\<lparr>dn_next_identification := dn_next_identification n + 1\<rparr>" by simp
  with assms(1) show ?thesis by (elim disjE) (simp_all add: nat_ok_def)
qed

lemma nat_reachable_ok: "nat_reachable n \<Longrightarrow> nat_ok n"
  by (induction rule: nat_reachable.induct) (auto intro: nat_ok_new nat_ok_step)

end
