(* ===== verification/Nat_Properties.thy ===== *)
theory Nat_Properties
  imports Nat_Bridge
begin

text \<open>
  What the device bridge guarantees: valid packets, a way back for every forwarded segment, ports
  that accepted connections keep, and replies that carry their payload.
\<close>

section \<open>Valid packets\<close>

text \<open>
  The pseudo-header that a transport checksum covers (RFC 793 and RFC 768 for IPv4, RFC 8200 section
  8.1 for IPv6), written out byte by byte.
\<close>

definition pseudo_header :: "bool \<Rightarrow> bytes \<Rightarrow> bytes \<Rightarrow> u8 \<Rightarrow> nat \<Rightarrow> bytes" where
  "pseudo_header ipv6 source destination protocol n =
     source @ destination @
     (if ipv6 then be32 (of_nat n) @ [0, 0, 0, protocol] else [0, protocol] @ be16 (of_nat n))"

text \<open>
  A frame of the protocol that a receiver accepts: the 16-bit words of the pseudo-header and the
  transport part, and for IPv4 also those of the IP header, add up to zero in one's complement.
\<close>

definition valid_packet :: "u8 \<Rightarrow> bytes \<Rightarrow> bool" where
  "valid_packet protocol packet \<longleftrightarrow>
     (case ip_frame packet of
        None \<Rightarrow> False
      | Some (ipv6, header, p, body) \<Rightarrow> p = protocol \<and>
          sum_words (pseudo_header ipv6 (take (address_bytes ipv6) (drop (source_offset ipv6) body))
            (take (address_bytes ipv6) (drop (destination_offset ipv6) body)) protocol (length body - header) @
            drop header body) mod 65535 = 0 \<and>
          (\<not> ipv6 \<longrightarrow> sum_words (take header body) mod 65535 = 0))"

lemma be32_small:
  assumes "n < 65536"
  shows "be32 (of_nat n) = [0, 0] @ be16 (of_nat n)"
proof -
  have n: "unat (of_nat n :: u32) = n" "unat (of_nat n :: u16) = n" using assms by (simp_all add: unat_of_nat)
  have same: "ucast (drop_bit k (of_nat n :: u32)) = (ucast (drop_bit k (of_nat n :: u16)) :: u8)" for k
  proof -
    have "take_bit 32 n = n" "take_bit 16 n = n" using assms by (simp_all add: take_bit_nat_eq_self)
    then show ?thesis by (simp add: word_unat_eq_iff unsigned_ucast_eq unsigned_drop_bit_eq unsigned_of_nat)
  qed
  note same [of 0] same [of 8]
  moreover have "drop_bit 16 (of_nat n :: u32) = 0" "drop_bit 24 (of_nat n :: u32) = 0"
    using assms by (simp_all only: word_unat_eq_iff unat_drop_bit_eq n(1)) (simp_all add: drop_bit_eq_div)
  ultimately show ?thesis by (simp add: be32_def be16_def)
qed

lemma sum_pseudo_header:
  assumes "n < 65536" and "length source = address_bytes ipv6" and "length destination = address_bytes ipv6"
  shows "sum_words (pseudo_header ipv6 source destination protocol n @ segment)
    = sum_words source + sum_words destination + unat protocol + n + sum_words segment"
proof -
  have "unat (of_nat n :: u16) = n" using assms(1) by (simp add: unat_of_nat)
  moreover have "unat (of_be16 0 protocol) = unat protocol" 
    by (simp add: of_be16_def unsigned_ucast_eq take_bit_nat_eq_self less_trans [OF unsigned_less [of protocol]])
  moreover have "even (length source)" "even (length destination)" using assms(2,3) by (simp_all add: address_bytes_def)
  ultimately show ?thesis
    by (simp add: pseudo_header_def be32_small [OF assms(1)] sum_words_append of_be16_def)
qed

lemma kTcp_nonzero: "kTcp \<noteq> 0" and kUdp_nonzero: "kUdp \<noteq> 0"
  by (simp_all add: kTcp_def kUdp_def)

lemma of_be16_positive: "b0 \<noteq> 0 \<Longrightarrow> 0 < unat (of_be16 b0 b1)"
  using be16_of_be16 [of b0 b1] by (cases "of_be16 b0 b1 = 0") (auto simp: be16_def unat_gt_0)

lemma valid_packet_eq:
  assumes "protocol \<noteq> 0"
  shows "valid_packet protocol packet \<longleftrightarrow>
     (case ip_frame packet of
        None \<Rightarrow> False
      | Some (ipv6, header, p, body) \<Rightarrow> p = protocol \<and> checksums_ok ipv6 protocol header body)"
proof (cases "ip_frame packet")
  case (Some frame)
  obtain ipv6 header p body where frame: "ip_frame packet = Some (ipv6, header, p, body)" using Some by (cases frame) simp
  note F = ip_frame_Some [OF frame]
  have "length body - header < 65536"
  proof -
    obtain w :: u16 where "unat w = length body \<or> header = 40 \<and> 40 + unat w = length body"
      using F(3) by (cases ipv6) (auto simp: ip_header_def kIpv6Header_def Option.bind_eq_Some_conv split: if_splits)
    then have "length body - header \<le> unat w" by auto
    also have "\<dots> < 65536" using unsigned_less [of w] by simp
    finally show ?thesis .
  qed
  moreover have "length (take (address_bytes ipv6) (drop (source_offset ipv6) body)) = address_bytes ipv6"
      "length (take (address_bytes ipv6) (drop (destination_offset ipv6) body)) = address_bytes ipv6"
    using F(5,6) by (auto simp: address_bytes_def source_offset_def destination_offset_def split: if_splits)
  ultimately have transport: "sum_words (pseudo_header ipv6 (take (address_bytes ipv6) (drop (source_offset ipv6) body))
      (take (address_bytes ipv6) (drop (destination_offset ipv6) body)) protocol (length body - header) @ drop header body)
      = transport_sum ipv6 protocol header body"
    by (simp add: sum_pseudo_header transport_sum_def pseudo_sum_def)
  have "0 < transport_sum ipv6 protocol header body"
    using assms by (simp add: transport_sum_def pseudo_sum_def unat_gt_0)
  moreover have "0 < header_sum header body" if "\<not> ipv6"
  proof -
    have long: "20 \<le> header" "header \<le> length body" using F(5,6) that by simp_all
    then have "0 < length body" by linarith
    from trans [OF arg_cong [OF F(4), of "\<lambda>x. x ! 0"] nth_take [OF this]] have first: "body ! 0 = packet ! 0" .
    obtain b0 b1 rest where "body = b0 # b1 # rest"
      using long by (cases body; cases "tl body") auto
    then have "take header body = b0 # b1 # take (header - 2) rest" "b0 = body ! 0"
      using long by (simp_all add: take_Cons' numeral_2_eq_2)
    moreover have "body ! 0 \<noteq> 0" using F(2) that unfolding first by (auto simp: ip_version_def)
    ultimately show ?thesis using of_be16_positive [of b0 b1] by (simp add: header_sum_def)
  qed
  ultimately show ?thesis
    unfolding valid_packet_def frame option.case prod.case transport checksums_ok_def fold_sum_ones
    by (auto simp: header_sum_def)
qed (simp add: valid_packet_def)

lemma nth_prefix: "take k a = take k b \<Longrightarrow> i < k \<Longrightarrow> a ! i = (b ! i :: u8)"
  by (metis nth_take)

lemma ip_header_prefix:
  assumes "take (if ipv6 then 8 else 10) a = take (if ipv6 then 8 else 10) b"
    and "(if ipv6 then 40 else 20) \<le> length a" and "(if ipv6 then 40 else 20) \<le> length b"
  shows "ip_header ipv6 a = ip_header ipv6 b"
proof (cases ipv6)
  case True
  then have "take 8 a = take 8 b" using assms(1) by simp
  from nth_prefix [OF this] show ?thesis
    using assms(2,3) True by (simp add: ip_header_def get16_in kIpv6Header_def)
next
  case False
  then have "take 10 a = take 10 b" using assms(1) by simp
  moreover have "byte_at a 0 = Some (a ! 0)" "byte_at b 0 = Some (b ! 0)" "byte_at a 9 = Some (a ! 9)" "byte_at b 9 = Some (b ! 9)"
    using assms(2,3) False by auto
  ultimately show ?thesis
    using assms(2,3) False nth_prefix [of 10 a b] by (simp add: ip_header_def get16_in kIpv4Header_def)
qed

text \<open>A packet with the first bytes of a frame and its length is a frame with the same header.\<close>

lemma ip_frame_prefix:
  assumes "ip_frame packet = Some (ipv6, header, protocol, body)" and "length out = length body"
    and "take (if ipv6 then 8 else 10) out = take (if ipv6 then 8 else 10) body"
  shows "ip_frame out = Some (ipv6, header, protocol, out)"
proof -
  note F = ip_frame_Some [OF assms(1)]
  have long: "(if ipv6 then 40 else 20) \<le> length body" using F(5,6) by linarith
  have le: "length body \<le> length packet" using F(4) by (metis length_take min.cobounded1)
  have pre: "take k body = take k packet" if "k \<le> length body" for k
    using F(4) that by (metis min.absorb1 take_take)
  have prefix: "take (if ipv6 then 8 else 10) out = take (if ipv6 then 8 else 10) packet"
    using assms(3) pre [of "if ipv6 then 8 else 10"] long by (simp split: if_splits)
  then have "ip_header ipv6 out = ip_header ipv6 packet"
    by (rule ip_header_prefix) (use long le assms(2) in \<open>auto split: if_splits\<close>)
  moreover have "out ! 0 = packet ! 0" using nth_prefix [OF prefix, of 0] by (simp split: if_splits)
  moreover have "out \<noteq> []" using long assms(2) by (auto split: if_splits)
  ultimately show ?thesis
    using F(2,3,5,6) assms(2) by (auto simp: ip_frame_def ip_version_def Let_def)
qed

text \<open>The packets the bridge builds itself are frames.\<close>

lemma ip_frame_own:
  fixes protocol :: u8 and identification :: u16
  assumes "length source = 16" and "length destination = 16" and "length segment = body"
    and "(if ipv6 then body else 20 + body) < 65536"
  defines "p \<equiv> own_header ipv6 protocol body source destination identification @ segment"
  shows "ip_frame p = Some (ipv6, if ipv6 then 40 else 20, protocol, p)"
proof (cases ipv6)
  case True
  have "p = [96, 0, 0, 0] @ be16 (of_nat body) @ [protocol, 64] @ take 16 source @ take 16 destination @ segment"
    using True by (simp add: p_def own_header_def ipv6_header_def)
  moreover have "unat (of_nat body :: u16) = body" using True assms(4) by (simp add: unat_of_nat)
  ultimately show ?thesis
    using True assms(1-3) by (simp add: ip_frame_def ip_version_def ip_header_def kIpv6Header_def Let_def be16_def get16_in)
next
  case False
  let ?c = "finish (sum_words (ipv4_header protocol body source destination identification 0))"
  have word: "of_be16 64 0 AND 16383 = 0" "of_be16 64 0 = 16384" by (simp_all add: of_be16_def)
  then have "be16 16384 = [64, 0]" using be16_eq_list by metis
  then have "p = [69, 0] @ be16 (of_nat (20 + body)) @ be16 identification @ [64, 0, 64, protocol] @
      be16 ?c @ take 4 source @ take 4 destination @ segment"
    using False by (simp add: p_def own_header_def ipv4_header_def)
  moreover have "unat (of_nat (20 + body) :: u16) = 20 + body" using False assms(4) unfolding unat_of_nat by simp
  ultimately show ?thesis
    using False assms(1-3) word(1) by (simp add: ip_frame_def ip_version_def ip_header_def kIpv4Header_def Let_def be16_def get16_in)
qed

lemma reset_packet_valid:
  assumes "length (k_destination key) = 16" and "length device = 16"
  shows "valid_packet kTcp (reset_packet ipv6 device identification key sequence acknowledgement flags)"
    and "length (reset_packet ipv6 device identification key sequence acknowledgement flags) = (if ipv6 then 60 else 40)"
proof -
  let ?p = "reset_packet ipv6 device identification key sequence acknowledgement flags"
  have "ip_frame ?p = Some (ipv6, if ipv6 then 40 else 20, kTcp, ?p)"
    unfolding reset_packet_def by (rule ip_frame_own [OF assms]) simp_all
  then show "valid_packet kTcp ?p"
    using reset_packet_checksums [OF assms] by (simp add: valid_packet_eq checksums_ok_def kTcp_def)
  show "length ?p = (if ipv6 then 60 else 40)"
    by (simp add: reset_packet_def length_own_header [OF assms])
qed

text \<open>C5: Every packet that the bridge writes back to the device, in every reachable state and for
  every packet it is given with valid IPv4 header and TCP checksums, has valid checksums again, a
  consistent length field, and fits the storage of the packet it answers.\<close>

theorem translated_packets_valid:
  assumes "nat_reachable n" and "translate n packet now = Some (Write out, n')" and "valid_packet kTcp packet"
  shows "valid_packet kTcp out \<and> length out \<le> length packet"
proof -
  have ok: "nat_ok n" by (rule nat_reachable_ok [OF assms(1)])
  obtain ipv6 header body where frame: "ip_frame packet = Some (ipv6, header, kTcp, body)"
      and sums: "checksums_ok ipv6 kTcp header body"
    using assms(3) by (auto simp: valid_packet_eq kTcp_nonzero split: option.splits prod.splits)
  note F = ip_frame_Some [OF frame]
  have le: "length body \<le> length packet" using F(4) by (metis length_take min.cobounded1)
  obtain f f' i where f: "family n ipv6 = Some f"
      and tcp: "translate_tcp (dn_limits n) f (dn_next_identification n) body header now = Some (Write out, f', i)"
    using assms(2) unfolding translate_frame [OF ok] frame by (auto split: option.splits if_splits)
  have fok: "family_ok (dn_limits n) ipv6 f" using ok f by (simp add: nat_ok_def)
  then have device: "length (ap_device (f_addresses f)) = 16" by (simp add: family_ok_def pair_ok_def)
  from fok F(5,6) show ?thesis
  proof (cases rule: translate_tcp_cases [where identification = "dn_next_identification n" and now = now])
    case (dropped g)
    with tcp show ?thesis by simp
  next
    case (reset key sequence acknowledgement rst)
    then show ?thesis
      using tcp reset_packet_valid [OF reset(2) device] le by (auto simp: room_for_segment_def split: if_splits)
  next
    case (rewritten out' g)
    have out: "out' = out" using tcp rewritten(1) by simp
    have prefix: "take (if ipv6 then 8 else 10) out = take (if ipv6 then 8 else 10) body"
      using rewritten(5) by (simp add: carried_def out)
    note frame' = ip_frame_prefix [OF frame rewritten(4) [unfolded out] prefix]
    have "out \<noteq> []" "out ! 0 \<noteq> 0" using ip_frame_Some(1,2) [OF frame'] by (auto simp: ip_version_def split: if_splits)
    then have "checksums_ok ipv6 kTcp header out"
      using checksums_kept [OF sums rewritten(6,7)] F(5) unfolding out by (simp split: if_splits)
    then show ?thesis using frame' rewritten(4) le by (simp add: valid_packet_eq kTcp_nonzero out)
  qed
qed

text \<open>C7: In every reachable state the two tables of a family are inverse to each other: a key has a
  port exactly when the entry of that port has that key. So no two connections share a port and
  \<^verbatim>\<open>entries.at\<close> never throws. The tables stay within the limit, all ports are at least 1024, and the
  bridge answers every packet and builds every reply without leaving a buffer.\<close>

theorem nat_tables_inverse:
  assumes "nat_reachable n" and "family n ipv6 = Some f"
  shows "(\<forall>key port. map_of (f_ports f) key = Some port \<longleftrightarrow> (\<exists>e. map_of (f_entries f) port = Some e \<and> e_key e = key)) \<and>
    connections n ipv6 \<le> lim_max_connections (dn_limits n) \<and> length (f_ports f) = length (f_entries f) \<and>
    (\<forall>port e. map_of (f_entries f) port = Some e \<longrightarrow> 1024 \<le> unat port) \<and>
    translate n packet now \<noteq> None \<and>
    (length source = 16 \<longrightarrow> build_reply n v source sp dp payload mtu out \<noteq> None)"
proof (intro conjI allI impI)
  have ok: "nat_ok n" by (rule nat_reachable_ok [OF assms(1)])
  then have fok: "family_ok (dn_limits n) ipv6 f" using assms(2) by (simp add: nat_ok_def)
  then have inv: "inverse_tables (f_ports f) (f_entries f)" by (simp add: family_ok_def)
  show "map_of (f_ports f) key = Some port \<longleftrightarrow> (\<exists>e. map_of (f_entries f) port = Some e \<and> e_key e = key)" for key port
    using inverse_tablesD [OF inv] by blast
  show "connections n ipv6 \<le> lim_max_connections (dn_limits n)"
    using fok assms(2) by (simp add: connections_def family_ok_def)
  show "length (f_ports f) = length (f_entries f)" by (rule inverse_tables_length [OF inv])
  show "1024 \<le> unat port" if "map_of (f_entries f) port = Some e" for port e
    using fok map_of_SomeD [OF that] by (auto simp: family_ok_def list_all_iff entry_ok_def)
  show "translate n packet now \<noteq> None" by (rule translate_total [OF ok, of packet now]) simp
  show "build_reply n v source sp dp payload mtu out \<noteq> None" if "length source = 16"
    by (rule build_reply_total [OF ok that, of v sp dp payload mtu out]) simp
qed

section \<open>The way back\<close>

text \<open>A TCP packet that fills its storage.\<close>

definition tcp_packet :: "bool \<Rightarrow> nat \<Rightarrow> bytes \<Rightarrow> bool" where
  "tcp_packet ipv6 header packet \<longleftrightarrow> ip_frame packet = Some (ipv6, header, kTcp, packet) \<and> header + 20 \<le> length packet"

lemma tcp_packet_room:
  "tcp_packet ipv6 header packet \<Longrightarrow> room_for_segment ipv6 header packet"
  unfolding tcp_packet_def room_for_segment_def using ip_frame_Some(5) [of packet ipv6 header kTcp packet] by blast

lemma translate_tcp_packet:
  assumes "nat_ok n" and "family n ipv6 = Some f" and "tcp_packet ipv6 header packet"
    and "endpoints ipv6 header packet = (take (address_bytes ipv6) (ap_device (f_addresses f)), sp, d, dp)"
  shows "translate n packet now =
    map_option (\<lambda>(answer, f', identification). (answer, (set_family n ipv6 f')\<lparr>dn_next_identification := identification\<rparr>))
      (translate_tcp (dn_limits n) f (dn_next_identification n) packet header now)"
  using assms(2-4) unfolding translate_frame [OF assms(1)] tcp_packet_def by (simp add: endpoints_def)

lemma answer_translated:
  assumes "nat_ok n" and "family n ipv6 = Some f" and "f_listener_port f \<noteq> 0" and "map_of (f_entries f) port = Some e"
    and "tcp_packet ipv6 k answer"
    and "endpoints ipv6 k answer = (take (address_bytes ipv6) (ap_device (f_addresses f)), f_listener_port f,
      take (address_bytes ipv6) (ap_peer (f_addresses f)), port)"
  obtains returned n' where "translate n answer now = Some (Write returned, n')"
    and "endpoints ipv6 k returned = (take (address_bytes ipv6) (k_destination (e_key e)), k_destination_port (e_key e),
      take (address_bytes ipv6) (ap_device (f_addresses f)), k_source_port (e_key e))"
    and "carried ipv6 k returned = carried ipv6 k answer"
proof -
  have fok: "family_ok (dn_limits n) ipv6 f" using assms(1,2) by (simp add: nat_ok_def)
  then have f: "f_ipv6 f = ipv6" "pair_ok (f_addresses f)" by (simp_all add: family_ok_def)
  have key: "length (k_destination (e_key e)) = 16"
    using fok map_of_SomeD [OF assms(4)] by (auto simp: family_ok_def list_all_iff entry_ok_def)
  have device: "length (ap_device (f_addresses f)) = 16" using f(2) by (simp add: pair_ok_def)
  note room = tcp_packet_room [OF assms(5)]
  obtain returned where returned: "rewrite_segment ipv6 answer k (k_destination (e_key e)) (ap_device (f_addresses f))
        (k_destination_port (e_key e)) (k_source_port (e_key e)) = Some returned"
      "endpoints ipv6 k returned = (take (address_bytes ipv6) (k_destination (e_key e)), k_destination_port (e_key e),
        take (address_bytes ipv6) (ap_device (f_addresses f)), k_source_port (e_key e))"
      "carried ipv6 k returned = carried ipv6 k answer"
    by (rule rewrite_segment_ok [OF room key device])
  show ?thesis
  proof (rule that [OF _ returned(2,3)])
    show "translate n answer now = Some (Write returned,
        (set_family n ipv6 f)\<lparr>dn_next_identification := dn_next_identification n\<rparr>)"
      using assms(3,4) returned(1)
      by (simp add: translate_tcp_packet [OF assms(1,2,5,6)] translate_tcp_eq [OF room f assms(6)])
  qed
qed

lemma segment_forwarded:
  fixes sp dp :: u16 and d :: bytes
  assumes "nat_ok n" and "family n ipv6 = Some f" and "f_listener_port f \<noteq> 0" and "tcp_packet ipv6 header packet"
    and "endpoints ipv6 header packet = (take (address_bytes ipv6) (ap_device (f_addresses f)), sp, d, dp)"
    and "d \<noteq> take (address_bytes ipv6) (ap_peer (f_addresses f))" "d \<noteq> take (address_bytes ipv6) (ap_device (f_addresses f))"
    and "sp \<noteq> 0" and "dp \<noteq> 0"
  defines "key \<equiv> \<lparr>k_source_port = sp, k_destination_port = dp, k_destination = padded d\<rparr>"
  assumes "map_of (f_ports f) key \<noteq> None \<or> is_opening (packet ! (header + 13)) \<and>
    connections n ipv6 < lim_max_connections (dn_limits n) \<and> connections n ipv6 < 64512"
  obtains port e out f' n' where "translate n packet now = Some (Write out, n')"
    and "endpoints ipv6 header out = (take (address_bytes ipv6) (ap_peer (f_addresses f)), port,
      take (address_bytes ipv6) (ap_device (f_addresses f)), f_listener_port f)"
    and "carried ipv6 header out = carried ipv6 header packet"
    and "family n' ipv6 = Some f'" "map_of (f_entries f') port = Some e" "e_key e = key"
    and "f_addresses f' = f_addresses f" "f_listener_port f' = f_listener_port f"
proof -
  have fok: "family_ok (dn_limits n) ipv6 f" using assms(1,2) by (simp add: nat_ok_def)
  then have f: "f_ipv6 f = ipv6" "pair_ok (f_addresses f)" by (simp_all add: family_ok_def)
  note room = tcp_packet_room [OF assms(4)]
  have key: "length (k_destination key) = 16"
    using assms(5) parts_offsets(4) [of ipv6] by (auto simp: endpoints_def padded_def key_def)
  have size: "connections n ipv6 = length (f_entries f)" using assms(2) by (simp add: connections_def)
  note eq = translate_tcp_packet [OF assms(1,2,4,5)]
    translate_tcp_eq [OF room f assms(5), of "dn_limits n" "dn_next_identification n" now, folded key_def]
  from fok room key show ?thesis
  proof (cases rule: outbound_port_ok [where identification = "dn_next_identification n" and now = now and
        flags = "packet ! (header + 13)"])
    case (reset sequence acknowledgement rst)
    with assms(11) show ?thesis by simp
  next
    case (dropped f')
    with assms(11) size show ?thesis by simp
  next
    case (port p e f')
    then have f': "length (ap_peer (f_addresses f')) = 16" "length (ap_device (f_addresses f')) = 16"
      by (simp_all add: family_ok_def pair_ok_def)
    obtain out where out: "rewrite_segment ipv6 packet header (ap_peer (f_addresses f')) (ap_device (f_addresses f')) p
          (f_listener_port f') = Some out"
        "endpoints ipv6 header out = (take (address_bytes ipv6) (ap_peer (f_addresses f')), p,
          take (address_bytes ipv6) (ap_device (f_addresses f')), f_listener_port f')"
        "carried ipv6 header out = carried ipv6 header packet"
      by (rule rewrite_segment_ok [OF room f'])
    let ?n = "(set_family n ipv6 f')\<lparr>dn_next_identification := dn_next_identification n\<rparr>"
    have "translate n packet now = Some (Write out, ?n)"
      using assms(3,6-9) port(1) out(1) by (simp add: eq)
    then show ?thesis
      by (rule that [where port = p and e = e and f' = f']) (use out port in simp_all)
  qed
qed

lemma endpoints_destination:
  assumes "room_for_segment ipv6 header packet" and "endpoints ipv6 header packet = (s, sp, d, dp)"
  shows "take (address_bytes ipv6) (padded d) = d"
proof -
  have "length d = address_bytes ipv6" using room_offsets [OF assms(1)] assms(2) by (auto simp: endpoints_def)
  then show ?thesis by (simp add: padded_def)
qed

text \<open>C6: A connection through the bridge works in both directions. In every reachable state, a
  segment from the device to another destination that opens a connection while there is room, or
  belongs to a known one, leaves for the listener from the peer address on some port, otherwise
  unchanged. The listener learns the segment's destination and ports from that port. Every
  answer of the listener to that port then reaches the application as if the destination had sent
  it: addresses and ports are those of the first segment, exchanged, and nothing but the checksums
  is changed besides.\<close>

theorem nat_round_trip:
  fixes n ipv6 f sp dp d
  defines "addr \<equiv> take (address_bytes ipv6)" and "device \<equiv> ap_device (f_addresses f)" and "peer \<equiv> ap_peer (f_addresses f)"
    and "key \<equiv> \<lparr>k_source_port = sp, k_destination_port = dp, k_destination = padded d\<rparr>"
  assumes "nat_reachable n" and "family n ipv6 = Some f" and "f_listener_port f \<noteq> 0" and "tcp_packet ipv6 header packet"
    and "endpoints ipv6 header packet = (addr device, sp, d, dp)"
    and "d \<noteq> addr peer" and "d \<noteq> addr device" and "sp \<noteq> 0" and "dp \<noteq> 0"
    and "map_of (f_ports f) key \<noteq> None \<or> is_opening (packet ! (header + 13)) \<and>
      connections n ipv6 < lim_max_connections (dn_limits n) \<and> connections n ipv6 < 64512"
  shows "\<exists>port out n'. translate n packet now = Some (Write out, n') \<and>
    endpoints ipv6 header out = (addr peer, port, addr device, f_listener_port f) \<and>
    carried ipv6 header out = carried ipv6 header packet \<and>
    fst (accept n' ipv6 port) =
      Some \<lparr>or_ipv6 = ipv6, or_destination = padded d, or_destination_port = dp, or_source_port = sp\<rparr> \<and>
    (\<forall>answer k now'. tcp_packet ipv6 k answer \<and>
        endpoints ipv6 k answer = (addr device, f_listener_port f, addr peer, port) \<longrightarrow>
      (\<exists>returned n''. translate n' answer now' = Some (Write returned, n'') \<and>
        endpoints ipv6 k returned = (d, dp, addr device, sp) \<and>
        carried ipv6 k returned = carried ipv6 k answer))"
proof -
  have ok: "nat_ok n" by (rule nat_reachable_ok [OF assms(5)])
  note unfolded = assms(9-11,14) [unfolded addr_def device_def peer_def key_def]
  obtain port e out f' n' where sent: "translate n packet now = Some (Write out, n')"
      "endpoints ipv6 header out = (addr peer, port, addr device, f_listener_port f)"
      "carried ipv6 header out = carried ipv6 header packet"
      and entry: "family n' ipv6 = Some f'" "map_of (f_entries f') port = Some e" "e_key e = key"
      and same: "f_addresses f' = f_addresses f" "f_listener_port f' = f_listener_port f"
    unfolding addr_def device_def peer_def key_def
    by (rule segment_forwarded [OF ok assms(6,7,8) unfolded(1-3) assms(12,13) unfolded(4), of now])
  have "nat_step n (Packet packet now) n'" using sent(1) by (rule nat_step.packet)
  with ok have ok': "nat_ok n'" by (rule nat_ok_step)
  have d: "take (address_bytes ipv6) (padded d) = d"
    by (rule endpoints_destination [OF tcp_packet_room [OF assms(8)] assms(9)])
  have origin: "fst (accept n' ipv6 port) =
      Some \<lparr>or_ipv6 = ipv6, or_destination = padded d, or_destination_port = dp, or_source_port = sp\<rparr>"
    using entry by (simp add: accept_def key_def)
  have "\<exists>returned n''. translate n' answer now' = Some (Write returned, n'') \<and>
        endpoints ipv6 k returned = (d, dp, addr device, sp) \<and> carried ipv6 k returned = carried ipv6 k answer"
    if "tcp_packet ipv6 k answer" "endpoints ipv6 k answer = (addr device, f_listener_port f, addr peer, port)" for answer k now'
    by (rule answer_translated [OF ok' entry(1) _ entry(2) that(1), of now'])
       (use that(2) assms(7) same entry(3) d in \<open>simp_all add: addr_def device_def peer_def key_def\<close>)
  with sent origin show ?thesis by blast
qed

section \<open>Accepted connections\<close>

definition accepted_on :: "Family \<Rightarrow> u16 \<Rightarrow> Entry \<Rightarrow> bool" where
  "accepted_on f port e \<longleftrightarrow> map_of (f_entries f) port = Some e \<and> e_phase e = Accepted"

lemma accepted_update:
  assumes "accepted_on f port e" and "p = port \<Longrightarrow> change e = e"
  shows "accepted_on (update_entry f p change) port e"
  using assms by (auto simp: accepted_on_def update_entry_def map_of_change)

lemma accepted_allocate:
  assumes "accepted_on f port e" and "allocate limits f key now = (found, f')"
  shows "accepted_on f' port e"
proof (cases "length (f_entries f) \<ge> lim_max_connections limits")
  case True
  then have "f' = f" using assms(2) by (simp add: allocate_def)
  with assms(1) show ?thesis by simp
next
  case False
  define tries where "tries = 65535 - unat kFirstPort + 1"
  obtain p q where search: "find_port tries (f_entries f) (f_next_port f) = (p, q)" by fastforce
  note result = assms(2) [unfolded allocate_def if_not_P [OF False] tries_def [symmetric] search prod.case]
  show ?thesis
  proof (cases p)
    case None
    with result assms(1) show ?thesis by (auto simp: accepted_on_def)
  next
    case (Some free)
    then have "map_of (f_entries f) free = None" using find_port_Some search by blast
    with Some result assms(1) show ?thesis by (auto simp: accepted_on_def)
  qed
qed

lemma accepted_outbound:
  assumes "accepted_on f port e" and "outbound_port limits f i packet header now flags key = Some (outbound, f', i')"
  shows "accepted_on f' port e"
proof (cases "map_of (f_ports f) key")
  case None
  then show ?thesis
    using assms accepted_allocate [OF assms(1), of limits key now]
    by (auto simp: outbound_port_def Let_def split: if_splits prod.splits option.splits Option.bind_splits)
next
  case (Some p)
  then obtain e' where e': "map_of (f_entries f) p = Some e'" using assms(2)
    by (auto simp: outbound_port_def Let_def split: option.splits)
  show ?thesis
  proof (cases "is_opening flags \<and> e_phase e' = Lingering")
    case True
    then have "p \<noteq> port" using assms(1) e' by (auto simp: accepted_on_def)
    moreover have "f' = update_entry f p (\<lambda>e. e\<lparr>e_phase := Pending, e_expires := now + lim_pending limits\<rparr>)"
      using assms(2) True by (simp add: outbound_port_def Let_def Some e' is_opening_def)
    ultimately show ?thesis using accepted_update [OF assms(1)] by simp
  next
    case False
    then have "f' = f" using assms(2) by (auto simp: outbound_port_def Let_def Some e' is_opening_def split: if_splits)
    with assms(1) show ?thesis by simp
  qed
qed

lemma accepted_translate_tcp:
  assumes "accepted_on f port e" and "translate_tcp limits f i packet header now = Some (answer, f', i')"
  shows "accepted_on f' port e"
  using assms accepted_outbound [OF assms(1)]
  by (auto simp: translate_tcp_def Let_def split: if_splits prod.splits option.splits Option.bind_splits Outbound.splits)

lemma accepted_step:
  assumes "nat_ok n" and "nat_step n call n'" and "family n ipv6 = Some f" and "accepted_on f port e"
    and "\<forall>now. call \<noteq> Release ipv6 port now"
  shows "\<exists>f'. family n' ipv6 = Some f' \<and> accepted_on f' port e"
  using assms(2)
proof cases
  case (listen a b)
  with assms(3,4) show ?thesis by (simp add: family_listen accepted_on_def)
next
  case (packet p now answer)
  have "n' = n \<or> (\<exists>v g g' i body header. family n v = Some g \<and> n' = (set_family n v g')\<lparr>dn_next_identification := i\<rparr> \<and>
      translate_tcp (dn_limits n) g (dn_next_identification n) body header now = Some (answer, g', i))"
    using packet(2) unfolding translate_frame [OF assms(1)]
    by (fastforce split: option.splits prod.splits if_splits)
  with assms(3,4) accepted_translate_tcp show ?thesis by (elim disjE exE conjE) auto
next
  case (accept v p origin)
  have "accepted_on (update_entry f p (\<lambda>e. e\<lparr>e_phase := Accepted\<rparr>)) port e"
    by (rule accepted_update [OF assms(4)]) (use assms(4) in \<open>simp add: accepted_on_def\<close>)
  with accept assms(3,4) show ?thesis by (auto simp: accept_def split: option.splits)
next
  case (release v p now)
  have "accepted_on (update_entry f p change) port e" if "p \<noteq> port" for change
    by (rule accepted_update [OF assms(4)]) (use that in simp)
  with release assms(3,4,5) show ?thesis by (auto simp: release_def split: option.splits)
next
  case (sweep now)
  have "distinct (map fst (f_entries f))" using assms(1,3) by (auto simp: nat_ok_def family_ok_def inverse_tables_def)
  from swept_entries [OF this] sweep assms(3,4) show ?thesis by (simp add: family_sweep accepted_on_def expired_def)
next
  case (reply source v sp dp payload mtu out written out')
  obtain w o' m where "build_reply n v source sp dp payload mtu out = Some (w, o', m)"
      "m = n \<or> m = n\<lparr>dn_next_identification := dn_next_identification n + 1\<rparr>"
    by (rule build_reply_total [OF assms(1) reply(2)])
  with reply assms(3,4) show ?thesis by auto
qed

text \<open>C24: An accepted connection keeps its port until it is released. Whatever packets, accepts, other
  releases, sweeps and replies happen in between, its entry is unchanged, so its segments are
  translated as before.\<close>

theorem accepted_keeps_port:
  assumes "nat_reachable n" and "nat_run n calls n'" and "family n ipv6 = Some f"
    and "map_of (f_entries f) port = Some e" and "e_phase e = Accepted"
    and "\<forall>now. Release ipv6 port now \<notin> set calls"
  shows "\<exists>f'. family n' ipv6 = Some f' \<and> map_of (f_entries f') port = Some e"
proof -
  have "accepted_on f port e" using assms(4,5) by (simp add: accepted_on_def)
  with assms(2) nat_reachable_ok [OF assms(1)] assms(3,6)
  have "\<exists>f'. family n' ipv6 = Some f' \<and> accepted_on f' port e"
  proof (induction arbitrary: f rule: nat_run.induct)
    case (go n call m calls n')
    from accepted_step [OF go.prems(1) go.hyps(1) go.prems(2,4)] go.prems(3)
    obtain g where "family m ipv6 = Some g" "accepted_on g port e" by auto
    with go.IH [OF nat_ok_step [OF go.prems(1) go.hyps(1)]] go.prems(3) show ?case by simp
  qed blast
  then show ?thesis by (auto simp: accepted_on_def)
qed

section \<open>Freed ports\<close>

text \<open>C25: A released connection gives its port back: a sweep after the linger time removes its entry and
  its key from the tables, together with exactly the other entries that are not accepted and
  whose time has passed.\<close>

theorem released_port_freed:
  assumes "nat_reachable n" and "family n ipv6 = Some f" and "map_of (f_entries f) port = Some e"
    and "now + lim_linger (dn_limits n) \<le> later"
  shows "\<exists>f'. family (sweep (release n ipv6 port now) later) ipv6 = Some f' \<and>
    map_of (f_entries f') port = None \<and> map_of (f_ports f') (e_key e) = None \<and>
    (\<forall>q e'. q \<noteq> port \<longrightarrow> (map_of (f_entries f') q = Some e' \<longleftrightarrow>
      map_of (f_entries f) q = Some e' \<and> (e_phase e' = Accepted \<or> later < e_expires e')))"
proof -
  have ok: "nat_ok n" by (rule nat_reachable_ok [OF assms(1)])
  let ?g = "update_entry f port (\<lambda>e. e\<lparr>e_phase := Lingering, e_expires := now + lim_linger (dn_limits n)\<rparr>)"
  have release: "release n ipv6 port now = set_family n ipv6 ?g" using assms(2,3) by (simp add: release_def)
  have "nat_ok (release n ipv6 port now)" by (rule nat_ok_release [OF ok])
  moreover have "family (release n ipv6 port now) ipv6 = Some ?g" unfolding release by simp
  ultimately have inv: "inverse_tables (f_ports ?g) (f_entries ?g)" unfolding nat_ok_def family_ok_def by blast
  then have swept: "map_of (f_entries (sweep_family later ?g)) q = Some e' \<longleftrightarrow>
      map_of (f_entries ?g) q = Some e' \<and> \<not> expired later e'" for q e'
    by (intro swept_entries) (simp add: inverse_tables_def)
  have entry: "map_of (f_entries ?g) q = map_option (\<lambda>e. if q = port then
      e\<lparr>e_phase := Lingering, e_expires := now + lim_linger (dn_limits n)\<rparr> else e) (map_of (f_entries f) q)" for q
    by (simp add: update_entry_def map_of_change)
  have gone: "map_of (f_entries (sweep_family later ?g)) port = None"
  proof (rule ccontr)
    assume "map_of (f_entries (sweep_family later ?g)) port \<noteq> None"
    then obtain e' where "map_of (f_entries (sweep_family later ?g)) port = Some e'" by blast
    then have "map_of (f_entries ?g) port = Some e'" "\<not> expired later e'" unfolding swept by simp_all
    with assms(3,4) show False unfolding entry by (auto simp: expired_def)
  qed
  have "map_of (f_ports (sweep_family later ?g)) (e_key e) = None"
  proof (rule ccontr)
    assume "map_of (f_ports (sweep_family later ?g)) (e_key e) \<noteq> None"
    then obtain q where "map_of (f_ports (sweep_family later ?g)) (e_key e) = Some q" by blast
    then obtain e' where e': "map_of (f_entries ?g) q = Some e'" "e_key e' = e_key e" "\<not> expired later e'"
      using swept_ports [OF inv] by blast
    have "map_of (f_entries ?g) port = Some (e\<lparr>e_phase := Lingering, e_expires := now + lim_linger (dn_limits n)\<rparr>)"
      using assms(3) unfolding entry by simp
    from inverse_tablesD(2) [OF inv this] inverse_tablesD(2) [OF inv e'(1)] e'(2) have "q = port" by simp
    with e'(1,3) have "map_of (f_entries (sweep_family later ?g)) port = Some e'" unfolding swept by blast
    with gone show False by simp
  qed
  with gone show ?thesis
    unfolding release family_sweep family_set_family using swept entry by (auto simp: expired_def)
qed

section \<open>Replies\<close>

lemma reply_packet_facts:
  fixes ipv6 and identification sp dp :: u16 and payload :: bytes
  assumes "length source = 16" and "length device = 16"
    and "(if ipv6 then 8 + length payload else 20 + (8 + length payload)) < 65536"
  defines "p \<equiv> reply_packet ipv6 source device identification sp dp payload" and "header \<equiv> (if ipv6 then 40 else 20 :: nat)"
  shows "valid_packet kUdp p"
    and "endpoints ipv6 header p = (take (address_bytes ipv6) source, sp, take (address_bytes ipv6) device, dp)"
    and "drop (header + 8) p = payload"
    and "udp_length header p = 8 + length payload"
    and "take 2 (drop (header + 6) p) \<noteq> [0, 0]"
proof -
  let ?c = "finish (built_sum ipv6 source device kUdp (udp_bytes sp dp payload 0))"
  let ?h = "own_header ipv6 kUdp (8 + length payload) source device identification"
  define c where "c = (if ?c = 0 then 65535 else ?c)"
  have p: "p = ?h @ udp_bytes sp dp payload c" by (simp add: p_def reply_packet_def Let_def c_def)
  have "ip_frame p = Some (ipv6, header, kUdp, p)"
    unfolding p header_def by (rule ip_frame_own [OF assms(1,2)]) (use assms(3) in \<open>simp_all add: length_udp_bytes\<close>)
  then show "valid_packet kUdp p"
    using reply_packet_checksums [OF assms(1,2)] by (auto simp: valid_packet_eq kUdp_nonzero checksums_ok_def p_def header_def)
  have h: "length ?h = header" using length_own_header [OF assms(1,2)] by (simp add: header_def)
  then show "drop (header + 8) p = payload" by (simp add: p udp_bytes_def)
  obtain H where H: "?h = H @ take (address_bytes ipv6) source @ take (address_bytes ipv6) device" "length H = source_offset ipv6"
    by (rule own_header_parts [OF assms(1,2)])
  have "take (address_bytes ipv6) (drop (source_offset ipv6) p) = take (address_bytes ipv6) source"
      "take (address_bytes ipv6) (drop (destination_offset ipv6) p) = take (address_bytes ipv6) device"
    using assms(1,2) parts_offsets(1,4) [of ipv6] H(2) unfolding p H(1) by simp_all
  moreover have "p ! header = udp_bytes sp dp payload c ! 0" "p ! (header + 1) = udp_bytes sp dp payload c ! 1"
      "p ! (header + 2) = udp_bytes sp dp payload c ! 2" "p ! (header + 3) = udp_bytes sp dp payload c ! 3"
    unfolding p h [symmetric] nth_append_length_plus by (simp_all add: nth_append)
  ultimately show "endpoints ipv6 header p = (take (address_bytes ipv6) source, sp, take (address_bytes ipv6) device, dp)"
    by (simp add: endpoints_def udp_bytes_def be16_def)
  have "8 + length payload < 65536" using assms(3) by (simp split: if_splits)
  then have "unat (of_nat (8 + length payload) :: u16) = 8 + length payload" unfolding unat_of_nat by simp
  moreover have "p ! (header + 4) = udp_bytes sp dp payload c ! 4" "p ! (header + 5) = udp_bytes sp dp payload c ! 5"
    unfolding p h [symmetric] nth_append_length_plus by (simp_all add: nth_append)
  ultimately show "udp_length header p = 8 + length payload"
    by (simp add: udp_length_def udp_bytes_def be16_def)
  have "take 2 (drop (header + 6) p) = be16 c" by (simp add: p h udp_bytes_def)
  moreover have "be16 c \<noteq> be16 0" by (auto simp: c_def be16_inject)
  ultimately show "take 2 (drop (header + 6) p) \<noteq> [0, 0]" by (simp add: be16_def)
qed

text \<open>C26: In a reachable state the bridge returns from every call for a reply. The reply is a valid UDP
  packet from the given source to the device with the given ports, length and payload, within the
  size limit and the storage, and its checksum field is never zero, which would mean that it has no
  checksum. The call refuses exactly an empty payload, a family without addresses, and a packet that
  does not fit; a refusal writes nothing.\<close>

theorem replies_valid:
  fixes payload :: bytes and ipv6 :: bool
  assumes "nat_reachable n" and "length source = 16"
  defines "header \<equiv> (if ipv6 then 40 else 20 :: nat)"
  shows "\<exists>written out' n'. build_reply n ipv6 source sp dp payload mtu out = Some (written, out', n') \<and>
    length out' = length out \<and> drop written out' = drop written out \<and>
    (if payload \<noteq> [] \<and> header + 8 + length payload \<le> min mtu (length out) \<and>
        (if ipv6 then 0 else header) + 8 + length payload < 65536 \<and> family n ipv6 \<noteq> None
     then written = header + 8 + length payload \<and> valid_packet kUdp (take written out') \<and>
       endpoints ipv6 header (take written out') = (take (address_bytes ipv6) source, sp,
         take (address_bytes ipv6) (ap_device (f_addresses (the (family n ipv6)))), dp) \<and>
       udp_length header (take written out') = 8 + length payload \<and>
       take 2 (drop (header + 6) (take written out')) \<noteq> [0, 0] \<and>
       drop (header + 8) (take written out') = payload
     else written = 0)"
proof (cases "family n ipv6")
  case None
  then show ?thesis by (simp add: build_reply_def Let_def)
next
  case (Some f)
  have ok: "nat_ok n" by (rule nat_reachable_ok [OF assms(1)])
  have device: "length (ap_device (f_addresses f)) = 16"
    using ok Some by (auto simp: nat_ok_def family_ok_def pair_ok_def)
  let ?i = "dn_next_identification n"
  let ?p = "reply_packet ipv6 source (ap_device (f_addresses f)) ?i sp dp payload"
  define refused where "refused \<longleftrightarrow> payload = [] \<or> header + (8 + length payload) > mtu \<or> header + (8 + length payload) > length out \<or>
    (if ipv6 then 8 + length payload else header + (8 + length payload)) > 65535"
  note reply = build_reply_eq [OF Some assms(2) device, of sp dp payload mtu out, folded header_def, folded refused_def]
  show ?thesis
  proof (cases refused)
    case True
    then show ?thesis using reply by (auto simp: refused_def Some)
  next
    case False
    define written out' where w: "written = header + (8 + length payload)" "out' = ?p @ drop (header + (8 + length payload)) out"
    have run: "build_reply n ipv6 source sp dp payload mtu out
        = Some (written, out', n\<lparr>dn_next_identification := ?i + 1\<rparr>)"
      using reply False by (simp add: w)
    have len: "length ?p = header + (8 + length payload)"
      by (simp add: reply_packet_def Let_def length_own_header [OF assms(2) device] length_udp_bytes header_def)
    have "take written out' = ?p" using w len by simp
    moreover have "length out' = length out" "drop written out' = drop written out" using w len False by (auto simp: refused_def)
    moreover have "valid_packet kUdp ?p" and "endpoints ipv6 header ?p = (take (address_bytes ipv6) source, sp,
        take (address_bytes ipv6) (ap_device (f_addresses f)), dp)" and "drop (header + 8) ?p = payload" and "udp_length header ?p = 8 + length payload"
        and "take 2 (drop (header + 6) ?p) \<noteq> [0, 0]"
      using reply_packet_facts [OF assms(2) device, of ipv6 payload ?i sp dp] False by (auto simp: header_def refused_def split: if_splits)
    ultimately show ?thesis using False Some w(1) run by (auto simp: refused_def split: if_splits)
  qed
qed

section \<open>A sample connection\<close>

text \<open>
  The device 10.0.0.1 with the peer address 10.0.0.2 and a listener on port 9000; a SYN segment from
  port 5000 to 192.0.2.1 port 80, and the segment and the state that its translation gives.
\<close>

definition sample_pair :: DeviceAddressPair where
  "sample_pair = \<lparr>ap_device = [10, 0, 0, 1] @ replicate 12 0, ap_peer = [10, 0, 0, 2] @ replicate 12 0\<rparr>"

definition sample_limits :: DeviceNatLimits where
  "sample_limits = \<lparr>lim_max_connections = 4096, lim_pending = 60000, lim_linger = 15000\<rparr>"

definition sample_bridge :: DeviceNat where
  "sample_bridge = set_listener_ports (new_DeviceNat (Some sample_pair) None sample_limits) 9000 0"

definition sample_syn :: bytes where
  "sample_syn =
     [69, 0, 0, 40, 0, 1, 64, 0, 64, 6, 110, 205, 10, 0, 0, 1, 192, 0, 2, 1,
      19, 136, 0, 80, 0, 0, 3, 232, 0, 0, 0, 0, 80, 2, 255, 255, 204, 32, 0, 0]"

definition sample_forwarded :: bytes where
  "sample_forwarded =
     [69, 0, 0, 40, 0, 1, 64, 0, 64, 6, 38, 205, 10, 0, 0, 2, 10, 0, 0, 1,
      4, 0, 35, 40, 0, 0, 3, 232, 0, 0, 0, 0, 80, 2, 255, 255, 112, 208, 0, 0]"

definition sample_key :: Key where
  "sample_key = \<lparr>k_source_port = 5000, k_destination_port = 80, k_destination = padded [192, 0, 2, 1]\<rparr>"

definition sample_idle :: Family where
  "sample_idle = \<lparr>f_ipv6 = False, f_addresses = sample_pair, f_listener_port = 9000, f_next_port = 1024,
     f_ports = [], f_entries = []\<rparr>"

definition sample_family :: Family where
  "sample_family = sample_idle\<lparr>f_next_port := 1025, f_ports := [(sample_key, 1024)],
     f_entries := [(1024, \<lparr>e_key = sample_key, e_phase = Pending, e_expires = 60000\<rparr>)]\<rparr>"

definition sample_connected :: DeviceNat where
  "sample_connected = set_family sample_bridge False sample_family"

lemma sample_bridge_reachable: "nat_reachable sample_bridge"
  unfolding sample_bridge_def
  by (rule nat_reachable.step [OF nat_reachable.start nat_step.listen]) (simp add: sample_pair_def pair_ok_def)

lemma sample_bridge_family: "family sample_bridge False = Some sample_idle"
  by (simp add: sample_bridge_def set_listener_ports_def new_DeviceNat_def family_def sample_idle_def Let_def)

lemma sample_bridge_fields: "dn_limits sample_bridge = sample_limits" "dn_next_identification sample_bridge = 1"
  by (simp_all add: sample_bridge_def set_listener_ports_def new_DeviceNat_def Let_def)

lemmas sample_offsets = address_bytes_def source_offset_def destination_offset_def

lemma sample_syn_packet: "tcp_packet False 20 sample_syn"
  by (simp add: tcp_packet_def ip_frame_def sample_syn_def ip_version_def ip_header_def kIpv4Header_def get16_in
      of_be16_def Let_def kTcp_def)

lemma sample_addresses:
  "take 4 (ap_device (f_addresses sample_idle)) = [10, 0, 0, 1]" "take 4 (ap_peer (f_addresses sample_idle)) = [10, 0, 0, 2]"
  by (simp_all add: sample_idle_def sample_pair_def)

lemma sample_syn_endpoints:
  "endpoints False 20 sample_syn = (take (address_bytes False) (ap_device (f_addresses sample_idle)), 5000, [192, 0, 2, 1], 80)"
  unfolding address_bytes_def if_False sample_addresses by (simp add: endpoints_def sample_syn_def sample_offsets of_be16_def)

lemma sample_syn_valid: "valid_packet kTcp sample_syn"
proof -
  have "fold_sum (transport_sum False kTcp 20 sample_syn) = 65535" "fold_sum (header_sum 20 sample_syn) = 65535"
    unfolding fold_sum_ones
    by (simp_all add: transport_sum_def header_sum_def sample_syn_def pseudo_sum_def of_be16_def sample_offsets kTcp_def)
  with sample_syn_packet show ?thesis by (simp add: tcp_packet_def valid_packet_eq kTcp_nonzero checksums_ok_def)
qed

lemma fold_sum_step: "65536 \<le> s \<Longrightarrow> fold_sum s = fold_sum (s mod 65536 + s div 65536)"
  by (subst fold_sum.simps) (simp add: div_greater_zero_iff)

lemma sample_rewritten:
  "rewrite_segment False sample_syn 20 (ap_peer sample_pair) (ap_device sample_pair) 1024 9000 = Some sample_forwarded"
proof -
  have "replicate 4 0 = [0, 0, 0, 0 :: u8]" by (simp add: eval_nat_numeral)
  moreover have "(1024 :: u8) = 0" "(9000 :: u8) = 40" by simp_all
  ultimately show ?thesis
    by (simp add: rewrite_segment_def sample_syn_def sample_forwarded_def sample_pair_def sample_offsets adjust_def
        put16_def get16_def copy_to_def put_byte_def of_be16_def fold_sum_step fold_sum_small Let_def)
qed

lemma sample_translated:
  "translate sample_bridge sample_syn 0 = Some (Write sample_forwarded, sample_connected)"
proof -
  have flags: "sample_syn ! (20 + 13) = 2" by (simp add: sample_syn_def)
  have outbound: "outbound_port sample_limits sample_idle 1 sample_syn 20 0 2 sample_key = Some (UsePort 1024, sample_family, 1)"
    by (simp add: outbound_port_def allocate_def Let_def sample_limits_def sample_idle_def sample_family_def
        kSyn_def kAck_def kRst_def)
  have f: "f_ipv6 sample_idle = False" "pair_ok (f_addresses sample_idle)"
    by (simp_all add: sample_idle_def sample_pair_def pair_ok_def)
  note eq = translate_tcp_eq [OF tcp_packet_room [OF sample_syn_packet] f sample_syn_endpoints, of sample_limits 1 0,
      unfolded address_bytes_def if_False sample_addresses flags sample_key_def [symmetric] outbound]
  have "translate_tcp sample_limits sample_idle 1 sample_syn 20 0 = Some (Write sample_forwarded, sample_family, 1)"
    unfolding eq using sample_rewritten by (simp add: sample_idle_def sample_family_def)
  then show ?thesis
    using translate_tcp_packet [OF nat_reachable_ok [OF sample_bridge_reachable] sample_bridge_family sample_syn_packet sample_syn_endpoints, of 0]
    by (simp add: sample_bridge_fields sample_connected_def set_family_def)
qed

definition sample_accepted :: Family where
  "sample_accepted = sample_family\<lparr>f_entries := [(1024, \<lparr>e_key = sample_key, e_phase = Accepted, e_expires = 60000\<rparr>)]\<rparr>"

lemma sample_connected_reachable: "nat_reachable sample_connected"
  using sample_bridge_reachable nat_step.packet [OF sample_translated] by (rule nat_reachable.step)

lemma sample_connected_family: "family sample_connected False = Some sample_family"
  by (simp add: sample_connected_def)

lemma sample_entries:
  "f_entries sample_family = [(1024, \<lparr>e_key = sample_key, e_phase = Pending, e_expires = 60000\<rparr>)]"
  by (simp add: sample_family_def)

lemma sample_accepted_reachable: "nat_reachable (set_family sample_connected False sample_accepted)"
proof (rule nat_reachable.step [OF sample_connected_reachable nat_step.accept])
  show "accept sample_connected False 1024 = (Some \<lparr>or_ipv6 = False, or_destination = padded [192, 0, 2, 1],
      or_destination_port = 80, or_source_port = 5000\<rparr>, set_family sample_connected False sample_accepted)"
    by (simp add: accept_def sample_connected_family sample_entries update_entry_def sample_accepted_def sample_key_def)
qed

theorem translated_packets_valid_witness:
  "valid_packet kTcp sample_syn \<and> translate sample_bridge sample_syn 0 = Some (Write sample_forwarded, sample_connected) \<and>
   valid_packet kTcp sample_forwarded"
  using translated_packets_valid [OF sample_bridge_reachable sample_translated sample_syn_valid] sample_translated sample_syn_valid
  by simp

theorem nat_tables_inverse_witness:
  "(\<forall>key port. map_of (f_ports sample_family) key = Some port \<longleftrightarrow>
     (\<exists>e. map_of (f_entries sample_family) port = Some e \<and> e_key e = key)) \<and>
   build_reply sample_connected False (replicate 16 0) 53 5000 [1] 1500 [] \<noteq> None"
  using nat_tables_inverse [OF sample_connected_reachable sample_connected_family, of "[]" 0 "replicate 16 0" False 53 5000 "[1]" 1500 "[]"]
  by simp

theorem nat_round_trip_witness:
  "\<exists>port out n'. translate sample_bridge sample_syn 0 = Some (Write out, n') \<and>
     endpoints False 20 out = ([10, 0, 0, 2], port, [10, 0, 0, 1], 9000) \<and>
     fst (accept n' False port) = Some \<lparr>or_ipv6 = False, or_destination = padded [192, 0, 2, 1],
       or_destination_port = 80, or_source_port = 5000\<rparr>"
proof -
  have four: "address_bytes False = 4" by (simp add: address_bytes_def)
  have "is_opening (sample_syn ! (20 + 13))" by (simp add: sample_syn_def is_opening_def kSyn_def kAck_def kRst_def)
  moreover have "connections sample_bridge False < lim_max_connections (dn_limits sample_bridge)" "connections sample_bridge False < 64512"
    unfolding connections_def sample_bridge_family sample_bridge_fields by (simp_all add: sample_idle_def sample_limits_def)
  moreover have "f_listener_port sample_idle = 9000" by (simp add: sample_idle_def)
  ultimately show ?thesis
    using nat_round_trip [OF sample_bridge_reachable sample_bridge_family _ sample_syn_packet sample_syn_endpoints, of 0]
    unfolding four sample_addresses by auto
qed

theorem accepted_keeps_port_witness:
  "\<exists>f. family (sweep (set_family sample_connected False sample_accepted) 100000) False = Some f \<and>
     map_of (f_entries f) 1024 = Some \<lparr>e_key = sample_key, e_phase = Accepted, e_expires = 60000\<rparr>"
proof -
  have "nat_run (set_family sample_connected False sample_accepted) [Sweep 100000]
      (sweep (set_family sample_connected False sample_accepted) 100000)"
    by (rule nat_run.go [OF nat_step.sweep nat_run.stay])
  then show ?thesis
    by (rule accepted_keeps_port [OF sample_accepted_reachable, where f = sample_accepted]) (simp_all add: sample_accepted_def)
qed

theorem released_port_freed_witness:
  "\<exists>f. family (sweep (release sample_connected False 1024 0) 15000) False = Some f \<and>
     map_of (f_entries f) 1024 = None \<and> map_of (f_ports f) sample_key = None"
  using released_port_freed [OF sample_connected_reachable sample_connected_family, of 1024
      "\<lparr>e_key = sample_key, e_phase = Pending, e_expires = 60000\<rparr>" 0 15000]
  by (auto simp: sample_entries sample_connected_def sample_bridge_fields sample_limits_def)

theorem replies_valid_witness:
  "\<exists>out n'. build_reply sample_bridge False (padded [192, 0, 2, 1]) 53 5000 [1, 2, 3] 1500 (replicate 1500 0) = Some (31, out, n') \<and>
     valid_packet kUdp (take 31 out) \<and> drop 28 (take 31 out) = [1, 2, 3]"
proof -
  have source: "length (padded [192, 0, 2, 1]) = 16" by (simp add: padded_def)
  from replies_valid [OF sample_bridge_reachable source, of False 53 5000 "[1, 2, 3]" 1500 "replicate 1500 0"] show ?thesis
    by (auto simp: sample_bridge_family)
qed

end
