(* ===== verification/Engine_Status.thy ===== *)
theory Engine_Status
  imports Yume_Prelude
begin

text \<open>
  The status codes that all asynchronous components report (\<^verbatim>\<open>src/src/engine/status.hpp\<close>). A status
  also has a diagnostic text, which no code branches on; it is left out. The bounds of an owned
  buffer are those of \<^verbatim>\<open>src/src/engine/buffer.cpp\<close>.
\<close>

datatype StatusCode = Ok | InvalidArgument | ResourceExhausted | Cancelled | Closed | FailedPrecondition
  | NotFound | AlreadyExists | ProviderMismatch | Internal | EndOfStream | PermissionDenied | AddressInUse

definition kAbsoluteMaxBufferBytes :: nat where "kAbsoluteMaxBufferBytes = 16 * 1024 * 1024"

definition validate_limit :: "nat \<Rightarrow> StatusCode" where
  "validate_limit max_size = (if max_size = 0 \<or> max_size > kAbsoluteMaxBufferBytes then InvalidArgument else Ok)"

definition copy_from :: "bytes \<Rightarrow> nat \<Rightarrow> StatusCode + bytes" where
  "copy_from bytes max_size =
     (if validate_limit max_size \<noteq> Ok then Inl (validate_limit max_size)
      else if length bytes > max_size then Inl ResourceExhausted
      else Inr bytes)"

end
