(* ===== verification/Accept_Scheduler.thy ===== *)
theory Accept_Scheduler
  imports Engine_Status
begin

text \<open>
  The accept scheduler (\<^verbatim>\<open>src/src/runtime/accept_scheduler.hpp\<close>): it keeps a bounded number of session
  starts pending on each listener and retries after a delay when starts fail.

  The driver is a parameter. Each of its calls may change its state, so that the owner may begin to
  close between any two calls. A start gives the status that it returns and the settlements that it
  makes before it returns, in order. A settlement re-enters the scheduler; the number of nested calls
  and of loop rounds is bounded by fuel. A result \<^term>\<open>None\<close> means that the fuel ran out, that a lane
  is out of range, or that a counter wrapped.
\<close>

section \<open>Data\<close>

type_synonym settlement = "nat \<times> int \<times> bool"

record 'd Driver =
  start_accept :: "nat \<Rightarrow> int \<Rightarrow> 'd \<Rightarrow> StatusCode \<times> settlement list \<times> 'd"
  schedule_retry :: "nat \<Rightarrow> int \<Rightarrow> 'd \<Rightarrow> bool \<times> 'd"
  listener_stopped :: "nat \<Rightarrow> 'd \<Rightarrow> bool \<times> 'd"
  owner_closing :: "'d \<Rightarrow> bool \<times> 'd"
  clock_now :: "'d \<Rightarrow> int \<times> 'd"
  report_failed :: "StatusCode \<Rightarrow> 'd \<Rightarrow> 'd"

datatype SchedulerPhase = Idle | Running | Failed

record LaneState =
  l_pending :: nat
  l_retry_scheduled :: bool
  l_arming :: bool
  l_arm_again :: bool

record 'd AcceptScheduler =
  sc_driver :: 'd
  sc_lanes :: "LaneState list"
  sc_pending_per_lane :: nat
  sc_retry_delay :: int
  sc_phase :: SchedulerPhase

definition new_AcceptScheduler :: "'d \<Rightarrow> nat \<Rightarrow> 'd AcceptScheduler" where
  "new_AcceptScheduler d lanes =
     \<lparr>sc_driver = d,
      sc_lanes = replicate lanes \<lparr>l_pending = 0, l_retry_scheduled = False, l_arming = False, l_arm_again = False\<rparr>,
      sc_pending_per_lane = 0, sc_retry_delay = 0, sc_phase = Idle\<rparr>"

definition started :: "'d AcceptScheduler \<Rightarrow> bool" where
  "started s \<longleftrightarrow> sc_phase s \<noteq> Idle"

text \<open>A change of the state of a lane.\<close>

definition set_lane :: "'d AcceptScheduler \<Rightarrow> nat \<Rightarrow> (LaneState \<Rightarrow> LaneState) \<Rightarrow> 'd AcceptScheduler option" where
  "set_lane s lane change = do {
     st \<leftarrow> elem_at (sc_lanes s) lane;
     lanes \<leftarrow> put_elem (sc_lanes s) lane (change st);
     Some (s\<lparr>sc_lanes := lanes\<rparr>)
   }"

section \<open>Operations\<close>

definition running :: "'d Driver \<Rightarrow> 'd AcceptScheduler \<Rightarrow> bool \<times> 'd AcceptScheduler" where
  "running drv s =
     (if sc_phase s \<noteq> Running then (False, s)
      else let (closing, d) = owner_closing drv (sc_driver s) in (\<not> closing, s\<lparr>sc_driver := d\<rparr>))"

definition fail :: "'d Driver \<Rightarrow> StatusCode \<Rightarrow> 'd AcceptScheduler \<Rightarrow> 'd AcceptScheduler" where
  "fail drv code s =
     (if sc_phase s \<noteq> Running then s
      else s\<lparr>sc_phase := Failed, sc_driver := report_failed drv code (sc_driver s)\<rparr>)"

definition defer_lane :: "'d Driver \<Rightarrow> nat \<Rightarrow> 'd AcceptScheduler \<Rightarrow> 'd AcceptScheduler option" where
  "defer_lane drv lane s = do {
     st \<leftarrow> elem_at (sc_lanes s) lane;
     if l_retry_scheduled st then Some s
     else let (run, s) = running drv s in
       if \<not> run then Some s
       else let (scheduled, d) = schedule_retry drv lane (sc_retry_delay s) (sc_driver s);
                s = s\<lparr>sc_driver := d\<rparr>
            in if scheduled then set_lane s lane (\<lambda>st. st\<lparr>l_retry_scheduled := True\<rparr>)
               else if l_pending st = 0 then Some (fail drv ResourceExhausted s)
               else Some s
   }"

text \<open>
  A settlement re-enters \<^verbatim>\<open>arm\<close>. The functions below take the nested call as a parameter; \<open>arm\<close> ties
  the knot, with one unit of fuel per nested call and per round of each loop.
\<close>

type_synonym 'd arming = "nat \<Rightarrow> 'd AcceptScheduler \<Rightarrow> 'd AcceptScheduler option"

definition settle_one :: "'d Driver \<Rightarrow> 'd arming \<Rightarrow> settlement \<Rightarrow> 'd AcceptScheduler \<Rightarrow> 'd AcceptScheduler option" where
  "settle_one drv rearm settlement s = (case settlement of (lane, armed_at, succeeded) \<Rightarrow> do {
     s \<leftarrow> set_lane s lane (\<lambda>st. if l_pending st \<noteq> 0 then st\<lparr>l_pending := l_pending st - 1\<rparr> else st);
     let (run, s) = running drv s in
       if \<not> run then Some s
       else if succeeded then rearm lane s
       else let (stopped, d) = listener_stopped drv lane (sc_driver s); s = s\<lparr>sc_driver := d\<rparr> in
         if stopped then Some (fail drv Closed s)
         else let (now, d) = clock_now drv (sc_driver s); s = s\<lparr>sc_driver := d\<rparr> in
           if now - armed_at < sc_retry_delay s then defer_lane drv lane s
           else rearm lane s
   })"

primrec settle_all :: "'d Driver \<Rightarrow> 'd arming \<Rightarrow> settlement list \<Rightarrow> 'd AcceptScheduler \<Rightarrow> 'd AcceptScheduler option" where
  "settle_all drv rearm [] s = Some s"
| "settle_all drv rearm (x # xs) s = do {
     s \<leftarrow> settle_one drv rearm x s;
     settle_all drv rearm xs s
   }"

text \<open>One start of the inner loop: whether the loop goes on, and the state.\<close>

definition start_one :: "'d Driver \<Rightarrow> 'd arming \<Rightarrow> nat \<Rightarrow> 'd AcceptScheduler \<Rightarrow> (bool \<times> 'd AcceptScheduler) option" where
  "start_one drv rearm lane s = do {
     s \<leftarrow> set_lane s lane (\<lambda>st. st\<lparr>l_pending := l_pending st + 1\<rparr>);
     let (now, d) = clock_now drv (sc_driver s);
         (status, settlements, d) = start_accept drv lane now d
     in do {
       s \<leftarrow> settle_all drv rearm settlements (s\<lparr>sc_driver := d\<rparr>);
       if status = Ok then Some (True, s)
       else do {
         st \<leftarrow> elem_at (sc_lanes s) lane;
         pending \<leftarrow> size_sub (l_pending st) 1;
         s \<leftarrow> set_lane s lane (\<lambda>st. st\<lparr>l_pending := pending\<rparr>);
         s \<leftarrow> (if status \<noteq> Closed then defer_lane drv lane s else Some s);
         Some (False, s)
       }
     }
   }"

primrec arm_starts :: "'d Driver \<Rightarrow> 'd arming \<Rightarrow> nat \<Rightarrow> 'd arming" where
  "arm_starts drv rearm 0 lane s = None"
| "arm_starts drv rearm (Suc fuel) lane s =
     (let (run, s) = running drv s in
      do {
        st \<leftarrow> elem_at (sc_lanes s) lane;
        if run \<and> \<not> l_retry_scheduled st \<and> l_pending st < sc_pending_per_lane s
        then do {
          (again, s) \<leftarrow> start_one drv rearm lane s;
          if again then arm_starts drv rearm fuel lane s else Some s
        }
        else Some s
      })"

primrec arm_passes :: "'d Driver \<Rightarrow> 'd arming \<Rightarrow> nat \<Rightarrow> 'd arming" where
  "arm_passes drv rearm 0 lane s = None"
| "arm_passes drv rearm (Suc fuel) lane s = do {
     s \<leftarrow> set_lane s lane (\<lambda>st. st\<lparr>l_arm_again := False\<rparr>);
     s \<leftarrow> arm_starts drv rearm fuel lane s;
     st \<leftarrow> elem_at (sc_lanes s) lane;
     if l_arm_again st then arm_passes drv rearm fuel lane s else Some s
   }"

primrec arm :: "'d Driver \<Rightarrow> nat \<Rightarrow> 'd arming" where
  "arm drv 0 lane s = None"
| "arm drv (Suc fuel) lane s = do {
     st \<leftarrow> elem_at (sc_lanes s) lane;
     if l_arming st then set_lane s lane (\<lambda>st. st\<lparr>l_arm_again := True\<rparr>)
     else do {
       s \<leftarrow> set_lane s lane (\<lambda>st. st\<lparr>l_arming := True\<rparr>);
       s \<leftarrow> arm_passes drv (arm drv fuel) fuel lane s;
       set_lane s lane (\<lambda>st. st\<lparr>l_arming := False\<rparr>)
     }
   }"

definition settled :: "'d Driver \<Rightarrow> nat \<Rightarrow> nat \<Rightarrow> int \<Rightarrow> bool \<Rightarrow> 'd AcceptScheduler \<Rightarrow> 'd AcceptScheduler option" where
  "settled drv fuel lane armed_at succeeded s = settle_one drv (arm drv fuel) (lane, armed_at, succeeded) s"

definition retry_due :: "'d Driver \<Rightarrow> nat \<Rightarrow> nat \<Rightarrow> 'd AcceptScheduler \<Rightarrow> 'd AcceptScheduler option" where
  "retry_due drv fuel lane s = do {
     s \<leftarrow> set_lane s lane (\<lambda>st. st\<lparr>l_retry_scheduled := False\<rparr>);
     arm drv fuel lane s
   }"

fun arm_lanes :: "'d Driver \<Rightarrow> nat \<Rightarrow> nat list \<Rightarrow> 'd AcceptScheduler \<Rightarrow> 'd AcceptScheduler option" where
  "arm_lanes drv fuel [] s = Some s"
| "arm_lanes drv fuel (lane # lanes) s = do {
     s \<leftarrow> arm drv fuel lane s;
     arm_lanes drv fuel lanes s
   }"

definition start :: "'d Driver \<Rightarrow> nat \<Rightarrow> nat \<Rightarrow> int \<Rightarrow> 'd AcceptScheduler \<Rightarrow> (StatusCode \<times> 'd AcceptScheduler) option" where
  "start drv fuel pending_per_lane retry_delay s =
     (if sc_lanes s = [] \<or> pending_per_lane = 0 \<or> retry_delay \<le> 0 then Some (InvalidArgument, s)
      else if sc_phase s \<noteq> Idle then Some (FailedPrecondition, s)
      else do {
        s \<leftarrow> arm_lanes drv fuel [0..<length (sc_lanes s)]
          (s\<lparr>sc_pending_per_lane := pending_per_lane, sc_retry_delay := retry_delay, sc_phase := Running\<rparr>);
        Some (Ok, s)
      })"

end
