(* ===== verification/Accept_Progress.thy ===== *)
theory Accept_Progress
  imports Accept_Scheduler
begin

text \<open>
  What the accept scheduler promises: while it runs, every listener has a pending start or a scheduled
  retry; after a failure it makes no further call of its driver; and arming ends when starts settle
  later. Settlements before a start returns can make it retry without a delay.
\<close>

section \<open>The driver\<close>

text \<open>
  The contract of a driver, over a predicate that says whether the owner is closing. As documented,
  \<^verbatim>\<open>owner_closing\<close> reports it, a refused start settles nothing, and a start refused with \<^verbatim>\<open>Closed\<close> means
  that the owner is closing. The scheduler also relies on that closing never ends, which its header
  does not say; the one driver, \<^verbatim>\<open>src/src/runtime/native_endpoint.cpp\<close>, keeps it.
\<close>

definition driver_ok :: "'d Driver \<Rightarrow> ('d \<Rightarrow> bool) \<Rightarrow> bool" where
  "driver_ok drv closing \<longleftrightarrow>
     (\<forall>lane now d status settlements d'. start_accept drv lane now d = (status, settlements, d') \<longrightarrow>
        (closing d \<longrightarrow> closing d') \<and> (status \<noteq> Ok \<longrightarrow> settlements = []) \<and> (status = Closed \<longrightarrow> closing d')) \<and>
     (\<forall>lane delay d. closing d \<longrightarrow> closing (snd (schedule_retry drv lane delay d))) \<and>
     (\<forall>lane d. closing d \<longrightarrow> closing (snd (listener_stopped drv lane d))) \<and>
     (\<forall>d. (closing d \<longrightarrow> closing (snd (owner_closing drv d))) \<and>
        fst (owner_closing drv d) = closing (snd (owner_closing drv d))) \<and>
     (\<forall>d. closing d \<longrightarrow> closing (snd (clock_now drv d))) \<and>
     (\<forall>code d. closing d \<longrightarrow> closing (report_failed drv code d))"

lemma driver_okD:
  assumes "driver_ok drv closing"
  shows "start_accept drv lane now d = (status, settlements, d') \<Longrightarrow>
      (closing d \<longrightarrow> closing d') \<and> (status \<noteq> Ok \<longrightarrow> settlements = []) \<and> (status = Closed \<longrightarrow> closing d')"
    and "schedule_retry drv lane delay d = (scheduled, d') \<Longrightarrow> closing d \<longrightarrow> closing d'"
    and "listener_stopped drv lane d = (stopped, d') \<Longrightarrow> closing d \<longrightarrow> closing d'"
    and "clock_now drv d = (now, d') \<Longrightarrow> closing d \<longrightarrow> closing d'"
proof -
  show "start_accept drv lane now d = (status, settlements, d') \<Longrightarrow>
      (closing d \<longrightarrow> closing d') \<and> (status \<noteq> Ok \<longrightarrow> settlements = []) \<and> (status = Closed \<longrightarrow> closing d')"
    using assms by (simp add: driver_ok_def)
  have "closing d \<longrightarrow> closing (snd (schedule_retry drv lane delay d))" "closing d \<longrightarrow> closing (snd (listener_stopped drv lane d))"
      "closing d \<longrightarrow> closing (snd (clock_now drv d))"
    using assms by (simp_all add: driver_ok_def)
  then show "schedule_retry drv lane delay d = (scheduled, d') \<Longrightarrow> closing d \<longrightarrow> closing d'"
      "listener_stopped drv lane d = (stopped, d') \<Longrightarrow> closing d \<longrightarrow> closing d'"
      "clock_now drv d = (now, d') \<Longrightarrow> closing d \<longrightarrow> closing d'"
    by simp_all
qed

section \<open>The invariant\<close>

definition covered :: "('d \<Rightarrow> bool) \<Rightarrow> 'd AcceptScheduler \<Rightarrow> nat \<Rightarrow> bool" where
  "covered closing s lane \<longleftrightarrow>
     sc_phase s \<noteq> Running \<or> closing (sc_driver s) \<or>
     l_pending (sc_lanes s ! lane) \<noteq> 0 \<or> l_retry_scheduled (sc_lanes s ! lane)"

text \<open>Every lane outside \<open>X\<close> that no call is arming is covered.\<close>

definition lanes_ok :: "('d \<Rightarrow> bool) \<Rightarrow> nat set \<Rightarrow> 'd AcceptScheduler \<Rightarrow> bool" where
  "lanes_ok closing X s \<longleftrightarrow>
     (sc_phase s = Running \<longrightarrow> 0 < sc_pending_per_lane s) \<and>
     (\<forall>lane < length (sc_lanes s).
        l_pending (sc_lanes s ! lane) \<le> sc_pending_per_lane s \<and>
        (lane \<notin> X \<and> \<not> l_arming (sc_lanes s ! lane) \<longrightarrow> covered closing s lane))"

text \<open>What no call changes, and what only goes one way.\<close>

definition later :: "('d \<Rightarrow> bool) \<Rightarrow> 'd AcceptScheduler \<Rightarrow> 'd AcceptScheduler \<Rightarrow> bool" where
  "later closing s s' \<longleftrightarrow>
     map l_arming (sc_lanes s') = map l_arming (sc_lanes s) \<and>
     sc_pending_per_lane s' = sc_pending_per_lane s \<and> sc_retry_delay s' = sc_retry_delay s \<and>
     (sc_phase s' = sc_phase s \<or> sc_phase s = Running \<and> sc_phase s' = Failed) \<and>
     (closing (sc_driver s) \<longrightarrow> closing (sc_driver s'))"

lemma later_refl [simp]: "later closing s s"
  by (simp add: later_def)

lemma later_trans: "later closing a b \<Longrightarrow> later closing b c \<Longrightarrow> later closing a c"
  by (auto simp: later_def)

lemma later_length: "later closing s s' \<Longrightarrow> length (sc_lanes s') = length (sc_lanes s)"
  unfolding later_def by (metis length_map)

lemma later_arming: "later closing s s' \<Longrightarrow> lane < length (sc_lanes s) \<Longrightarrow>
    l_arming (sc_lanes s' ! lane) = l_arming (sc_lanes s ! lane)"
  unfolding later_def by (metis length_map nth_map)

lemma set_lane_Some:
  "set_lane s lane change = Some s' \<longleftrightarrow>
    lane < length (sc_lanes s) \<and> s' = s\<lparr>sc_lanes := (sc_lanes s)[lane := change (sc_lanes s ! lane)]\<rparr>"
  by (auto simp: set_lane_def elem_at_def put_elem_def split: if_splits)

lemma later_set_lane:
  assumes "set_lane s lane change = Some s'" and "\<And>st. l_arming (change st) = l_arming st"
  shows "later closing s s'"
  using assms by (auto simp: set_lane_Some later_def map_update map_update [symmetric] list_update_same_conv)

lemma lanes_ok_later:
  assumes "lanes_ok closing X s" and "later closing s s'" and "sc_lanes s' = sc_lanes s"
  shows "lanes_ok closing X s'"
  using assms by (auto simp: lanes_ok_def later_def covered_def)

lemma lanes_ok_mono: "lanes_ok closing X s \<Longrightarrow> X \<subseteq> Y \<Longrightarrow> lanes_ok closing Y s"
  by (auto simp: lanes_ok_def)

text \<open>A lane that became covered, or is being armed, needs no exemption.\<close>

lemma lanes_ok_covered:
  assumes "lanes_ok closing (insert lane X) s" and "covered closing s lane \<or> l_arming (sc_lanes s ! lane)"
  shows "lanes_ok closing X s"
  using assms by (auto simp: lanes_ok_def)

lemma lanes_ok_set_lane:
  assumes "lanes_ok closing X s" and "set_lane s lane change = Some s'"
    and "l_pending (change (sc_lanes s ! lane)) \<le> sc_pending_per_lane s"
  shows "lanes_ok closing (insert lane X) s'"
  using assms by (auto simp: lanes_ok_def set_lane_Some covered_def nth_list_update)

lemma running_cases:
  assumes "driver_ok drv closing" and "running drv s = (run, s')"
  obtains d where "s' = s\<lparr>sc_driver := d\<rparr>" and "closing (sc_driver s) \<longrightarrow> closing d"
    and "run \<longleftrightarrow> sc_phase s = Running \<and> \<not> closing d"
proof (cases "sc_phase s = Running")
  case True
  then have "s' = s\<lparr>sc_driver := snd (owner_closing drv (sc_driver s))\<rparr>" "run = (\<not> fst (owner_closing drv (sc_driver s)))"
    using assms(2) by (auto simp: running_def split: prod.splits)
  with assms(1) True that [of "snd (owner_closing drv (sc_driver s))"] show ?thesis by (simp add: driver_ok_def)
next
  case False
  with assms(2) that [of "sc_driver s"] show ?thesis by (simp add: running_def)
qed

lemma later_driver: "closing (sc_driver s) \<longrightarrow> closing d \<Longrightarrow> later closing s (s\<lparr>sc_driver := d\<rparr>)"
  by (simp add: later_def)

lemma fail_ok:
  assumes "driver_ok drv closing"
  shows "later closing s (fail drv code s)" and "sc_lanes (fail drv code s) = sc_lanes s"
    and "sc_phase (fail drv code s) \<noteq> Running"
  using assms by (auto simp: fail_def later_def driver_ok_def)

lemma defer_lane_ok:
  assumes "driver_ok drv closing" and "defer_lane drv lane s = Some s'" and "lanes_ok closing (insert lane X) s"
  shows "lanes_ok closing X s' \<and> later closing s s' \<and> covered closing s' lane"
proof -
  have lane: "lane < length (sc_lanes s)" and st: "elem_at (sc_lanes s) lane = Some (sc_lanes s ! lane)"
    using assms(2) by (auto simp: defer_lane_def elem_at_def split: if_splits)
  have reach: ?thesis if "later closing s t" "sc_lanes t = sc_lanes s" "covered closing t lane" "s' = t" for t
    using that lanes_ok_later [OF assms(3) that(1,2)] lanes_ok_covered by blast
  show ?thesis
  proof (cases "l_retry_scheduled (sc_lanes s ! lane)")
    case True
    with assms(2) st show ?thesis by (intro reach [of s]) (simp_all add: defer_lane_def covered_def)
  next
    case False
    obtain run s1 where run: "running drv s = (run, s1)" by fastforce
    obtain d where d: "s1 = s\<lparr>sc_driver := d\<rparr>" "closing (sc_driver s) \<longrightarrow> closing d" "run \<longleftrightarrow> sc_phase s = Running \<and> \<not> closing d"
      by (rule running_cases [OF assms(1) run])
    obtain scheduled d2 where sched: "schedule_retry drv lane (sc_retry_delay s) d = (scheduled, d2)" by fastforce
    have d2: "closing d \<longrightarrow> closing d2" by (rule driver_okD(2) [OF assms(1) sched])
    let ?t = "s\<lparr>sc_driver := d2\<rparr>"
    have t: "later closing s ?t" using d(2) d2 by (intro later_driver) blast
    have result: "Some s' = (if \<not> run then Some s1 else if scheduled then set_lane ?t lane (\<lambda>st. st\<lparr>l_retry_scheduled := True\<rparr>)
        else if l_pending (sc_lanes s ! lane) = 0 then Some (fail drv ResourceExhausted ?t) else Some ?t)"
      using assms(2) False st run sched by (cases run; cases scheduled; cases "l_pending (sc_lanes s ! lane) = 0") (simp_all add: defer_lane_def d(1) Let_def)
    show ?thesis
    proof (cases "run \<and> scheduled")
      case True
      then have set: "set_lane ?t lane (\<lambda>st. st\<lparr>l_retry_scheduled := True\<rparr>) = Some s'" using result by simp
      have "lanes_ok closing (insert lane (insert lane X)) s'"
        by (rule lanes_ok_set_lane [OF lanes_ok_later [OF assms(3) t] set]) (use assms(3) lane in \<open>simp_all add: lanes_ok_def\<close>)
      moreover have "covered closing s' lane" using set lane unfolding set_lane_Some covered_def by simp
      moreover have "later closing ?t s'" by (rule later_set_lane [OF set]) simp
      ultimately show ?thesis using later_trans [OF t, of s'] lanes_ok_covered [of closing lane X s'] by simp
    next
      case False
      consider "s' = s1" "\<not> run" | "s' = fail drv ResourceExhausted ?t" | "s' = ?t" "l_pending (sc_lanes s ! lane) \<noteq> 0"
        using result False by (cases run; cases "l_pending (sc_lanes s ! lane) = 0") simp_all
      then show ?thesis
      proof cases
        case 1
        then show ?thesis using d(1,3) later_driver [OF d(2)] by (intro reach [of s1]) (auto simp: covered_def)
      next
        case 2
        then show ?thesis
          using fail_ok [OF assms(1), where s = "?t" and code = ResourceExhausted] later_trans [OF t]
          by (intro reach [of s']) (auto simp: covered_def)
      next
        case 3
        then show ?thesis using t by (intro reach [of ?t]) (auto simp: covered_def)
      qed
    qed
  qed
qed

section \<open>Settlements and arming\<close>

text \<open>A nested call of \<^verbatim>\<open>arm\<close> covers its lane and leaves the others as good as they were.\<close>

definition arms :: "('d \<Rightarrow> bool) \<Rightarrow> 'd arming \<Rightarrow> bool" where
  "arms closing rearm \<longleftrightarrow>
     (\<forall>X lane s s'. lanes_ok closing (insert lane X) s \<and> rearm lane s = Some s' \<longrightarrow>
        lanes_ok closing X s' \<and> later closing s s')"

lemma settle_one_ok:
  assumes "driver_ok drv closing" and "arms closing rearm" and "settle_one drv rearm x s = Some s'"
    and "lanes_ok closing X s"
  shows "lanes_ok closing X s' \<and> later closing s s'"
proof -
  obtain lane armed_at succeeded where x: "x = (lane, armed_at, succeeded)" by (cases x)
  let ?less = "\<lambda>st :: LaneState. if l_pending st \<noteq> 0 then st\<lparr>l_pending := l_pending st - 1\<rparr> else st"
  obtain s1 where s1: "set_lane s lane ?less = Some s1"
    using assms(3) by (cases "set_lane s lane ?less") (simp_all add: settle_one_def x)
  have lane: "lane < length (sc_lanes s)" using s1 by (simp add: set_lane_Some)
  have ok1: "lanes_ok closing (insert lane X) s1"
    by (rule lanes_ok_set_lane [OF assms(4) s1]) (use assms(4) lane in \<open>auto simp: lanes_ok_def intro: le_trans [OF diff_le_self]\<close>)
  have l1: "later closing s s1" by (rule later_set_lane [OF s1]) simp
  obtain run s2 where run: "running drv s1 = (run, s2)" by fastforce
  obtain d where d: "s2 = s1\<lparr>sc_driver := d\<rparr>" "closing (sc_driver s1) \<longrightarrow> closing d" "run \<longleftrightarrow> sc_phase s1 = Running \<and> \<not> closing d"
    by (rule running_cases [OF assms(1) run])
  have l2: "later closing s1 s2" unfolding d(1) by (rule later_driver [OF d(2)])
  have ok2: "lanes_ok closing (insert lane X) s2" by (rule lanes_ok_later [OF ok1 l2]) (simp add: d(1))
  have rearm: ?thesis if "later closing s2 t" "sc_lanes t = sc_lanes s2" "rearm lane t = Some s'" for t
    using assms(2) lanes_ok_later [OF ok2 that(1,2)] that(3) later_trans [OF l1 later_trans [OF l2 that(1)]] later_trans
    unfolding arms_def by blast
  obtain stopped d3 where stopped: "listener_stopped drv lane (sc_driver s2) = (stopped, d3)" by fastforce
  obtain now d4 where now: "clock_now drv d3 = (now, d4)" by fastforce
  let ?s3 = "s2\<lparr>sc_driver := d3\<rparr>" and ?s4 = "s2\<lparr>sc_driver := d4\<rparr>"
  have l3: "later closing s2 ?s3" by (rule later_driver [OF driver_okD(3) [OF assms(1) stopped]])
  have l4: "later closing s2 ?s4"
    using driver_okD(3) [OF assms(1) stopped] driver_okD(4) [OF assms(1) now] by (intro later_driver) blast
  have result: "Some s' = (if \<not> run then Some s2 else if succeeded then rearm lane s2
      else if stopped then Some (fail drv Closed ?s3)
      else if now - armed_at < sc_retry_delay s2 then defer_lane drv lane ?s4 else rearm lane ?s4)"
    using assms(3) s1 run stopped now
    by (cases run; cases succeeded; cases stopped; cases "now - armed_at < sc_retry_delay s2") (simp_all add: settle_one_def x Let_def)
  consider (off) "\<not> run" "s' = s2" | (arm) "rearm lane s2 = Some s'" | (stop) "s' = fail drv Closed ?s3"
    | (wait) "defer_lane drv lane ?s4 = Some s'" | (late) "rearm lane ?s4 = Some s'"
    using result by (cases run; cases succeeded; cases stopped; cases "now - armed_at < sc_retry_delay s2") simp_all
  then show ?thesis
  proof cases
    case off
    then have "covered closing s2 lane" using d by (auto simp: covered_def)
    with off lanes_ok_covered [OF ok2] later_trans [OF l1 l2] show ?thesis by simp
  next
    case arm
    show ?thesis by (rule rearm [OF _ _ arm]) simp_all
  next
    case stop
    note f = fail_ok [OF assms(1), where s = "?s3" and code = Closed]
    have "later closing s2 s'" unfolding stop by (rule later_trans [OF l3 f(1)])
    moreover have "lanes_ok closing (insert lane X) s'"
      by (rule lanes_ok_later [OF ok2 calculation]) (simp add: stop f(2))
    moreover have "covered closing s' lane" using f(3) by (simp add: stop covered_def)
    ultimately show ?thesis using lanes_ok_covered later_trans [OF l1 later_trans [OF l2]] by blast
  next
    case wait
    have "lanes_ok closing (insert lane X) ?s4" by (rule lanes_ok_later [OF ok2 l4]) simp
    from defer_lane_ok [OF assms(1) wait this] show ?thesis
      using later_trans [OF l1 later_trans [OF l2 later_trans [OF l4]]] by blast
  next
    case late
    show ?thesis by (rule rearm [OF l4 _ late]) simp
  qed
qed

lemma settle_all_ok:
  assumes "driver_ok drv closing" and "arms closing rearm"
  shows "settle_all drv rearm xs s = Some s' \<Longrightarrow> lanes_ok closing X s \<Longrightarrow> lanes_ok closing X s' \<and> later closing s s'"
proof (induction xs arbitrary: s)
  case (Cons x xs)
  then obtain t where t: "settle_one drv rearm x s = Some t" "settle_all drv rearm xs t = Some s'"
    by (auto split: Option.bind_splits)
  from settle_one_ok [OF assms t(1) Cons.prems(2)] Cons.IH [OF t(2)] show ?case using later_trans by blast
qed simp

lemma start_one_ok:
  assumes "driver_ok drv closing" and "arms closing rearm" and "start_one drv rearm lane s = Some (again, s')"
    and "lanes_ok closing X s" and "l_arming (sc_lanes s ! lane)"
    and "l_pending (sc_lanes s ! lane) < sc_pending_per_lane s"
  shows "lanes_ok closing X s' \<and> later closing s s' \<and> (\<not> again \<longrightarrow> covered closing s' lane)"
proof -
  let ?more = "\<lambda>st :: LaneState. st\<lparr>l_pending := l_pending st + 1\<rparr>"
  obtain s1 where s1: "set_lane s lane ?more = Some s1"
    using assms(3) by (cases "set_lane s lane ?more") (simp_all add: start_one_def)
  have lane: "lane < length (sc_lanes s)" using s1 by (simp add: set_lane_Some)
  have l1: "later closing s s1" by (rule later_set_lane [OF s1]) simp
  obtain now d1 where now: "clock_now drv (sc_driver s1) = (now, d1)" by fastforce
  obtain status xs d2 where start: "start_accept drv lane now d1 = (status, xs, d2)" by (metis prod_cases3)
  note contract = driver_okD(1) [OF assms(1) start]
  let ?s2 = "s1\<lparr>sc_driver := d2\<rparr>"
  have l2: "later closing s1 ?s2" using driver_okD(4) [OF assms(1) now] contract by (intro later_driver) blast
  have ok2: "lanes_ok closing X ?s2"
  proof (rule lanes_ok_later [OF _ l2])
    have "lanes_ok closing (insert lane X) s1" by (rule lanes_ok_set_lane [OF assms(4) s1]) (use assms(6) in simp)
    then show "lanes_ok closing X s1"
      by (rule lanes_ok_covered) (use later_arming [OF l1 lane] assms(5) in simp)
  qed simp
  obtain s3 where s3: "settle_all drv rearm xs ?s2 = Some s3"
    using assms(3) s1 now start by (cases "settle_all drv rearm xs ?s2") (simp_all add: start_one_def)
  have ok3: "lanes_ok closing X s3" "later closing ?s2 s3" using settle_all_ok [OF assms(1,2) s3 ok2] by simp_all
  have l3: "later closing s s3" by (rule later_trans [OF l1 later_trans [OF l2 ok3(2)]])
  show ?thesis
  proof (cases "status = Ok")
    case True
    then have "again" "s' = s3" using assms(3) s1 now start s3 by (simp_all add: start_one_def)
    with ok3 l3 show ?thesis by simp
  next
    case False
    then have s3': "s3 = ?s2" using contract s3 by simp
    have pending: "l_pending (sc_lanes s3 ! lane) = l_pending (sc_lanes s ! lane) + 1"
      using s1 lane by (auto simp: s3' set_lane_Some)
    let ?undone = "\<lambda>st :: LaneState. st\<lparr>l_pending := l_pending (sc_lanes s ! lane)\<rparr>"
    have lane3: "lane < length (sc_lanes s3)" using later_length [OF l3] lane by simp
    obtain s4 where s4: "set_lane s3 lane ?undone = Some s4" using lane3 by (simp add: set_lane_Some)
    have ok4: "lanes_ok closing (insert lane X) s4"
      by (rule lanes_ok_set_lane [OF ok3(1) s4]) (use assms(6) l3 in \<open>simp add: later_def\<close>)
    have l4: "later closing s3 s4" by (rule later_set_lane [OF s4]) simp
    have result: "\<not> again" "(if status \<noteq> Closed then defer_lane drv lane s4 else Some s4) = Some s'"
      using assms(3) s1 now start s3 False lane3 pending s4
      by (auto simp: start_one_def split: Option.bind_splits if_splits)
    show ?thesis
    proof (cases "status = Closed")
      case True
      have "closing (sc_driver s4)" using True contract l4 s3' by (auto simp: later_def)
      then have "covered closing s4 lane" by (simp add: covered_def)
      with True result lanes_ok_covered [OF ok4] later_trans [OF l3 l4] show ?thesis by simp
    next
      case False
      then have "defer_lane drv lane s4 = Some s'" using result by simp
      from defer_lane_ok [OF assms(1) this ok4] show ?thesis using later_trans [OF l3 later_trans [OF l4]] by blast
    qed
  qed
qed

lemma arm_starts_ok:
  assumes "driver_ok drv closing" and "arms closing rearm"
  shows "arm_starts drv rearm fuel lane s = Some s' \<Longrightarrow> lanes_ok closing X s \<Longrightarrow> l_arming (sc_lanes s ! lane) \<Longrightarrow>
    lanes_ok closing X s' \<and> later closing s s' \<and> covered closing s' lane"
proof (induction fuel arbitrary: s)
  case (Suc fuel)
  obtain run s1 where run: "running drv s = (run, s1)" by fastforce
  obtain d where d: "s1 = s\<lparr>sc_driver := d\<rparr>" "closing (sc_driver s) \<longrightarrow> closing d" "run \<longleftrightarrow> sc_phase s = Running \<and> \<not> closing d"
    by (rule running_cases [OF assms(1) run])
  have l1: "later closing s s1" unfolding d(1) by (rule later_driver [OF d(2)])
  have ok1: "lanes_ok closing X s1" by (rule lanes_ok_later [OF Suc.prems(2) l1]) (simp add: d(1))
  have lane: "lane < length (sc_lanes s1)" using Suc.prems(1) run by (auto simp: elem_at_def split: if_splits)
  have arming: "l_arming (sc_lanes s1 ! lane)" using Suc.prems(3) d(1) by simp
  show ?case
  proof (cases "run \<and> \<not> l_retry_scheduled (sc_lanes s1 ! lane) \<and> l_pending (sc_lanes s1 ! lane) < sc_pending_per_lane s1")
    case False
    then have s': "s' = s1" using Suc.prems(1) run lane by (auto split: if_splits)
    have "covered closing s1 lane"
      using False d ok1 by (cases "sc_phase s1 = Running") (auto simp: covered_def lanes_ok_def)
    with s' ok1 l1 show ?thesis by simp
  next
    case True
    then obtain again s2 where s2: "start_one drv rearm lane s1 = Some (again, s2)"
        "(if again then arm_starts drv rearm fuel lane s2 else Some s2) = Some s'"
      using Suc.prems(1) run lane by (auto split: Option.bind_splits)
    have one: "lanes_ok closing X s2" "later closing s1 s2" "\<not> again \<longrightarrow> covered closing s2 lane"
      using start_one_ok [OF assms s2(1) ok1 arming] True by simp_all
    show ?thesis
    proof (cases again)
      case True
      with s2(2) Suc.IH [of s2] one(1) later_arming [OF one(2) lane] arming
      have "lanes_ok closing X s' \<and> later closing s2 s' \<and> covered closing s' lane" by simp
      with later_trans [OF l1 later_trans [OF one(2)]] show ?thesis by blast
    next
      case False
      with s2(2) one later_trans [OF l1 one(2)] show ?thesis by simp
    qed
  qed
qed simp

lemma arm_passes_ok:
  assumes "driver_ok drv closing" and "arms closing rearm"
  shows "arm_passes drv rearm fuel lane s = Some s' \<Longrightarrow> lanes_ok closing X s \<Longrightarrow> l_arming (sc_lanes s ! lane) \<Longrightarrow>
    lanes_ok closing X s' \<and> later closing s s' \<and> covered closing s' lane"
proof (induction fuel arbitrary: s)
  case (Suc fuel)
  obtain s1 s2 where s1: "set_lane s lane (\<lambda>st. st\<lparr>l_arm_again := False\<rparr>) = Some s1"
      and s2: "arm_starts drv rearm fuel lane s1 = Some s2"
      and rest: "lane < length (sc_lanes s2)" "(if l_arm_again (sc_lanes s2 ! lane) then arm_passes drv rearm fuel lane s2 else Some s2) = Some s'"
    using Suc.prems(1) by (auto simp: elem_at_def split: Option.bind_splits if_splits)
  have lane: "lane < length (sc_lanes s)" using s1 by (simp add: set_lane_Some)
  have l1: "later closing s s1" by (rule later_set_lane [OF s1]) simp
  have arming: "l_arming (sc_lanes s1 ! lane)" using later_arming [OF l1 lane] Suc.prems(3) by simp
  have "lanes_ok closing (insert lane X) s1"
    by (rule lanes_ok_set_lane [OF Suc.prems(2) s1]) (use Suc.prems(2) lane in \<open>simp add: lanes_ok_def\<close>)
  then have "lanes_ok closing X s1" by (rule lanes_ok_covered) (simp add: arming)
  from arm_starts_ok [OF assms s2 this arming]
  have one: "lanes_ok closing X s2" "later closing s1 s2" "covered closing s2 lane" by simp_all
  have arming2: "l_arming (sc_lanes s2 ! lane)"
    using later_arming [OF one(2)] later_length [OF l1] lane arming by simp
  show ?case
  proof (cases "l_arm_again (sc_lanes s2 ! lane)")
    case True
    with rest Suc.IH [of s2] one(1) arming2 have "lanes_ok closing X s' \<and> later closing s2 s' \<and> covered closing s' lane" by simp
    with later_trans [OF l1 later_trans [OF one(2)]] show ?thesis by blast
  next
    case False
    with rest one later_trans [OF l1 one(2)] show ?thesis by simp
  qed
qed simp

lemma later_swap_arming:
  assumes "set_lane s lane (\<lambda>st. st\<lparr>l_arming := True\<rparr>) = Some s1" and "later closing s1 s2"
    and "set_lane s2 lane (\<lambda>st. st\<lparr>l_arming := False\<rparr>) = Some s3" and "\<not> l_arming (sc_lanes s ! lane)"
  shows "later closing s s3"
proof -
  have "map l_arming (sc_lanes s3) = (map l_arming (sc_lanes s2))[lane := False]" using assms(3) by (auto simp: set_lane_Some map_update)
  also have "\<dots> = (map l_arming (sc_lanes s1))[lane := False]" using assms(2) by (simp add: later_def)
  also have "\<dots> = map l_arming (sc_lanes s)"
    using assms(1,4) by (auto simp: set_lane_Some map_update list_update_same_conv)
  finally show ?thesis using assms(1-3) by (auto simp: later_def set_lane_Some)
qed

lemma arm_ok:
  assumes "driver_ok drv closing"
  shows "arms closing (arm drv fuel)"
proof (induction fuel)
  case (Suc fuel)
  show ?case
    unfolding arms_def
  proof (intro allI impI, elim conjE)
    fix X lane s s'
    assume ok: "lanes_ok closing (insert lane X) s" and arm: "arm drv (Suc fuel) lane s = Some s'"
    have lane: "lane < length (sc_lanes s)" using arm by (auto simp: elem_at_def split: if_splits)
    have bound: "l_pending (sc_lanes s ! lane) \<le> sc_pending_per_lane s" using ok lane by (simp add: lanes_ok_def)
    show "lanes_ok closing X s' \<and> later closing s s'"
    proof (cases "l_arming (sc_lanes s ! lane)")
      case True
      then have s': "set_lane s lane (\<lambda>st. st\<lparr>l_arm_again := True\<rparr>) = Some s'" using arm lane by simp
      have l: "later closing s s'" by (rule later_set_lane [OF s']) simp
      have "lanes_ok closing (insert lane X) s'" using lanes_ok_set_lane [OF ok s'] bound by simp
      then have "lanes_ok closing X s'" by (rule lanes_ok_covered) (use later_arming [OF l lane] True in simp)
      with l show ?thesis by simp
    next
      case False
      then obtain s1 s2 where s1: "set_lane s lane (\<lambda>st. st\<lparr>l_arming := True\<rparr>) = Some s1"
          and s2: "arm_passes drv (arm drv fuel) fuel lane s1 = Some s2"
          and s3: "set_lane s2 lane (\<lambda>st. st\<lparr>l_arming := False\<rparr>) = Some s'"
        using arm lane by (auto split: Option.bind_splits)
      have arming: "l_arming (sc_lanes s1 ! lane)" using s1 by (auto simp: set_lane_Some)
      have "lanes_ok closing (insert lane X) s1" using lanes_ok_set_lane [OF ok s1] bound by simp
      then have "lanes_ok closing X s1" by (rule lanes_ok_covered) (simp add: arming)
      from arm_passes_ok [OF assms Suc s2 this arming]
      have two: "lanes_ok closing X s2" "later closing s1 s2" "covered closing s2 lane" by simp_all
      have lane2: "lane < length (sc_lanes s2)" using s3 by (simp add: set_lane_Some)
      have "lanes_ok closing (insert lane X) s'"
        by (rule lanes_ok_set_lane [OF two(1) s3]) (use two(1) lane2 in \<open>simp add: lanes_ok_def\<close>)
      moreover have "covered closing s' lane" using two(3) s3 by (auto simp: set_lane_Some covered_def)
      ultimately have "lanes_ok closing X s'" using lanes_ok_covered by blast
      with later_swap_arming [OF s1 two(2) s3 False] show ?thesis by simp
    qed
  qed
qed (simp add: arms_def)

section \<open>Every listener is covered\<close>

text \<open>
  The states between two calls. The driver changes its state on its own, and the owner may begin to
  close, but closing never ends.
\<close>

inductive scheduler_reachable :: "'d Driver \<Rightarrow> ('d \<Rightarrow> bool) \<Rightarrow> 'd AcceptScheduler \<Rightarrow> bool" for drv closing where
  created: "scheduler_reachable drv closing (new_AcceptScheduler d lanes)"
| starting: "scheduler_reachable drv closing s \<Longrightarrow> start drv fuel pending_per_lane retry_delay s = Some (status, s') \<Longrightarrow>
    scheduler_reachable drv closing s'"
| settling: "scheduler_reachable drv closing s \<Longrightarrow> settled drv fuel lane armed_at succeeded s = Some s' \<Longrightarrow>
    scheduler_reachable drv closing s'"
| retrying: "scheduler_reachable drv closing s \<Longrightarrow> retry_due drv fuel lane s = Some s' \<Longrightarrow> scheduler_reachable drv closing s'"
| moving: "scheduler_reachable drv closing s \<Longrightarrow> closing (sc_driver s) \<longrightarrow> closing d \<Longrightarrow>
    scheduler_reachable drv closing (s\<lparr>sc_driver := d\<rparr>)"

definition quiet :: "('d \<Rightarrow> bool) \<Rightarrow> 'd AcceptScheduler \<Rightarrow> bool" where
  "quiet closing s \<longleftrightarrow> lanes_ok closing {} s \<and> (\<forall>lane < length (sc_lanes s). \<not> l_arming (sc_lanes s ! lane)) \<and>
     (sc_phase s = Idle \<longrightarrow> sc_pending_per_lane s = 0)"

lemma arm_lanes_ok:
  assumes "driver_ok drv closing"
  shows "arm_lanes drv fuel lanes s = Some s' \<Longrightarrow> lanes_ok closing (set lanes) s \<Longrightarrow>
    lanes_ok closing {} s' \<and> later closing s s'"
proof (induction lanes arbitrary: s)
  case (Cons lane lanes)
  then obtain t where t: "arm drv fuel lane s = Some t" "arm_lanes drv fuel lanes t = Some s'"
    by (auto split: Option.bind_splits)
  have "lanes_ok closing (insert lane (set lanes)) s" using Cons.prems(2) by simp
  with arm_ok [OF assms, of fuel] t(1) have "lanes_ok closing (set lanes) t" "later closing s t"
    unfolding arms_def by blast+
  with Cons.IH [OF t(2)] show ?case using later_trans by blast
qed simp

lemma quiet_later:
  assumes "quiet closing s" and "lanes_ok closing {} s'" and "later closing s s'"
  shows "quiet closing s'"
proof -
  have "sc_phase s' = Idle \<longrightarrow> sc_pending_per_lane s' = 0" using assms(1,3) by (auto simp: quiet_def later_def)
  with assms later_length [OF assms(3)] later_arming [OF assms(3)] show ?thesis by (auto simp: quiet_def)
qed

lemma quiet_start:
  assumes "driver_ok drv closing" and "quiet closing s" and "start drv fuel pending_per_lane retry_delay s = Some (status, s')"
  shows "quiet closing s'"
proof (cases "status = Ok \<and> sc_phase s = Idle")
  case False
  then have "s' = s" using assms(3) by (auto simp: start_def split: if_splits Option.bind_splits)
  with assms(2) show ?thesis by simp
next
  case True
  let ?s = "s\<lparr>sc_pending_per_lane := pending_per_lane, sc_retry_delay := retry_delay, sc_phase := Running\<rparr>"
  have run: "0 < pending_per_lane" "arm_lanes drv fuel [0..<length (sc_lanes s)] ?s = Some s'"
    using True assms(3) by (auto simp: start_def split: if_splits Option.bind_splits)
  have "lanes_ok closing (set [0..<length (sc_lanes s)]) ?s"
    using True assms(2) run(1) by (auto simp: quiet_def lanes_ok_def)
  from arm_lanes_ok [OF assms(1) run(2) this]
  have s': "lanes_ok closing {} s'" "later closing ?s s'" by simp_all
  then have "sc_phase s' \<noteq> Idle" by (auto simp: later_def)
  with s' later_length [OF s'(2)] later_arming [OF s'(2)] assms(2) show ?thesis by (simp add: quiet_def)
qed

lemma quiet_retry:
  assumes "driver_ok drv closing" and "quiet closing s" and "retry_due drv fuel lane s = Some s'"
  shows "quiet closing s'"
proof -
  obtain t where t: "set_lane s lane (\<lambda>st. st\<lparr>l_retry_scheduled := False\<rparr>) = Some t" "arm drv fuel lane t = Some s'"
    using assms(3) by (auto simp: retry_due_def split: Option.bind_splits)
  have "lanes_ok closing (insert lane {}) t"
    by (rule lanes_ok_set_lane [OF _ t(1)]) (use assms(2) t(1) in \<open>auto simp: quiet_def lanes_ok_def set_lane_Some\<close>)
  with arm_ok [OF assms(1), of fuel] t(2) have "lanes_ok closing {} s'" "later closing t s'" unfolding arms_def by blast+
  moreover have "later closing s t" by (rule later_set_lane [OF t(1)]) simp
  ultimately show ?thesis using quiet_later [OF assms(2)] later_trans by blast
qed

lemma scheduler_quiet:
  assumes "driver_ok drv closing" and "scheduler_reachable drv closing s"
  shows "quiet closing s"
  using assms(2)
proof induction
  case (created d lanes)
  then show ?case by (auto simp: quiet_def lanes_ok_def covered_def new_AcceptScheduler_def)
next
  case (starting s fuel pending_per_lane retry_delay status s')
  show ?case by (rule quiet_start [OF assms(1) starting.IH starting.hyps(2)])
next
  case (settling s fuel lane armed_at succeeded s')
  have "lanes_ok closing {} s" using settling.IH by (simp add: quiet_def)
  from settle_one_ok [OF assms(1) arm_ok [OF assms(1)] settling.hyps(2) [unfolded settled_def] this]
  show ?case using quiet_later [OF settling.IH] by simp
next
  case (retrying s fuel lane s')
  show ?case by (rule quiet_retry [OF assms(1) retrying.IH retrying.hyps(2)])
next
  case (moving s d)
  have "later closing s (s\<lparr>sc_driver := d\<rparr>)" by (rule later_driver [OF moving.hyps(2)])
  moreover have "lanes_ok closing {} (s\<lparr>sc_driver := d\<rparr>)"
    by (rule lanes_ok_later [OF _ calculation]) (use moving.IH in \<open>simp_all add: quiet_def\<close>)
  ultimately show ?case using quiet_later [OF moving.IH] by simp
qed

text \<open>C15: With any driver that keeps its documented contract and whose owner, once closing, stays so, in every state between two calls, however
  starts settled before or after they returned: while the scheduler runs and its owner is not
  closing, every listener has a pending start or a scheduled retry; no listener has more pending
  starts than asked for, and none is left marked as being armed.\<close>

theorem listeners_covered:
  assumes "driver_ok drv closing" and "scheduler_reachable drv closing s" and "lane < length (sc_lanes s)"
  shows "(sc_phase s = Running \<and> \<not> closing (sc_driver s) \<longrightarrow>
      0 < l_pending (sc_lanes s ! lane) \<or> l_retry_scheduled (sc_lanes s ! lane)) \<and>
    l_pending (sc_lanes s ! lane) \<le> sc_pending_per_lane s \<and> \<not> l_arming (sc_lanes s ! lane)"
  using scheduler_quiet [OF assms(1,2)] assms(3) by (auto simp: quiet_def lanes_ok_def covered_def)

section \<open>After a failure\<close>

lemma running_stopped: "sc_phase s \<noteq> Running \<Longrightarrow> running drv s = (False, s)"
  by (simp add: running_def)

lemma set_lane_in:
  "lane < length (sc_lanes s) \<Longrightarrow>
    set_lane s lane change = Some (s\<lparr>sc_lanes := (sc_lanes s)[lane := change (sc_lanes s ! lane)]\<rparr>)"
  by (simp add: set_lane_Some)

lemma arm_stopped:
  assumes "sc_phase s \<noteq> Running" and "lane < length (sc_lanes s)"
  obtains s' where "arm drv (Suc (Suc (Suc fuel))) lane s = Some s'" and "sc_driver s' = sc_driver s" and "sc_phase s' = sc_phase s"
  using assms that by (cases "l_arming (sc_lanes s ! lane)") (auto simp: set_lane_in running_stopped)

text \<open>C28: A failure is final and silent. Once the scheduler has failed, every later settlement, retry and
  attempt to start returns, makes no call of the driver, so in particular starts nothing and
  reports nothing again, and leaves the scheduler failed.\<close>

theorem failure_is_final:
  assumes "sc_phase s = Failed" and "lane < length (sc_lanes s)" and "3 \<le> fuel"
  shows "(\<exists>s'. settled drv fuel lane armed_at succeeded s = Some s' \<and> sc_driver s' = sc_driver s \<and> sc_phase s' = Failed) \<and>
    (\<exists>s'. retry_due drv fuel lane s = Some s' \<and> sc_driver s' = sc_driver s \<and> sc_phase s' = Failed) \<and>
    (\<exists>status. start drv fuel pending_per_lane retry_delay s = Some (status, s) \<and> status \<noteq> Ok)"
proof (intro conjI)
  have stopped: "sc_phase t = Failed \<Longrightarrow> running drv t = (False, t)" for t by (simp add: running_stopped)
  show "\<exists>s'. settled drv fuel lane armed_at succeeded s = Some s' \<and> sc_driver s' = sc_driver s \<and> sc_phase s' = Failed"
    using assms(1,2) by (simp add: settled_def settle_one_def set_lane_in stopped)
  obtain k where fuel: "fuel = Suc (Suc (Suc k))" using le_Suc_ex [OF assms(3)] by (auto simp: eval_nat_numeral)
  let ?s = "s\<lparr>sc_lanes := (sc_lanes s)[lane := (sc_lanes s ! lane)\<lparr>l_retry_scheduled := False\<rparr>]\<rparr>"
  have "sc_phase ?s \<noteq> Running" "lane < length (sc_lanes ?s)" using assms(1,2) by simp_all
  from arm_stopped [OF this, of drv k] obtain s' where
    "arm drv fuel lane ?s = Some s'" "sc_driver s' = sc_driver s" "sc_phase s' = Failed"
    using assms(1) unfolding fuel by auto
  then show "\<exists>s'. retry_due drv fuel lane s = Some s' \<and> sc_driver s' = sc_driver s \<and> sc_phase s' = Failed"
    using assms(2) by (simp add: retry_due_def set_lane_in)
  show "\<exists>status. start drv fuel pending_per_lane retry_delay s = Some (status, s) \<and> status \<noteq> Ok"
    using assms(1) by (simp add: start_def)
qed

section \<open>Arming ends\<close>

definition settles_later :: "'d Driver \<Rightarrow> bool" where
  "settles_later drv \<longleftrightarrow> (\<forall>lane now d. fst (snd (start_accept drv lane now d)) = [])"

lemma defer_lane_returns:
  assumes "lane < length (sc_lanes s)"
  obtains s' where "defer_lane drv lane s = Some s'" and "length (sc_lanes s') = length (sc_lanes s)"
    and "l_arm_again (sc_lanes s' ! lane) = l_arm_again (sc_lanes s ! lane)"
proof -
  have lanes: "sc_lanes (snd (running drv t)) = sc_lanes t" for t :: "'a AcceptScheduler" by (simp add: running_def split: prod.split)
  obtain run s1 where run: "running drv s = (run, s1)" by fastforce
  then have s1: "sc_lanes s1 = sc_lanes s" using lanes [of s] by simp
  have "\<exists>s'. defer_lane drv lane s = Some s' \<and> length (sc_lanes s') = length (sc_lanes s) \<and>
      l_arm_again (sc_lanes s' ! lane) = l_arm_again (sc_lanes s ! lane)"
    using assms run s1 by (simp add: defer_lane_def set_lane_in fail_def Let_def split: prod.split)
  then show ?thesis using that by blast
qed

lemma start_one_returns:
  assumes "settles_later drv" and "lane < length (sc_lanes s)"
  obtains again s' where "start_one drv rearm lane s = Some (again, s')" and "length (sc_lanes s') = length (sc_lanes s)"
    and "l_arm_again (sc_lanes s' ! lane) = l_arm_again (sc_lanes s ! lane)"
    and "again \<longrightarrow> l_pending (sc_lanes s' ! lane) = l_pending (sc_lanes s ! lane) + 1 \<and>
      sc_pending_per_lane s' = sc_pending_per_lane s"
proof -
  obtain now d1 where now: "clock_now drv (sc_driver s) = (now, d1)" by fastforce
  obtain status d2 where start: "start_accept drv lane now d1 = (status, [], d2)"
    using assms(1) by (metis prod.collapse settles_later_def)
  let ?up = "(sc_lanes s ! lane)\<lparr>l_pending := l_pending (sc_lanes s ! lane) + 1\<rparr>"
  let ?s1 = "s\<lparr>sc_lanes := (sc_lanes s)[lane := ?up], sc_driver := d2\<rparr>"
  let ?s2 = "s\<lparr>sc_lanes := (sc_lanes s)[lane := (sc_lanes s ! lane)], sc_driver := d2\<rparr>"
  show ?thesis
  proof (cases "status = Ok")
    case True
    then have "start_one drv rearm lane s = Some (True, ?s1)" using assms(2) now start by (simp add: start_one_def set_lane_in)
    then show ?thesis by (rule that) (use assms(2) in simp_all)
  next
    case False
    have eq: "start_one drv rearm lane s
        = Option.bind (if status \<noteq> Closed then defer_lane drv lane ?s2 else Some ?s2) (\<lambda>s. Some (False, s))"
      using False assms(2) now start by (simp add: start_one_def set_lane_in)
    have lane: "lane < length (sc_lanes ?s2)" using assms(2) by simp
    obtain s' where s': "defer_lane drv lane ?s2 = Some s'" "length (sc_lanes s') = length (sc_lanes ?s2)"
        "l_arm_again (sc_lanes s' ! lane) = l_arm_again (sc_lanes ?s2 ! lane)"
      by (rule defer_lane_returns [OF lane])
    show ?thesis
      by (rule that [of False "if status \<noteq> Closed then s' else ?s2"]) (use eq s' assms(2) in auto)
  qed
qed

lemma arm_starts_returns:
  assumes "settles_later drv"
  shows "lane < length (sc_lanes s) \<Longrightarrow> sc_pending_per_lane s - l_pending (sc_lanes s ! lane) < fuel \<Longrightarrow>
    \<exists>s'. arm_starts drv rearm fuel lane s = Some s' \<and> length (sc_lanes s') = length (sc_lanes s) \<and>
      l_arm_again (sc_lanes s' ! lane) = l_arm_again (sc_lanes s ! lane)"
proof (induction fuel arbitrary: s)
  case (Suc fuel)
  obtain run s1 where run: "running drv s = (run, s1)" by fastforce
  then have s1: "sc_lanes s1 = sc_lanes s" "sc_pending_per_lane s1 = sc_pending_per_lane s"
    by (auto simp: running_def split: if_splits prod.splits)
  have lane: "lane < length (sc_lanes s1)" using Suc.prems(1) s1 by simp
  show ?case
  proof (cases "run \<and> \<not> l_retry_scheduled (sc_lanes s1 ! lane) \<and> l_pending (sc_lanes s1 ! lane) < sc_pending_per_lane s1")
    case False
    then have "arm_starts drv rearm (Suc fuel) lane s = Some s1" using run lane by auto
    with s1 show ?thesis by simp
  next
    case True
    obtain again s2 where s2: "start_one drv rearm lane s1 = Some (again, s2)" "length (sc_lanes s2) = length (sc_lanes s1)"
        "l_arm_again (sc_lanes s2 ! lane) = l_arm_again (sc_lanes s1 ! lane)"
        and more: "again \<longrightarrow> l_pending (sc_lanes s2 ! lane) = l_pending (sc_lanes s1 ! lane) + 1 \<and>
          sc_pending_per_lane s2 = sc_pending_per_lane s1"
      by (rule start_one_returns [OF assms lane, where rearm = rearm])
    have step: "arm_starts drv rearm (Suc fuel) lane s = (if again then arm_starts drv rearm fuel lane s2 else Some s2)"
      using run lane True s2(1) by simp
    show ?thesis
    proof (cases again)
      case False
      with step s2 s1 show ?thesis by simp
    next
      case again: True
      have "sc_pending_per_lane s2 - l_pending (sc_lanes s2 ! lane) < fuel"
        using mp [OF more again] Suc.prems(2) True s1 by auto
      moreover have "lane < length (sc_lanes s2)" using s2(2) lane by simp
      ultimately show ?thesis using Suc.IH [of s2] step again s2 s1 by auto
    qed
  qed
qed simp

lemma arm_returns:
  assumes "settles_later drv" and "lane < length (sc_lanes s)" and "sc_pending_per_lane s + 3 \<le> fuel"
  shows "\<exists>s'. arm drv fuel lane s = Some s' \<and> length (sc_lanes s') = length (sc_lanes s)"
proof (cases "l_arming (sc_lanes s ! lane)")
  case True
  obtain k where "fuel = Suc k" using assms(3) by (cases fuel) auto
  with True assms(2) show ?thesis by (simp add: set_lane_in)
next
  case False
  obtain k where fuel: "fuel = Suc (Suc k)" "sc_pending_per_lane s < k" using assms(3) by (cases fuel; cases "fuel - 1") auto
  let ?s1 = "s\<lparr>sc_lanes := (sc_lanes s)[lane := (sc_lanes s ! lane)\<lparr>l_arming := True, l_arm_again := False\<rparr>]\<rparr>"
  have "lane < length (sc_lanes ?s1)" "sc_pending_per_lane ?s1 - l_pending (sc_lanes ?s1 ! lane) < k" using assms(2) fuel(2) by auto
  from arm_starts_returns [OF assms(1) this, of "arm drv (Suc k)"] assms(2) obtain s2 where
    s2: "arm_starts drv (arm drv (Suc k)) k lane ?s1 = Some s2" "length (sc_lanes s2) = length (sc_lanes s)"
      "\<not> l_arm_again (sc_lanes s2 ! lane)" by auto
  have "arm_passes drv (arm drv (Suc k)) (Suc k) lane (s\<lparr>sc_lanes := (sc_lanes s)[lane := (sc_lanes s ! lane)\<lparr>l_arming := True\<rparr>]\<rparr>) = Some s2"
    using assms(2) s2 by (simp add: set_lane_in)
  then show ?thesis using False assms(2) s2(2) fuel(1) by (simp add: set_lane_in del: arm_passes.simps)
qed

lemma settle_one_returns:
  assumes "settles_later drv" and "lane < length (sc_lanes s)" and "sc_pending_per_lane s + 3 \<le> fuel"
  shows "\<exists>s'. settle_one drv (arm drv fuel) (lane, armed_at, succeeded) s = Some s'"
proof -
  let ?less = "\<lambda>st :: LaneState. if l_pending st \<noteq> 0 then st\<lparr>l_pending := l_pending st - 1\<rparr> else st"
  let ?s1 = "s\<lparr>sc_lanes := (sc_lanes s)[lane := ?less (sc_lanes s ! lane)]\<rparr>"
  obtain run s2 where run: "running drv ?s1 = (run, s2)" by fastforce
  then have s2: "length (sc_lanes s2) = length (sc_lanes s)" "sc_pending_per_lane s2 = sc_pending_per_lane s"
    by (auto simp: running_def split: if_splits prod.splits)
  have rearm: "\<exists>s'. arm drv fuel lane (s2\<lparr>sc_driver := d\<rparr>) = Some s'" for d
    using arm_returns [OF assms(1), of lane "s2\<lparr>sc_driver := d\<rparr>" fuel] s2 assms(2,3) by auto
  have wait: "\<exists>s'. defer_lane drv lane (s2\<lparr>sc_driver := d\<rparr>) = Some s'" for d
    by (rule defer_lane_returns [of lane "s2\<lparr>sc_driver := d\<rparr>" drv]) (use s2 assms(2) in auto)
  have "set_lane s lane ?less = Some ?s1" by (rule set_lane_in [OF assms(2)])
  then show ?thesis
    using run rearm rearm [of "sc_driver s2"] wait by (auto simp: settle_one_def Let_def split: prod.split)
qed

lemma arm_lanes_returns:
  assumes "driver_ok drv closing" and "settles_later drv"
  shows "lanes_ok closing (set lanes) s \<Longrightarrow> \<forall>lane \<in> set lanes. lane < length (sc_lanes s) \<Longrightarrow> sc_pending_per_lane s + 3 \<le> fuel \<Longrightarrow>
    \<exists>s'. arm_lanes drv fuel lanes s = Some s'"
proof (induction lanes arbitrary: s)
  case (Cons lane lanes)
  then obtain t where t: "arm drv fuel lane s = Some t" using arm_returns [OF assms(2), of lane s fuel] by auto
  have "lanes_ok closing (insert lane (set lanes)) s" using Cons.prems(1) by simp
  with arm_ok [OF assms(1), of fuel] t have "lanes_ok closing (set lanes) t" "later closing s t" unfolding arms_def by blast+
  moreover from this have "sc_pending_per_lane t = sc_pending_per_lane s" "length (sc_lanes t) = length (sc_lanes s)"
    using later_length by (auto simp: later_def)
  ultimately show ?case using Cons.IH [of t] Cons.prems(2,3) t by simp
qed simp

text \<open>C27: Every call of the scheduler returns when the driver settles its starts after it returned: three
  calls deeper than the number of starts to keep pending are enough, whatever the driver refuses,
  schedules or reports.\<close>

theorem arming_ends:
  assumes "driver_ok drv closing" and "settles_later drv" and "scheduler_reachable drv closing s"
    and "sc_pending_per_lane s + 3 \<le> fuel" and "pending_per_lane + 3 \<le> fuel"
  shows "(\<exists>r. start drv fuel pending_per_lane retry_delay s = Some r) \<and>
    (\<forall>lane < length (sc_lanes s). (\<exists>s'. settled drv fuel lane armed_at succeeded s = Some s') \<and>
      (\<exists>s'. retry_due drv fuel lane s = Some s'))"
proof (intro conjI allI impI)
  have quiet: "quiet closing s" by (rule scheduler_quiet [OF assms(1,3)])
  show "\<exists>r. start drv fuel pending_per_lane retry_delay s = Some r"
  proof (cases "sc_lanes s = [] \<or> pending_per_lane = 0 \<or> retry_delay \<le> 0 \<or> sc_phase s \<noteq> Idle")
    case True
    then show ?thesis by (auto simp: start_def)
  next
    case False
    let ?s = "s\<lparr>sc_pending_per_lane := pending_per_lane, sc_retry_delay := retry_delay, sc_phase := Running\<rparr>"
    have "lanes_ok closing (set [0..<length (sc_lanes s)]) ?s" using False quiet by (auto simp: quiet_def lanes_ok_def)
    from arm_lanes_returns [OF assms(1,2) this, of fuel] assms(5) show ?thesis using False by (auto simp: start_def)
  qed
  fix lane assume lane: "lane < length (sc_lanes s)"
  show "\<exists>s'. settled drv fuel lane armed_at succeeded s = Some s'"
    unfolding settled_def by (rule settle_one_returns [OF assms(2) lane assms(4)])
  show "\<exists>s'. retry_due drv fuel lane s = Some s'"
    using arm_returns [OF assms(2), of lane "s\<lparr>sc_lanes := (sc_lanes s)[lane := (sc_lanes s ! lane)\<lparr>l_retry_scheduled := False\<rparr>]\<rparr>" fuel]
      lane assms(4) by (auto simp: retry_due_def set_lane_in)
qed

section \<open>Retries without a delay\<close>

text \<open>
  A driver on one listener whose clock stands still. Its first start stays pending; every later one
  fails before it returns. A retry cannot be scheduled until \<open>k\<close> starts were made. The driver's
  state is the number of starts.
\<close>

definition burst :: "nat \<Rightarrow> nat Driver" where
  "burst k =
     \<lparr>start_accept = (\<lambda>lane now n. (Ok, if n = 0 then [] else [(lane, now, False)], n + 1)),
      schedule_retry = (\<lambda>lane delay n. (k \<le> n, n)),
      listener_stopped = (\<lambda>lane n. (False, n)),
      owner_closing = (\<lambda>n. (False, n)),
      clock_now = (\<lambda>n. (0, n)),
      report_failed = (\<lambda>code n. n)\<rparr>"

lemma burst_ok: "driver_ok (burst k) (\<lambda>n. False)"
  by (simp add: driver_ok_def burst_def)

definition burst_lane :: "nat \<Rightarrow> nat \<Rightarrow> bool \<Rightarrow> nat AcceptScheduler" where
  "burst_lane n pending retry =
     \<lparr>sc_driver = n, sc_lanes = [\<lparr>l_pending = pending, l_retry_scheduled = retry, l_arming = True, l_arm_again = False\<rparr>],
      sc_pending_per_lane = 2, sc_retry_delay = 100, sc_phase = Running\<rparr>"

lemma burst_start:
  "n \<noteq> 0 \<Longrightarrow> start_one (burst k) rearm 0 (burst_lane n 1 False) = Some (True, burst_lane (n + 1) 1 (k \<le> n + 1))"
  by (simp add: start_one_def burst_def burst_lane_def set_lane_in settle_one_def running_def defer_lane_def Let_def)

lemma burst_round:
  assumes "p < 2"
  shows "arm_starts (burst k) rearm (Suc fuel) 0 (burst_lane n p False)
    = Option.bind (start_one (burst k) rearm 0 (burst_lane n p False)) (\<lambda>(again, s).
        if again then arm_starts (burst k) rearm fuel 0 s else Some s)"
proof -
  have "running (burst k) (burst_lane n p False) = (True, burst_lane n p False)"
    by (simp add: running_def burst_def burst_lane_def)
  moreover have "elem_at (sc_lanes (burst_lane n p False)) 0 =
      Some \<lparr>l_pending = p, l_retry_scheduled = False, l_arming = True, l_arm_again = False\<rparr>"
      "sc_pending_per_lane (burst_lane n p False) = 2"
    by (simp_all add: burst_lane_def)
  ultimately show ?thesis using assms by simp
qed

lemma burst_starts:
  assumes "n \<noteq> 0"
  shows "arm_starts (burst (n + j)) rearm (Suc j) 0 (burst_lane n 1 (j = 0)) = Some (burst_lane (n + j) 1 True)"
  using assms
proof (induction j arbitrary: n)
  case 0
  then show ?case by (simp add: burst_def burst_lane_def running_def)
next
  case (Suc j)
  have one: "(1 :: nat) < 2" by simp
  have "arm_starts (burst (n + Suc j)) rearm (Suc (Suc j)) 0 (burst_lane n 1 False)
      = arm_starts (burst (n + Suc j)) rearm (Suc j) 0 (burst_lane (n + 1) 1 (j = 0))"
    unfolding burst_round [OF one] burst_start [OF Suc.prems] by (simp del: arm_starts.simps)
  also have "\<dots> = Some (burst_lane (n + Suc j) 1 True)" using Suc.IH [of "n + 1"] by (simp del: arm_starts.simps)
  finally show ?case by simp
qed

text \<open>
  The scheduler is meant to wait after a start that failed at once. With this driver it makes any number
  of starts at the same instant, each after the failure of the one before, without a retry delay:
  a failed start whose retry cannot be scheduled is forgotten while another start is pending, and
  the arming loop starts the next one.
\<close>

theorem retries_without_delay:
  "\<exists>s. start (burst (j + 2)) (j + 5) 2 100 (new_AcceptScheduler 0 1) = Some (Ok, s) \<and> sc_driver s = j + 2"
proof -
  let ?b = "burst (j + 2)" and ?s = "burst_lane 0 0 False" and ?t = "burst_lane (j + 2) 1 True"
  have first: "start_one ?b rearm 0 ?s = Some (True, burst_lane 1 1 False)" for rearm
    by (simp add: start_one_def burst_def burst_lane_def set_lane_in)
  have starts: "arm_starts ?b rearm (Suc (Suc (Suc j))) 0 ?s = Some ?t" for rearm
    using burst_starts [of 1 "Suc j" rearm] burst_round [of 0 "j + 2" rearm "Suc (Suc j)" 0] unfolding first
    by (simp del: arm_starts.simps)
  have passes: "arm_passes ?b rearm (Suc (Suc (Suc (Suc j)))) 0 ?s = Some ?t" for rearm
  proof -
    have "set_lane ?s 0 (\<lambda>st. st\<lparr>l_arm_again := False\<rparr>) = Some ?s" by (simp add: set_lane_in burst_lane_def)
    moreover have "elem_at (sc_lanes ?t) 0 = Some \<lparr>l_pending = 1, l_retry_scheduled = True, l_arming = True, l_arm_again = False\<rparr>"
      by (simp add: burst_lane_def)
    ultimately show ?thesis using starts [of rearm] by (simp del: arm_starts.simps)
  qed
  let ?n = "new_AcceptScheduler 0 1\<lparr>sc_pending_per_lane := 2, sc_retry_delay := 100, sc_phase := Running\<rparr>"
  have lane: "elem_at (sc_lanes ?n) 0 = Some \<lparr>l_pending = 0, l_retry_scheduled = False, l_arming = False, l_arm_again = False\<rparr>"
      "set_lane ?n 0 (\<lambda>st. st\<lparr>l_arming := True\<rparr>) = Some ?s"
    by (simp_all add: set_lane_in burst_lane_def new_AcceptScheduler_def)
  obtain u where u: "set_lane ?t 0 (\<lambda>st. st\<lparr>l_arming := False\<rparr>) = Some u" "sc_driver u = j + 2"
    by (simp add: set_lane_in burst_lane_def)
  have five: "j + 5 = Suc (Suc (Suc (Suc (Suc j))))" by simp
  have "arm_lanes ?b (j + 5) [0] ?n = Some u"
    unfolding five arm_lanes.simps arm.simps(2) lane bind.bind_lunit LaneState.select_convs if_False passes u ..
  with u(2) show ?thesis by (simp add: start_def new_AcceptScheduler_def)
qed

section \<open>A sample driver\<close>

text \<open>A driver that accepts every start and settles none before it returns.\<close>

definition steady :: "nat Driver" where
  "steady = (burst 0)\<lparr>start_accept := (\<lambda>lane now n. (Ok, [], n + 1))\<rparr>"

definition steady_scheduler :: "nat AcceptScheduler" where
  "steady_scheduler =
     \<lparr>sc_driver = 1, sc_lanes = [\<lparr>l_pending = 1, l_retry_scheduled = False, l_arming = False, l_arm_again = False\<rparr>],
      sc_pending_per_lane = 1, sc_retry_delay = 100, sc_phase = Running\<rparr>"

lemma steady_ok: "driver_ok steady (\<lambda>n. False)" "settles_later steady"
  by (simp_all add: driver_ok_def settles_later_def steady_def burst_def)

lemma steady_started: "start steady 5 1 100 (new_AcceptScheduler 0 1) = Some (Ok, steady_scheduler)"
  by (simp add: start_def new_AcceptScheduler_def steady_def burst_def steady_scheduler_def set_lane_in running_def
      start_one_def eval_nat_numeral)

lemma steady_reachable: "scheduler_reachable steady (\<lambda>n. False) steady_scheduler"
  by (rule scheduler_reachable.starting [OF scheduler_reachable.created steady_started])

theorem listeners_covered_witness:
  "driver_ok steady (\<lambda>n. False) \<and> scheduler_reachable steady (\<lambda>n. False) steady_scheduler \<and>
   (0 < l_pending (sc_lanes steady_scheduler ! 0) \<or> l_retry_scheduled (sc_lanes steady_scheduler ! 0))"
  using listeners_covered [OF steady_ok(1) steady_reachable, of 0] steady_ok(1) steady_reachable
  by (simp add: steady_scheduler_def)

theorem failure_is_final_witness:
  "\<exists>s'. retry_due steady 3 0 (steady_scheduler\<lparr>sc_phase := Failed\<rparr>) = Some s' \<and> sc_driver s' = 1 \<and> sc_phase s' = Failed"
  using failure_is_final [of "steady_scheduler\<lparr>sc_phase := Failed\<rparr>" 0 3 steady 0 True 1 100] by (simp add: steady_scheduler_def)

theorem arming_ends_witness:
  "\<exists>s'. settled steady 4 0 7 True steady_scheduler = Some s'"
  using arming_ends [OF steady_ok steady_reachable, of 4 1 100 7 True] by (simp add: steady_scheduler_def)

end
