(* ===== verification/Websocket_Mask.thy ===== *)
theory Websocket_Mask
  imports Yume_Prelude
begin

text \<open>
  The masking of WebSocket payloads (\<^verbatim>\<open>ApplyWebSocketMask\<close> of
  \<^verbatim>\<open>src/src/stealth/websocket_codec.cpp\<close>): eight bytes at a time through a 64-bit word, then
  the rest one by one. It is the exclusive or with the repeated key of RFC 6455.
\<close>

section \<open>The routine\<close>

text \<open>\<^verbatim>\<open>memcpy\<close> between eight bytes and a 64-bit word, on a little-endian machine.\<close>

definition bytes_word :: "bytes \<Rightarrow> u64" where
  "bytes_word bs = foldr (\<lambda>b w. push_bit 8 w OR ucast b) bs 0"

fun word_bytes :: "nat \<Rightarrow> u64 \<Rightarrow> bytes" where
  "word_bytes 0 w = []"
| "word_bytes (Suc n) w = ucast w # word_bytes n (drop_bit 8 w)"

definition load_word :: "bytes \<Rightarrow> nat \<Rightarrow> u64 option" where
  "load_word data i = map_option bytes_word (subspan data i 8)"

definition store_word :: "bytes \<Rightarrow> nat \<Rightarrow> u64 \<Rightarrow> bytes option" where
  "store_word data i w = copy_to data i (word_bytes 8 w)"

definition mask_pattern :: "bytes \<Rightarrow> nat \<Rightarrow> bytes option" where
  "mask_pattern key phase =
     those (map (\<lambda>i. byte_at key ((phase + i) AND 3)) [0, 1, 2, 3, 4, 5, 6, 7])"

lemma copy_to_length: "copy_to output i source = Some output' \<Longrightarrow> length output' = length output"
  by (auto simp: copy_to_def split: if_splits)

function mask_words :: "u64 \<Rightarrow> bytes \<Rightarrow> nat \<Rightarrow> (bytes \<times> nat) option" where
  "mask_words word data i = do {
     left \<leftarrow> size_sub (length data) i;
     if left \<ge> 8 then do {
       chunk \<leftarrow> load_word data i;
       data \<leftarrow> store_word data i (chunk XOR word);
       mask_words word data (i + 8)
     } else Some (data, i)
   }"
  by pat_completeness auto
termination
  by (relation "measure (\<lambda>(word, data, i). length data - i)")
     (auto simp: size_sub_def store_word_def dest!: copy_to_length split: if_splits)

declare mask_words.simps [simp del]

function mask_tail :: "bytes \<Rightarrow> bytes \<Rightarrow> nat \<Rightarrow> bytes option" where
  "mask_tail pattern data i =
     (if i < length data then do {
        b \<leftarrow> byte_at data i;
        p \<leftarrow> byte_at pattern (i AND 7);
        mask_tail pattern (data[i := b XOR p]) (i + 1)
      } else Some data)"
  by pat_completeness auto
termination
  by (relation "measure (\<lambda>(pattern, data, i). length data - i)") auto

declare mask_tail.simps [simp del]

definition ApplyWebSocketMask :: "bytes \<Rightarrow> bytes \<Rightarrow> nat \<Rightarrow> bytes option" where
  "ApplyWebSocketMask data key phase = do {
     pattern \<leftarrow> mask_pattern key phase;
     word \<leftarrow> load_word pattern 0;
     (data, i) \<leftarrow> mask_words word data 0;
     mask_tail pattern data i
   }"

section \<open>Words and bytes\<close>

lemma length_word_bytes [simp]: "length (word_bytes n w) = n"
  by (induction n arbitrary: w) auto

lemma nth_word_bytes: "i < n \<Longrightarrow> word_bytes n w ! i = ucast (drop_bit (8 * i) w)"
  by (induction n arbitrary: w i) (auto simp: nth_Cons drop_bit_drop_bit ac_simps split: nat.split)

lemma bit_bytes_word:
  "k < 64 \<Longrightarrow> bit (bytes_word bs) k \<longleftrightarrow> k div 8 < length bs \<and> bit (bs ! (k div 8)) (k mod 8)"
proof (induction bs arbitrary: k)
  case (Cons b bs)
  have step: "bytes_word (b # bs) = push_bit 8 (bytes_word bs) OR ucast b"
    by (simp add: bytes_word_def)
  show ?case
  proof (cases "k < 8")
    case True
    then show ?thesis by (simp add: step bit_simps)
  next
    case False
    then have "k div 8 = Suc ((k - 8) div 8)" "k mod 8 = (k - 8) mod 8"
      by (simp_all add: le_div_geq le_mod_geq not_less)
    with False Cons show ?thesis by (simp add: step bit_simps)
  qed
qed (simp add: bytes_word_def)

lemma word_bytes_xor:
  assumes "length xs = 8" and "length ys = 8"
  shows "word_bytes 8 (bytes_word xs XOR bytes_word ys) = map2 (XOR) xs ys"
proof (rule nth_equalityI)
  fix i assume "i < length (word_bytes 8 (bytes_word xs XOR bytes_word ys))"
  then have i: "i < 8" by simp
  have "ucast (drop_bit (8 * i) (bytes_word xs XOR bytes_word ys)) = xs ! i XOR ys ! i"
  proof (rule bit_word_eqI)
    fix n assume "n < LENGTH(8)"
    then have n: "n < 8" by simp
    have "(8 * i + n) div 8 = i" "(8 * i + n) mod 8 = n" "8 * i + n < 64" using i n by simp_all
    then show "bit (ucast (drop_bit (8 * i) (bytes_word xs XOR bytes_word ys)) :: u8) n
        = bit (xs ! i XOR ys ! i) n"
      using i n assms by (simp add: bit_simps bit_bytes_word)
  qed
  then show "word_bytes 8 (bytes_word xs XOR bytes_word ys) ! i = map2 (XOR) xs ys ! i"
    using i assms by (simp add: nth_word_bytes)
qed (simp add: assms)

section \<open>The loops\<close>

text \<open>Byte \<open>i\<close> of the data against byte \<open>phase + i\<close> of the repeated key.\<close>

definition masked_bytes :: "bytes \<Rightarrow> nat \<Rightarrow> bytes \<Rightarrow> bytes" where
  "masked_bytes key phase data =
     map (\<lambda>(i, b). b XOR key ! ((phase + i) mod 4)) (enumerate 0 data)"

lemma length_masked_bytes [simp]: "length (masked_bytes key phase data) = length data"
  by (simp add: masked_bytes_def)

lemma nth_masked_bytes [simp]:
  "i < length data \<Longrightarrow> masked_bytes key phase data ! i = data ! i XOR key ! ((phase + i) mod 4)"
  by (simp add: masked_bytes_def nth_enumerate_eq)

lemma and_three: "n AND (3 :: nat) = n mod 4"
  using take_bit_eq_mask [of 2 n] by (simp add: take_bit_eq_mod mask_eq_exp_minus_1)

lemma and_seven: "n AND (7 :: nat) = n mod 8"
  using take_bit_eq_mask [of 3 n] by (simp add: take_bit_eq_mod mask_eq_exp_minus_1)

lemma mask_pattern_eq:
  assumes "length key = 4"
  shows "mask_pattern key phase = Some (map (\<lambda>i. key ! ((phase + i) mod 4)) [0 ..< 8])"
  using assms by (simp add: mask_pattern_def and_three upt_rec ac_simps)

text \<open>One word of the loop, as a list operation.\<close>

lemma mask_words_step:
  assumes "length pattern = 8" and "i + 8 \<le> length data"
  shows "mask_words (bytes_word pattern) data i
    = mask_words (bytes_word pattern)
        (take i data @ map2 (XOR) (take 8 (drop i data)) pattern @ drop (i + 8) data) (i + 8)"
  using assms add_le_imp_le_diff [of 8 i "length data"]
  by (subst mask_words.simps) (simp add: load_word_def store_word_def copy_to_def word_bytes_xor)

text \<open>The bytes before \<open>i\<close> have been masked with the pattern, the others not yet.\<close>

definition masked_upto :: "bytes \<Rightarrow> nat \<Rightarrow> bytes \<Rightarrow> bytes" where
  "masked_upto pattern i data =
     map (\<lambda>(j, b). if j < i then b XOR pattern ! (j mod 8) else b) (enumerate 0 data)"

lemma length_masked_upto [simp]: "length (masked_upto pattern i data) = length data"
  by (simp add: masked_upto_def)

lemma nth_masked_upto:
  "j < length data \<Longrightarrow>
   masked_upto pattern i data ! j = (if j < i then data ! j XOR pattern ! (j mod 8) else data ! j)"
  by (simp add: masked_upto_def nth_enumerate_eq)

lemma masked_upto_0 [simp]: "masked_upto pattern 0 data = data"
  by (rule nth_equalityI) (simp_all add: nth_masked_upto)

lemma masked_upto_word:
  assumes "length pattern = 8" and "8 * k + 8 \<le> length data"
  shows "take (8 * k) (masked_upto pattern (8 * k) data)
      @ map2 (XOR) (take 8 (drop (8 * k) (masked_upto pattern (8 * k) data))) pattern
      @ drop (8 * k + 8) (masked_upto pattern (8 * k) data)
    = masked_upto pattern (8 * k + 8) data"
proof (rule nth_equalityI)
  fix j assume "j < length (take (8 * k) (masked_upto pattern (8 * k) data)
      @ map2 (XOR) (take 8 (drop (8 * k) (masked_upto pattern (8 * k) data))) pattern
      @ drop (8 * k + 8) (masked_upto pattern (8 * k) data))"
  then have j: "j < length data" using assms by simp
  have "j mod 8 = j - 8 * k" if "8 * k \<le> j" "j < 8 * k + 8"
  proof -
    have "j div 8 = k" using that by (intro div_nat_eqI) auto
    then show ?thesis by (metis minus_mult_div_eq_mod)
  qed
  with j show "(take (8 * k) (masked_upto pattern (8 * k) data)
      @ map2 (XOR) (take 8 (drop (8 * k) (masked_upto pattern (8 * k) data))) pattern
      @ drop (8 * k + 8) (masked_upto pattern (8 * k) data)) ! j = masked_upto pattern (8 * k + 8) data ! j"
    using assms by (auto simp: nth_append nth_masked_upto)
qed (use assms in simp)

lemma mask_words_run:
  assumes "length pattern = 8" and "8 * k \<le> length data"
  shows "mask_words (bytes_word pattern) (masked_upto pattern (8 * k) data) (8 * k)
    = Some (masked_upto pattern (8 * (length data div 8)) data, 8 * (length data div 8))"
  using assms(2)
proof (induction "length data div 8 - k" arbitrary: k)
  case 0
  then have "length data < 8 * k + 8" by simp
  moreover from this 0 have "length data div 8 = k" by (intro div_nat_eqI) auto
  ultimately show ?case using 0(2) by (subst mask_words.simps) (auto simp: not_le)
next
  case (Suc n)
  then have more: "8 * k + 8 \<le> length data" by (simp add: less_eq_div_iff_mult_less_eq)
  have "mask_words (bytes_word pattern) (masked_upto pattern (8 * k) data) (8 * k)
      = mask_words (bytes_word pattern) (masked_upto pattern (8 * k + 8) data) (8 * k + 8)"
    using assms(1) more by (simp add: mask_words_step masked_upto_word)
  with Suc(1) [of "Suc k"] Suc(2) more show ?case by (simp add: add.commute)
qed

lemma mask_tail_run:
  assumes "length pattern = 8" and "i \<le> length data"
  shows "mask_tail pattern (masked_upto pattern i data) i = Some (masked_upto pattern (length data) data)"
  using assms(2)
proof (induction "length data - i" arbitrary: i)
  case 0
  then show ?case by (subst mask_tail.simps) simp
next
  case (Suc n)
  then have i: "i < length data" by simp
  have "(masked_upto pattern i data)[i := masked_upto pattern i data ! i XOR pattern ! (i mod 8)]
      = masked_upto pattern (Suc i) data"
    by (rule nth_equalityI) (auto simp: nth_list_update nth_masked_upto less_Suc_eq)
  then have "mask_tail pattern (masked_upto pattern i data) i
      = mask_tail pattern (masked_upto pattern (Suc i) data) (Suc i)"
    using i assms(1) by (subst mask_tail.simps) (simp add: and_seven)
  with Suc show ?case by simp
qed

lemma ApplyWebSocketMask_eq:
  assumes "length key = 4"
  shows "ApplyWebSocketMask data key phase = Some (masked_bytes key phase data)"
proof -
  let ?pattern = "map (\<lambda>i. key ! ((phase + i) mod 4)) [0 ..< 8]"
  have word: "load_word ?pattern 0 = Some (bytes_word ?pattern)"
    by (simp add: load_word_def del: upt_conv_Cons upt_rec_numeral)
  have "(phase + j mod 8) mod 4 = (phase + j) mod 4" for j :: nat
  proof -
    have "(j mod 8) mod 4 = j mod 4" by (simp add: mod_mod_cancel)
    then show ?thesis by (metis mod_add_right_eq)
  qed
  then have same: "masked_upto ?pattern (length data) data = masked_bytes key phase data"
    by (intro nth_equalityI) (simp_all add: nth_masked_upto del: upt_conv_Cons upt_rec_numeral)
  have words: "mask_words (bytes_word ?pattern) data 0
      = Some (masked_upto ?pattern (8 * (length data div 8)) data, 8 * (length data div 8))"
    using mask_words_run [of ?pattern 0 data] by (simp del: upt_conv_Cons upt_rec_numeral)
  have "mask_tail ?pattern (masked_upto ?pattern (8 * (length data div 8)) data) (8 * (length data div 8))
      = Some (masked_bytes key phase data)"
    unfolding same [symmetric] by (rule mask_tail_run) simp_all
  with word words show ?thesis
    unfolding ApplyWebSocketMask_def mask_pattern_eq [OF assms]
    by (simp del: upt_conv_Cons upt_rec_numeral)
qed

text \<open>Masking twice with one key gives the data back.\<close>

lemma masked_bytes_twice [simp]: "masked_bytes key phase (masked_bytes key phase data) = data"
  by (rule nth_equalityI) (simp_all add: xor.assoc)

section \<open>Properties\<close>

text \<open>C23: with a four-byte key the routine that works by words never leaves its data or its
  pattern, and it is the definition of RFC 6455: byte \<open>i\<close> is combined with byte
  \<open>(phase + i) mod 4\<close> of the key. A second application gives the data back.\<close>

theorem mask_by_words_exact:
  assumes "length key = 4"
  shows "\<exists>masked. ApplyWebSocketMask data key phase = Some masked \<and> length masked = length data \<and>
    (\<forall>i. i < length data \<longrightarrow> masked ! i = data ! i XOR key ! ((phase + i) mod 4)) \<and>
    ApplyWebSocketMask masked key phase = Some data"
  by (simp add: ApplyWebSocketMask_eq [OF assms])

theorem mask_by_words_exact_witness:
  "length [1, 2, 3, 4 :: u8] = 4 \<and>
   (\<exists>masked. ApplyWebSocketMask (replicate 11 255) [1, 2, 3, 4] 1 = Some masked \<and> masked ! 9 = 252)"
proof -
  obtain masked where masked: "ApplyWebSocketMask (replicate 11 255) [1, 2, 3, 4] 1 = Some masked"
      "\<forall>i. i < length (replicate 11 (255 :: u8)) \<longrightarrow>
        masked ! i = replicate 11 255 ! i XOR [1, 2, 3, 4] ! ((1 + i) mod 4)"
    using mask_by_words_exact [of "[1, 2, 3, 4]" "replicate 11 255" 1] by auto
  then show ?thesis by simp
qed

end
