(* ===== verification/Websocket_Codec.thy ===== *)
theory Websocket_Codec
  imports Websocket_Mask
begin

text \<open>
  The WebSocket framing inside HTTP/2 DATA (\<^verbatim>\<open>src/src/stealth/websocket_codec.cpp\<close>): the frame
  encoders and the incremental decoder with its buffers. \<^verbatim>\<open>RAND_bytes\<close> of OpenSSL is the
  parameter \<open>rand\<close>: what call number \<open>n\<close> returns, the four bytes of a masking key or a
  failure; the codec counts its calls. A thrown exception is returned beside the state it
  leaves behind. The installed frame observer is the list of the metadata it received. Memory
  is always available, and the capacity of the vectors is not modelled.
\<close>

section \<open>Data\<close>

datatype WebSocketRole = Client | Server

record WebSocketFrameMetadata =
  fm_opcode :: u8
  fm_final :: bool
  fm_masked :: bool
  fm_payload_bytes :: u64

record WebSocketDrain =
  dr_tunnel_bytes :: bytes
  dr_consumable :: nat

record WebSocketPayload =
  p_first :: bytes
  p_second :: bytes

text \<open>The exceptions the codec throws and the reasons it fails with.\<close>

datatype WebSocketThrow = InvalidLimit | MessageTooLarge | NoMaskingKey | OutputTooLarge
  | SocketClosed | InvalidSplit | PingTooLarge | ReasonTooLarge

datatype WebSocketError = RsvBits u8 | ClientNotMasked | ServerMasked | NonMinimalLength
  | InvalidLength64 | BinaryTooLarge | InvalidControl | LengthOverflow | UnexpectedContinuation
  | FragmentedTooLarge | DecodedLimit | NewDataDuringFragmentation | OneByteClose | TextMessage
  | UnsupportedOpcode | AccountingOverflow | InputLimit

record WebSocketCodec =
  ws_role :: WebSocketRole
  ws_inbound :: bytes
  ws_inbound_offset :: nat
  ws_decoded :: bytes
  ws_fragmented :: bytes
  ws_wire_replies :: bytes
  ws_consumable :: nat
  ws_max_message :: nat
  ws_fragmented_binary :: bool
  ws_close_sent :: bool
  ws_closed :: bool
  ws_error :: "WebSocketError option"
  ws_observed :: "WebSocketFrameMetadata list"
  ws_draws :: nat

definition kMaxMessageBytes :: nat where "kMaxMessageBytes = 16 * 1024 * 1024"
definition kMaxPendingBytes :: nat where "kMaxPendingBytes = 32 * 1024 * 1024"
definition kMaxHeaderBytes :: nat where "kMaxHeaderBytes = 14"

text \<open>\<^verbatim>\<open>max_size()\<close> of a byte vector and the largest \<^verbatim>\<open>std::size_t\<close>.\<close>

definition vector_max_size :: nat where "vector_max_size = 2 ^ 63 - 1"
definition size_max :: nat where "size_max = 2 ^ 64 - 1"

section \<open>Construction and payloads\<close>

definition new_WebSocketCodec :: "WebSocketRole \<Rightarrow> nat \<Rightarrow> WebSocketThrow + WebSocketCodec" where
  "new_WebSocketCodec role max_inbound =
     (if max_inbound = 0 \<or> max_inbound > kMaxMessageBytes then Inl InvalidLimit
      else Inr \<lparr>ws_role = role, ws_inbound = [], ws_inbound_offset = 0, ws_decoded = [],
        ws_fragmented = [], ws_wire_replies = [], ws_consumable = 0, ws_max_message = max_inbound,
        ws_fragmented_binary = False, ws_close_sent = False, ws_closed = False, ws_error = None,
        ws_observed = [], ws_draws = 0\<rparr>)"

definition payload_size :: "WebSocketPayload \<Rightarrow> nat" where
  "payload_size payload = length (p_first payload) + length (p_second payload)"

definition payload_part :: "WebSocketPayload \<Rightarrow> nat \<Rightarrow> nat \<Rightarrow> WebSocketPayload option" where
  "payload_part payload offset n =
     (if offset < length (p_first payload) then do {
        let from_first = min n (length (p_first payload) - offset);
        first \<leftarrow> subspan (p_first payload) offset from_first;
        second \<leftarrow> subspan (p_second payload) 0 (n - from_first);
        Some \<lparr>p_first = first, p_second = second\<rparr>
      } else do {
        first \<leftarrow> subspan (p_second payload) (offset - length (p_first payload)) n;
        Some \<lparr>p_first = first, p_second = []\<rparr>
      })"

definition HeaderBytes :: "nat \<Rightarrow> bool \<Rightarrow> nat" where
  "HeaderBytes n masked =
     2 + (if n < 126 then 0 else if n \<le> 65535 then 2 else 8) + (if masked then 4 else 0)"

definition FrameBytes :: "WebSocketCodec \<Rightarrow> nat \<Rightarrow> nat" where
  "FrameBytes c payload_bytes = HeaderBytes payload_bytes (ws_role c = Client) + payload_bytes"

definition ReserveFor :: "bytes \<Rightarrow> nat \<Rightarrow> WebSocketThrow option" where
  "ReserveFor out extra = (if extra > vector_max_size - length out then Some OutputTooLarge else None)"

section \<open>Encoders\<close>

text \<open>The eight length bytes, by the shifts of the loop.\<close>

primrec put_length_bytes :: "nat list \<Rightarrow> bytes \<Rightarrow> nat \<Rightarrow> u64 \<Rightarrow> (bytes \<times> nat) option" where
  "put_length_bytes [] header at n = Some (header, at)"
| "put_length_bytes (shift # shifts) header at n = do {
     header \<leftarrow> put_byte header at (ucast (drop_bit shift n AND 255));
     put_length_bytes shifts header (at + 1) n
   }"

definition frame_header :: "u8 \<Rightarrow> bool \<Rightarrow> bool \<Rightarrow> nat \<Rightarrow> bytes \<Rightarrow> (bytes \<times> nat) option" where
  "frame_header opcode final masking n masking_key = do {
     header \<leftarrow> put_byte (replicate kMaxHeaderBytes 0) 0 ((if final then 128 else 0) OR (opcode AND 15));
     let mask_bit = (if masking then 128 else 0);
     (header, at) \<leftarrow>
       (if n < 126 then do {
          header \<leftarrow> put_byte header 1 (mask_bit OR of_nat n);
          Some (header, 2)
        } else if n \<le> 65535 then do {
          header \<leftarrow> put_byte header 1 (mask_bit OR 126);
          header \<leftarrow> put_byte header 2 (of_nat (n div 256 mod 256));
          header \<leftarrow> put_byte header 3 (of_nat (n mod 256));
          Some (header, 4)
        } else do {
          header \<leftarrow> put_byte header 1 (mask_bit OR 127);
          put_length_bytes [56, 48, 40, 32, 24, 16, 8, 0] header 2 (of_nat n)
        });
     if masking then do {
       header \<leftarrow> copy_to header at masking_key;
       Some (header, at + length masking_key)
     } else Some (header, at)
   }"

text \<open>Header and payload are appended, and the payload is masked where it lies in the output.\<close>

definition append_frame :: "bytes \<Rightarrow> u8 \<Rightarrow> bool \<Rightarrow> bool \<Rightarrow> bytes \<Rightarrow> WebSocketPayload \<Rightarrow> bytes option" where
  "append_frame out opcode final masking masking_key payload = do {
     let n = payload_size payload;
     (header, at) \<leftarrow> frame_header opcode final masking n masking_key;
     head \<leftarrow> subspan header 0 at;
     let out = out @ head;
     let payload_at = length out;
     let out = out @ p_first payload;
     let out = out @ p_second payload;
     if masking then do {
       body \<leftarrow> subspan out payload_at n;
       body \<leftarrow> ApplyWebSocketMask body masking_key 0;
       copy_to out payload_at body
     } else Some out
   }"

definition EncodeFrame ::
  "(nat \<Rightarrow> u32 option) \<Rightarrow> WebSocketCodec \<Rightarrow> bytes \<Rightarrow> u8 \<Rightarrow> WebSocketPayload \<Rightarrow> bool \<Rightarrow>
   (WebSocketThrow option \<times> WebSocketCodec \<times> bytes) option" where
  "EncodeFrame rand c out opcode payload final =
     (let n = payload_size payload; masking = (ws_role c = Client) in
      if n > kMaxMessageBytes then Some (Some MessageTooLarge, c, out)
      else
        let drawn = (if masking then rand (ws_draws c) else Some 0);
            c = (if masking then c\<lparr>ws_draws := ws_draws c + 1\<rparr> else c)
        in case drawn of
             None \<Rightarrow> Some (Some NoMaskingKey, c, out)
           | Some key \<Rightarrow>
               (case ReserveFor out (HeaderBytes n masking + n) of
                  Some thrown \<Rightarrow> Some (Some thrown, c, out)
                | None \<Rightarrow> do {
                    out \<leftarrow> append_frame out opcode final masking (be32 key) payload;
                    Some (None, c, out)
                  }))"

definition EncodeBinary ::
  "(nat \<Rightarrow> u32 option) \<Rightarrow> WebSocketCodec \<Rightarrow> bytes \<Rightarrow> WebSocketPayload \<Rightarrow>
   (WebSocketThrow option \<times> WebSocketCodec \<times> bytes) option" where
  "EncodeBinary rand c out payload =
     (if ws_closed c then Some (Some SocketClosed, c, out)
      else EncodeFrame rand c out 2 payload True)"

definition EncodeBinaryFragmented ::
  "(nat \<Rightarrow> u32 option) \<Rightarrow> WebSocketCodec \<Rightarrow> bytes \<Rightarrow> WebSocketPayload \<Rightarrow> nat \<Rightarrow>
   (WebSocketThrow option \<times> WebSocketCodec \<times> bytes) option" where
  "EncodeBinaryFragmented rand c out payload first_fragment_bytes =
     (let n = payload_size payload in
      if ws_closed c then Some (Some SocketClosed, c, out)
      else if first_fragment_bytes = 0 \<or> first_fragment_bytes \<ge> n then Some (Some InvalidSplit, c, out)
      else
        case ReserveFor out (FrameBytes c first_fragment_bytes + FrameBytes c (n - first_fragment_bytes)) of
          Some thrown \<Rightarrow> Some (Some thrown, c, out)
        | None \<Rightarrow> do {
            let before = length out;
            front \<leftarrow> payload_part payload 0 first_fragment_bytes;
            (thrown, c, out) \<leftarrow> EncodeFrame rand c out 2 front False;
            if thrown \<noteq> None then Some (thrown, c, out)
            else do {
              rest \<leftarrow> payload_part payload first_fragment_bytes (n - first_fragment_bytes);
              (thrown, c, out) \<leftarrow> EncodeFrame rand c out 0 rest True;
              if thrown \<noteq> None then Some (thrown, c, take before out)
              else Some (None, c, out)
            }
          })"

definition EncodePing ::
  "(nat \<Rightarrow> u32 option) \<Rightarrow> WebSocketCodec \<Rightarrow> bytes \<Rightarrow> bytes \<Rightarrow>
   (WebSocketThrow option \<times> WebSocketCodec \<times> bytes) option" where
  "EncodePing rand c out data =
     (if ws_closed c then Some (Some SocketClosed, c, out)
      else if length data > 125 then Some (Some PingTooLarge, c, out)
      else EncodeFrame rand c out 9 \<lparr>p_first = data, p_second = []\<rparr> True)"

definition EncodeClose ::
  "(nat \<Rightarrow> u32 option) \<Rightarrow> WebSocketCodec \<Rightarrow> bytes \<Rightarrow> u16 \<Rightarrow> bytes \<Rightarrow>
   (WebSocketThrow option \<times> WebSocketCodec \<times> bytes) option" where
  "EncodeClose rand c out code reason =
     (if length reason > 123 then Some (Some ReasonTooLarge, c, out)
      else do {
        payload \<leftarrow> put_byte (replicate 125 0) 0 (ucast (drop_bit 8 code AND 255));
        payload \<leftarrow> put_byte payload 1 (ucast (code AND 255));
        payload \<leftarrow> copy_to payload 2 reason;
        body \<leftarrow> subspan payload 0 (2 + length reason);
        (thrown, c, out) \<leftarrow> EncodeFrame rand c out 8 \<lparr>p_first = body, p_second = []\<rparr> True;
        if thrown \<noteq> None then Some (thrown, c, out)
        else Some (None, c\<lparr>ws_close_sent := True\<rparr>, out)
      })"

section \<open>The decoder\<close>

definition Fail :: "WebSocketCodec \<Rightarrow> WebSocketError \<Rightarrow> WebSocketCodec" where
  "Fail c reason = (if ws_error c = None then c\<lparr>ws_error := Some reason\<rparr> else c)"

definition ReadU64 :: "bytes \<Rightarrow> nat \<Rightarrow> u64 option" where
  "ReadU64 frame at = do {
     data \<leftarrow> subspan frame at 8;
     Some (foldl (\<lambda>value b. push_bit 8 value OR ucast b) 0 data)
   }"

text \<open>The head of a frame: not all there, wrong, or complete with its payload.\<close>

datatype FrameLength = LengthMissing | LengthWrong WebSocketError | LengthIs u64 nat

definition frame_length :: "bytes \<Rightarrow> u8 \<Rightarrow> FrameLength option" where
  "frame_length frame second =
     (let n = second AND 127 in
      if n = 126 then
        (if length frame < 4 then Some LengthMissing
         else do {
           b2 \<leftarrow> byte_at frame 2;
           b3 \<leftarrow> byte_at frame 3;
           let n = push_bit 8 (ucast b2) OR ucast b3;
           if n < 126 then Some (LengthWrong NonMinimalLength) else Some (LengthIs n 4)
         })
      else if n = 127 then
        (if length frame < 10 then Some LengthMissing
         else do {
           n \<leftarrow> ReadU64 frame 2;
           if drop_bit 63 n \<noteq> 0 \<or> n \<le> 65535 then Some (LengthWrong InvalidLength64)
           else Some (LengthIs n 10)
         })
      else Some (LengthIs (ucast n) 2))"

record FrameHead =
  fh_fin :: bool
  fh_masked :: bool
  fh_opcode :: u8
  fh_payload_size :: u64
  fh_offset :: nat
  fh_total :: nat

definition fh_control :: "FrameHead \<Rightarrow> bool" where
  "fh_control h = (fh_opcode h AND 8 \<noteq> 0)"

datatype ParsedFrame = Incomplete | Malformed WebSocketError | Complete FrameHead

definition parse_frame :: "WebSocketRole \<Rightarrow> nat \<Rightarrow> bytes \<Rightarrow> ParsedFrame option" where
  "parse_frame role max_message frame = do {
     first \<leftarrow> byte_at frame 0;
     second \<leftarrow> byte_at frame 1;
     let fin = (first AND 128 \<noteq> 0);
     let masked = (second AND 128 \<noteq> 0);
     let opcode = first AND 15;
     let control = (opcode AND 8 \<noteq> 0);
     if first AND 112 \<noteq> 0 then Some (Malformed (RsvBits first))
     else if masked \<noteq> (role = Server)
       then Some (Malformed (if role = Server then ClientNotMasked else ServerMasked))
     else do {
       parsed \<leftarrow> frame_length frame second;
       case parsed of
         LengthMissing \<Rightarrow> Some Incomplete
       | LengthWrong reason \<Rightarrow> Some (Malformed reason)
       | LengthIs n offset \<Rightarrow>
           (let mask_bytes = (if masked then 4 else 0);
                total = offset + mask_bytes + unat n in
            if \<not> control \<and> unat n > max_message then Some (Malformed BinaryTooLarge)
            else if control \<and> (\<not> fin \<or> n > 125) then Some (Malformed InvalidControl)
            else if unat n > size_max - offset - mask_bytes then Some (Malformed LengthOverflow)
            else if length frame < total then Some Incomplete
            else Some (Complete \<lparr>fh_fin = fin, fh_masked = masked, fh_opcode = opcode,
              fh_payload_size = n, fh_offset = offset, fh_total = total\<rparr>))
     }
   }"

text \<open>A complete frame is unmasked where it lies, and the input moves past it.\<close>

definition take_payload :: "WebSocketCodec \<Rightarrow> FrameHead \<Rightarrow> (bytes \<times> WebSocketCodec) option" where
  "take_payload c h = do {
     let at = ws_inbound_offset c + fh_offset h;
     let n = unat (fh_payload_size h);
     if fh_masked h then do {
       key \<leftarrow> subspan (ws_inbound c) at 4;
       body \<leftarrow> subspan (ws_inbound c) (at + 4) n;
       body \<leftarrow> ApplyWebSocketMask body key 0;
       inbound \<leftarrow> copy_to (ws_inbound c) (at + 4) body;
       Some (body, c\<lparr>ws_inbound := inbound, ws_inbound_offset := ws_inbound_offset c + fh_total h\<rparr>)
     } else do {
       body \<leftarrow> subspan (ws_inbound c) at n;
       Some (body, c\<lparr>ws_inbound_offset := ws_inbound_offset c + fh_total h\<rparr>)
     }
   }"

text \<open>How a pass of the loop ends: the function returns, throws, or goes on.\<close>

datatype LoopStep = Returned | Threw WebSocketThrow | GoesOn

definition continuation_frame :: "WebSocketCodec \<Rightarrow> bool \<Rightarrow> bytes \<Rightarrow> (LoopStep \<times> WebSocketCodec) option" where
  "continuation_frame c fin payload =
     (if \<not> ws_fragmented_binary c then Some (Returned, Fail c UnexpectedContinuation)
      else do {
        room \<leftarrow> size_sub (ws_max_message c) (length (ws_fragmented c));
        if length payload > room then Some (Returned, Fail c FragmentedTooLarge)
        else do {
          let c = c\<lparr>ws_fragmented := ws_fragmented c @ payload\<rparr>;
          if fin then do {
            room \<leftarrow> size_sub kMaxPendingBytes (length (ws_decoded c));
            if length (ws_fragmented c) > room then Some (Returned, Fail c DecodedLimit)
            else if ws_decoded c = []
              then Some (GoesOn, c\<lparr>ws_decoded := ws_fragmented c, ws_fragmented := [],
                                   ws_fragmented_binary := False\<rparr>)
            else Some (GoesOn, c\<lparr>ws_decoded := ws_decoded c @ ws_fragmented c, ws_fragmented := [],
                                 ws_fragmented_binary := False\<rparr>)
          } else Some (GoesOn, c)
        }
      })"

definition binary_frame :: "WebSocketCodec \<Rightarrow> bool \<Rightarrow> bytes \<Rightarrow> (LoopStep \<times> WebSocketCodec) option" where
  "binary_frame c fin payload =
     (if ws_fragmented_binary c then Some (Returned, Fail c NewDataDuringFragmentation)
      else if fin then do {
        room \<leftarrow> size_sub kMaxPendingBytes (length (ws_decoded c));
        if length payload > room then Some (Returned, Fail c DecodedLimit)
        else Some (GoesOn, c\<lparr>ws_decoded := ws_decoded c @ payload\<rparr>)
      } else Some (GoesOn, c\<lparr>ws_fragmented := payload, ws_fragmented_binary := True\<rparr>))"

text \<open>A reply frame is appended to the replies; an exception leaves the function.\<close>

definition reply_frame ::
  "(nat \<Rightarrow> u32 option) \<Rightarrow> WebSocketCodec \<Rightarrow> u8 \<Rightarrow> bytes \<Rightarrow> (LoopStep \<times> WebSocketCodec) option" where
  "reply_frame rand c opcode payload = do {
     (thrown, c, out) \<leftarrow>
       EncodeFrame rand c (ws_wire_replies c) opcode \<lparr>p_first = payload, p_second = []\<rparr> True;
     let c = c\<lparr>ws_wire_replies := out\<rparr>;
     Some (case thrown of None \<Rightarrow> GoesOn | Some t \<Rightarrow> Threw t, c)
   }"

definition close_frame ::
  "(nat \<Rightarrow> u32 option) \<Rightarrow> WebSocketCodec \<Rightarrow> bytes \<Rightarrow> (LoopStep \<times> WebSocketCodec) option" where
  "close_frame rand c payload =
     (if length payload = 1 then Some (Returned, Fail c OneByteClose)
      else
        let c = c\<lparr>ws_closed := True\<rparr> in
        if ws_close_sent c then Some (GoesOn, c)
        else do {
          (step, c) \<leftarrow> reply_frame rand c 8 payload;
          Some (step, if step = GoesOn then c\<lparr>ws_close_sent := True\<rparr> else c)
        })"

definition handle_frame ::
  "(nat \<Rightarrow> u32 option) \<Rightarrow> WebSocketCodec \<Rightarrow> u8 \<Rightarrow> bool \<Rightarrow> bytes \<Rightarrow> (LoopStep \<times> WebSocketCodec) option" where
  "handle_frame rand c opcode fin payload =
     (if opcode = 0 then continuation_frame c fin payload
      else if opcode = 2 then binary_frame c fin payload
      else if opcode = 8 then close_frame rand c payload
      else if opcode = 9 then reply_frame rand c 10 payload
      else if opcode = 10 then Some (GoesOn, c)
      else Some (Returned, Fail c (if opcode = 1 then TextMessage else UnsupportedOpcode)))"

definition account_frame :: "WebSocketCodec \<Rightarrow> FrameHead \<Rightarrow> (LoopStep \<times> WebSocketCodec) option" where
  "account_frame c h = do {
     let consumable = (if fh_control h then fh_total h else fh_total h - unat (fh_payload_size h));
     room \<leftarrow> size_sub size_max (ws_consumable c);
     if consumable > room then Some (Returned, Fail c AccountingOverflow)
     else Some (GoesOn, c\<lparr>ws_consumable := ws_consumable c + consumable,
       ws_observed := ws_observed c @ [\<lparr>fm_opcode = fh_opcode h, fm_final = fh_fin h,
         fm_masked = fh_masked h, fm_payload_bytes = fh_payload_size h\<rparr>]\<rparr>)
   }"

definition process_frame ::
  "(nat \<Rightarrow> u32 option) \<Rightarrow> WebSocketCodec \<Rightarrow> nat \<Rightarrow> (LoopStep \<times> WebSocketCodec) option" where
  "process_frame rand c available = do {
     frame \<leftarrow> subspan (ws_inbound c) (ws_inbound_offset c) available;
     parsed \<leftarrow> parse_frame (ws_role c) (ws_max_message c) frame;
     case parsed of
       Incomplete \<Rightarrow> Some (Returned, c)
     | Malformed reason \<Rightarrow> Some (Returned, Fail c reason)
     | Complete h \<Rightarrow> do {
         (payload, c) \<leftarrow> take_payload c h;
         (step, c) \<leftarrow> handle_frame rand c (fh_opcode h) (fh_fin h) payload;
         if step = GoesOn then account_frame c h else Some (step, c)
       }
   }"

text \<open>Only the input moves while a frame is handled.\<close>

lemma Fail_inbound [simp]:
  "ws_inbound (Fail c e) = ws_inbound c" "ws_inbound_offset (Fail c e) = ws_inbound_offset c"
  by (simp_all add: Fail_def)

lemma EncodeFrame_inbound:
  assumes "EncodeFrame rand c out opcode payload final = Some (thrown, c', out')"
  shows "c' = c \<or> c' = c\<lparr>ws_draws := Suc (ws_draws c)\<rparr>"
  using assms
  by (auto simp: EncodeFrame_def Let_def Option.bind_eq_Some_conv split: if_splits option.splits)

lemma reply_frame_result:
  assumes "reply_frame rand c opcode payload = Some (step, c')"
  shows "\<exists>replies draws. c' = c\<lparr>ws_wire_replies := replies, ws_draws := draws\<rparr>"
proof -
  from assms obtain thrown c1 out where
    run: "EncodeFrame rand c (ws_wire_replies c) opcode \<lparr>p_first = payload, p_second = []\<rparr> True
      = Some (thrown, c1, out)" and c': "c' = c1\<lparr>ws_wire_replies := out\<rparr>"
    by (auto simp: reply_frame_def Option.bind_eq_Some_conv)
  have "c = c\<lparr>ws_draws := ws_draws c\<rparr>" by simp
  then obtain draws where "c1 = c\<lparr>ws_draws := draws\<rparr>" using EncodeFrame_inbound [OF run] by metis
  then have "c' = c\<lparr>ws_wire_replies := out, ws_draws := draws\<rparr>" unfolding c' by simp
  then show ?thesis by blast
qed

definition same_input :: "WebSocketCodec \<Rightarrow> WebSocketCodec \<Rightarrow> bool" where
  "same_input c c' = (ws_inbound c' = ws_inbound c \<and> ws_inbound_offset c' = ws_inbound_offset c)"

lemma reply_frame_input: "reply_frame rand c opcode payload = Some (step, c') \<Longrightarrow> same_input c c'"
  using reply_frame_result [of rand c opcode payload step c'] by (auto simp: same_input_def)

lemma continuation_frame_input: "continuation_frame c fin payload = Some (step, c') \<Longrightarrow> same_input c c'"
  by (auto simp: same_input_def continuation_frame_def Let_def Option.bind_eq_Some_conv split: if_splits)

lemma binary_frame_input: "binary_frame c fin payload = Some (step, c') \<Longrightarrow> same_input c c'"
  by (auto simp: same_input_def binary_frame_def Option.bind_eq_Some_conv split: if_splits)

lemma close_frame_input:
  assumes "close_frame rand c payload = Some (step, c')"
  shows "same_input c c'"
proof (cases "reply_frame rand (c\<lparr>ws_closed := True\<rparr>) 8 payload")
  case None
  with assms show ?thesis by (auto simp: same_input_def close_frame_def Let_def split: if_splits)
next
  case (Some result)
  obtain s c1 where result: "result = (s, c1)" by fastforce
  have "same_input (c\<lparr>ws_closed := True\<rparr>) c1" using Some result reply_frame_input by simp
  with assms Some result show ?thesis
    by (auto simp: same_input_def close_frame_def Let_def split: if_splits)
qed

lemma handle_frame_input:
  assumes "handle_frame rand c opcode fin payload = Some (step, c')"
  shows "same_input c c'"
proof -
  have "same_input c c" "same_input c (Fail c e)" for e by (simp_all add: same_input_def)
  then show ?thesis
    using assms reply_frame_input continuation_frame_input binary_frame_input close_frame_input
    unfolding handle_frame_def by (metis option.inject prod.inject)
qed

lemma take_payload_moves:
  assumes "take_payload c h = Some (payload, c')"
  shows "ws_inbound_offset c' = ws_inbound_offset c + fh_total h \<and>
    length (ws_inbound c') = length (ws_inbound c)"
  using assms
  by (auto simp: take_payload_def Let_def Option.bind_eq_Some_conv dest: copy_to_length split: if_splits)

lemma frame_length_offset:
  "frame_length frame second = Some (LengthIs n offset) \<Longrightarrow> 2 \<le> offset \<and> offset \<le> 10"
  by (auto simp: frame_length_def Let_def Option.bind_eq_Some_conv split: if_splits)

lemma parse_frame_CompleteD:
  assumes "parse_frame role max_message frame = Some (Complete h)"
  shows "frame_length frame (frame ! 1) = Some (LengthIs (fh_payload_size h) (fh_offset h))"
    and "fh_masked h \<longleftrightarrow> role = Server"
    and "fh_total h = fh_offset h + (if fh_masked h then 4 else 0) + unat (fh_payload_size h)"
    and "fh_total h \<le> length frame"
    and "\<not> fh_control h \<Longrightarrow> unat (fh_payload_size h) \<le> max_message"
    and "fh_control h \<Longrightarrow> fh_fin h \<and> fh_payload_size h \<le> 125"
proof -
  obtain parsed where "frame_length frame (frame ! 1) = Some parsed"
    using assms by (auto simp: parse_frame_def Let_def Option.bind_eq_Some_conv split: if_splits)
  then obtain n offset where parsed: "frame_length frame (frame ! 1) = Some (LengthIs n offset)"
    using assms
    by (cases parsed) (auto simp: parse_frame_def Let_def Option.bind_eq_Some_conv split: if_splits)
  have h: "h = \<lparr>fh_fin = (frame ! 0 AND 128 \<noteq> 0), fh_masked = (frame ! 1 AND 128 \<noteq> 0),
      fh_opcode = frame ! 0 AND 15, fh_payload_size = n, fh_offset = offset,
      fh_total = offset + (if frame ! 1 AND 128 \<noteq> 0 then 4 else 0) + unat n\<rparr>"
    and rest: "(frame ! 1 AND 128 \<noteq> 0) = (role = Server)" "fh_total h \<le> length frame"
      "\<not> fh_control h \<longrightarrow> unat (fh_payload_size h) \<le> max_message"
      "fh_control h \<longrightarrow> fh_fin h \<and> fh_payload_size h \<le> 125"
    using assms parsed
    by (auto simp: parse_frame_def Let_def Option.bind_eq_Some_conv fh_control_def split: if_splits)
  from rest show "fh_masked h \<longleftrightarrow> role = Server" "fh_total h \<le> length frame"
      "\<not> fh_control h \<Longrightarrow> unat (fh_payload_size h) \<le> max_message"
      "fh_control h \<Longrightarrow> fh_fin h \<and> fh_payload_size h \<le> 125"
    by (simp_all add: h)
  show "fh_total h = fh_offset h + (if fh_masked h then 4 else 0) + unat (fh_payload_size h)"
      "frame_length frame (frame ! 1) = Some (LengthIs (fh_payload_size h) (fh_offset h))"
    using parsed by (simp_all add: h)
qed

lemma parse_frame_total:
  assumes "parse_frame role max_message frame = Some (Complete h)"
  shows "2 \<le> fh_total h \<and> fh_total h \<le> length frame"
  using parse_frame_CompleteD(1,3,4) [OF assms] frame_length_offset [of frame "frame ! 1"] by auto

lemma process_frame_moves:
  assumes "process_frame rand c available = Some (GoesOn, c')"
    and "ws_inbound_offset c + available \<le> length (ws_inbound c)"
  shows "ws_inbound_offset c < ws_inbound_offset c' \<and> ws_inbound_offset c' \<le> length (ws_inbound c') \<and>
    length (ws_inbound c') = length (ws_inbound c)"
proof -
  from assms obtain parsed where "parse_frame (ws_role c) (ws_max_message c)
      (take available (drop (ws_inbound_offset c) (ws_inbound c))) = Some parsed"
    by (auto simp: process_frame_def Option.bind_eq_Some_conv)
  with assms obtain h payload c1 c2 where
      "parse_frame (ws_role c) (ws_max_message c) (take available (drop (ws_inbound_offset c) (ws_inbound c)))
         = Some (Complete h)"
    and taken: "take_payload c h = Some (payload, c1)"
    and handled: "handle_frame rand c1 (fh_opcode h) (fh_fin h) payload = Some (GoesOn, c2)"
    and accounted: "account_frame c2 h = Some (GoesOn, c')"
    by (cases parsed) (auto simp: process_frame_def Option.bind_eq_Some_conv split: if_splits)
  from parse_frame_total [OF this(1)] assms(2) have "2 \<le> fh_total h" "fh_total h \<le> available" by auto
  moreover have "ws_inbound c' = ws_inbound c2" "ws_inbound_offset c' = ws_inbound_offset c2"
    using accounted by (auto simp: account_frame_def Let_def Option.bind_eq_Some_conv split: if_splits)
  ultimately show ?thesis
    using take_payload_moves [OF taken] handle_frame_input [OF handled] assms(2) by (auto simp: same_input_def)
qed

function Process ::
  "(nat \<Rightarrow> u32 option) \<Rightarrow> WebSocketCodec \<Rightarrow> (WebSocketThrow option \<times> WebSocketCodec) option" where
  "Process rand c = do {
     available \<leftarrow> size_sub (length (ws_inbound c)) (ws_inbound_offset c);
     if ws_error c = None \<and> available \<ge> 2 then do {
       (step, c) \<leftarrow> process_frame rand c available;
       case step of
         Returned \<Rightarrow> Some (None, c)
       | Threw thrown \<Rightarrow> Some (Some thrown, c)
       | GoesOn \<Rightarrow> Process rand c
     } else Some (None, c)
   }"
  by pat_completeness auto
termination
proof (relation "measure (\<lambda>(rand, c). length (ws_inbound c) - ws_inbound_offset c)")
  fix rand :: "nat \<Rightarrow> u32 option" and c c' :: WebSocketCodec and available step result
  assume "size_sub (length (ws_inbound c)) (ws_inbound_offset c) = Some available"
    and "process_frame rand c available = Some result" "(step, c') = result" "step = GoesOn"
  then show "((rand, c'), (rand, c)) \<in> measure (\<lambda>(rand, c). length (ws_inbound c) - ws_inbound_offset c)"
    using process_frame_moves [of rand c available c'] by (auto simp: size_sub_eq_Some)
qed simp

declare Process.simps [simp del]

definition Feed ::
  "(nat \<Rightarrow> u32 option) \<Rightarrow> WebSocketCodec \<Rightarrow> bytes \<Rightarrow> (WebSocketThrow option \<times> WebSocketCodec) option" where
  "Feed rand c data =
     (if ws_error c \<noteq> None \<or> data = [] then Some (None, c)
      else do {
        pending \<leftarrow> size_sub (length (ws_inbound c)) (ws_inbound_offset c);
        room \<leftarrow> size_sub kMaxPendingBytes pending;
        if length data > room then Some (None, Fail c InputLimit)
        else do {
          let c = (if ws_inbound_offset c \<noteq> 0
                   then c\<lparr>ws_inbound := drop (ws_inbound_offset c) (ws_inbound c), ws_inbound_offset := 0\<rparr>
                   else c);
          let c = c\<lparr>ws_inbound := ws_inbound c @ data\<rparr>;
          (thrown, c) \<leftarrow> Process rand c;
          if thrown \<noteq> None then Some (thrown, c)
          else if ws_inbound_offset c = length (ws_inbound c)
            then Some (None, c\<lparr>ws_inbound := [], ws_inbound_offset := 0\<rparr>)
          else Some (None, c)
        }
      })"

definition TakeDrain :: "WebSocketCodec \<Rightarrow> WebSocketDrain \<times> WebSocketCodec" where
  "TakeDrain c =
     (\<lparr>dr_tunnel_bytes = ws_decoded c, dr_consumable = ws_consumable c\<rparr>,
      c\<lparr>ws_decoded := [], ws_consumable := 0\<rparr>)"

definition TakeWireReplies :: "WebSocketCodec \<Rightarrow> bytes \<times> WebSocketCodec" where
  "TakeWireReplies c = (ws_wire_replies c, c\<lparr>ws_wire_replies := []\<rparr>)"

end
