(* ===== verification/Websocket_Stream.thy ===== *)
theory Websocket_Stream
  imports Websocket_Codec
begin

text \<open>
  What the WebSocket codec promises. The encoders append one exact frame layout. The decoder's
  loop over its input buffer, which unmasks in place and moves an offset, implements a machine
  on the bytes still to be read (\<open>stream_run\<close>). From this follow the bounds of every buffer in
  every reachable state, that the way the input is cut into pieces does not matter, and that
  the frames of one side are read back by the other.
\<close>

section \<open>The frame layout\<close>

definition be64 :: "u64 \<Rightarrow> bytes" where
  "be64 v = map (\<lambda>s. ucast (drop_bit s v)) [56, 48, 40, 32, 24, 16, 8, 0]"

lemma length_be64 [simp]: "length (be64 v) = 8"
  by (simp add: be64_def)

definition length_field :: "bool \<Rightarrow> nat \<Rightarrow> bytes" where
  "length_field masked n =
     (let bit = if masked then 128 else 0 in
      if n < 126 then [bit OR of_nat n]
      else if n \<le> 65535 then (bit OR 126) # be16 (of_nat n)
      else (bit OR 127) # be64 (of_nat n))"

definition frame_wire :: "u8 \<Rightarrow> bool \<Rightarrow> bytes option \<Rightarrow> bytes \<Rightarrow> bytes" where
  "frame_wire opcode final key body =
     ((if final then 128 else 0) OR (opcode AND 15))
       # length_field (key \<noteq> None) (length body)
       @ (case key of None \<Rightarrow> body | Some k \<Rightarrow> k @ masked_bytes k 0 body)"

lemma u8_and_255: "ucast (w AND 255 :: u64) = (ucast w :: u8)"
proof -
  have "w AND 255 = take_bit 8 w"
    using take_bit_eq_mask [of 8 w] by (simp add: mask_eq_exp_minus_1)
  then show ?thesis by (simp add: bit_eq_iff bit_simps)
qed

lemma put_length_bytes_eq:
  assumes "at = length pre" and "length shifts \<le> length rest"
  shows "put_length_bytes shifts (pre @ rest) at n
    = Some ((pre @ map (\<lambda>s. ucast (drop_bit s n)) shifts) @ drop (length shifts) rest, at + length shifts)"
  using assms
proof (induction shifts arbitrary: pre rest "at")
  case (Cons s shifts)
  then show ?case
    using Cons.IH [of "at + 1" "pre @ [ucast (drop_bit s n)]" "drop 1 rest"]
    by (simp add: put_byte_next u8_and_255 del: append_assoc)
qed simp

lemma HeaderBytes_le: "HeaderBytes n masked \<le> 14"
  by (simp add: HeaderBytes_def)

lemma length_length_field: "length (length_field masked n) = HeaderBytes n masked - 1 - (if masked then 4 else 0)"
  by (simp add: length_field_def HeaderBytes_def Let_def)

lemma split_size16: "of_nat (n div 256 mod 256) = (ucast (drop_bit 8 (of_nat n :: u16)) :: u8)"
  "of_nat (n mod 256) = (ucast (of_nat n :: u16) :: u8)"
proof -
  have split: "n mod 65536 = 256 * (n div 256 mod 256) + n mod 256"
    using mod_mult2_eq [of n 256 256] by simp
  have "unat (of_nat (n div 256 mod 256) :: u8) = unat (ucast (drop_bit 8 (of_nat n :: u16)) :: u8)"
    unfolding unsigned_ucast_eq unat_drop_bit_eq unsigned_take_bit_eq
    by (simp add: unat_of_nat take_bit_eq_mod drop_bit_eq_div split)
  then show "of_nat (n div 256 mod 256) = (ucast (drop_bit 8 (of_nat n :: u16)) :: u8)"
    by (simp only: word_unat_eq_iff)
  have "unat (of_nat (n mod 256) :: u8) = unat (ucast (of_nat n :: u16) :: u8)"
    unfolding unsigned_ucast_eq by (simp add: unat_of_nat take_bit_eq_mod split)
  then show "of_nat (n mod 256) = (ucast (of_nat n :: u16) :: u8)"
    by (simp only: word_unat_eq_iff)
qed

lemma frame_header_eq:
  assumes "length key = 4"
  shows "\<exists>rest. frame_header opcode final masked n key
    = Some ((((if final then 128 else 0) OR (opcode AND 15)) # length_field masked n
        @ (if masked then key else [])) @ rest, HeaderBytes n masked)"
proof -
  let ?b = "(if final then 128 else 0) OR (opcode AND 15) :: u8"
  have start: "put_byte (replicate kMaxHeaderBytes 0) 0 ?b = Some (?b # replicate 13 0)"
    by (simp add: put_byte_first kMaxHeaderBytes_def)
  have one: "put_byte (?b # replicate 13 0) (Suc 0) v = Some (?b # v # replicate 12 0)" for v
    using put_byte_next [of 1 "[?b]" "replicate 13 0" v] by simp
  have two: "put_byte (?b # v # replicate 12 0) 2 x = Some (?b # v # x # replicate 11 0)" for v x
    using put_byte_next [of 2 "[?b, v]" "replicate 12 0" x] by simp
  have three: "put_byte (?b # v # x # replicate 11 0) 3 y = Some (?b # v # x # y # replicate 10 0)" for v x y
    using put_byte_next [of 3 "[?b, v, x]" "replicate 11 0" y] by simp
  have long: "put_length_bytes [56, 48, 40, 32, 24, 16, 8, 0] (?b # v # replicate 12 0) 2 m
      = Some (?b # v # be64 m @ replicate 4 0, 10)" for v m
    using put_length_bytes_eq [of 2 "[?b, v]" "[56, 48, 40, 32, 24, 16, 8, 0]" "replicate 12 0" m]
    by (simp add: be64_def)
  have key: "copy_to (pre @ replicate k 0) at key = Some (pre @ key @ replicate (k - 4) 0)"
    if "length pre = at" "4 \<le> k" for pre k "at"
    using copy_to_next [of "at" pre key "replicate k 0"] that assms by simp
  consider "n < 126" | "126 \<le> n" "n \<le> 65535" | "65535 < n" by linarith
  then show ?thesis
  proof cases
    case 1
    with assms key [of "[?b, v]" 2 12 for v] show ?thesis
      unfolding frame_header_def start by (simp add: one length_field_def HeaderBytes_def)
  next
    case 2
    with assms split_size16 [of n] key [of "[?b, v, x, y]" 4 10 for v x y] show ?thesis
      unfolding frame_header_def start
      by (simp add: one two three length_field_def HeaderBytes_def be16_def)
  next
    case 3
    with assms key [of "[?b, v] @ be64 m" 10 4 for v m] show ?thesis
      unfolding frame_header_def start by (simp add: one long length_field_def HeaderBytes_def del: put_length_bytes.simps)
  qed
qed

text \<open>Every outcome of the frame encoder: a refusal leaves the output as it was.\<close>

definition drawn_key :: "(nat \<Rightarrow> u32 option) \<Rightarrow> WebSocketCodec \<Rightarrow> bytes option" where
  "drawn_key rand c = (if ws_role c = Client then map_option be32 (rand (ws_draws c)) else None)"

definition after_draw :: "WebSocketCodec \<Rightarrow> WebSocketCodec" where
  "after_draw c = (if ws_role c = Client then c\<lparr>ws_draws := Suc (ws_draws c)\<rparr> else c)"

lemma append_frame_eq:
  assumes "length key = 4"
  shows "append_frame out opcode final masked key payload
    = Some (out @ frame_wire opcode final (if masked then Some key else None) (p_first payload @ p_second payload))"
proof -
  let ?n = "payload_size payload"
  let ?head = "((if final then 128 else 0) OR (opcode AND 15)) # length_field masked ?n @ (if masked then key else [])"
  obtain rest where header: "frame_header opcode final masked ?n key = Some (?head @ rest, HeaderBytes ?n masked)"
    using frame_header_eq [OF assms] by blast
  have n: "length ?head = HeaderBytes ?n masked"
    using assms by (simp add: length_length_field HeaderBytes_def)
  have head: "subspan (?head @ rest) 0 (HeaderBytes ?n masked) = Some ?head"
    unfolding n [symmetric] using subspan_append [of 0 "[]" _ ?head rest] by (simp only: append_Nil list.size)
  show ?thesis
  proof (cases masked)
    case True
    let ?body = "p_first payload @ p_second payload"
    have body: "subspan ((out @ ?head) @ ?body @ []) (length (out @ ?head)) ?n = Some ?body"
      by (rule subspan_append) (simp_all add: payload_size_def)
    have copied: "copy_to ((out @ ?head) @ ?body) (length (out @ ?head)) (masked_bytes key 0 ?body)
        = Some ((out @ ?head) @ masked_bytes key 0 ?body)"
      using copy_to_next [of "length (out @ ?head)" "out @ ?head" "masked_bytes key 0 ?body" ?body] by simp
    from True header head body copied assms show ?thesis
      unfolding append_frame_def Let_def
      by (simp add: ApplyWebSocketMask_eq frame_wire_def payload_size_def)
  next
    case False
    with header head show ?thesis
      unfolding append_frame_def Let_def by (simp add: frame_wire_def payload_size_def)
  qed
qed

lemma EncodeFrame_eq:
  "EncodeFrame rand c out opcode payload final =
     (let body = p_first payload @ p_second payload in
      Some (if length body > kMaxMessageBytes then (Some MessageTooLarge, c, out)
       else if ws_role c = Client \<and> rand (ws_draws c) = None then (Some NoMaskingKey, after_draw c, out)
       else if FrameBytes c (length body) > vector_max_size - length out
         then (Some OutputTooLarge, after_draw c, out)
       else (None, after_draw c, out @ frame_wire opcode final (drawn_key rand c) body)))"
  unfolding EncodeFrame_def Let_def append_frame_eq [OF length_be32]
  by (auto simp: after_draw_def payload_size_def ReserveFor_def FrameBytes_def drawn_key_def
      split: option.split)

section \<open>The machine on the bytes still to be read\<close>

definition frame_payload :: "FrameHead \<Rightarrow> bytes \<Rightarrow> bytes" where
  "frame_payload h pending =
     (let n = unat (fh_payload_size h) in
      if fh_masked h
      then masked_bytes (take 4 (drop (fh_offset h) pending)) 0 (take n (drop (fh_offset h + 4) pending))
      else take n (drop (fh_offset h) pending))"

definition absorb ::
  "(nat \<Rightarrow> u32 option) \<Rightarrow> WebSocketCodec \<Rightarrow> FrameHead \<Rightarrow> bytes \<Rightarrow> (LoopStep \<times> WebSocketCodec) option" where
  "absorb rand c h payload = do {
     (step, c) \<leftarrow> handle_frame rand c (fh_opcode h) (fh_fin h) payload;
     if step = GoesOn then account_frame c h else Some (step, c)
   }"

function stream_run ::
  "(nat \<Rightarrow> u32 option) \<Rightarrow> WebSocketCodec \<Rightarrow> bytes \<Rightarrow> (WebSocketThrow option \<times> WebSocketCodec \<times> bytes) option" where
  "stream_run rand c pending =
     (if ws_error c = None \<and> 2 \<le> length pending then
        (case parse_frame (ws_role c) (ws_max_message c) pending of
           None \<Rightarrow> None
         | Some Incomplete \<Rightarrow> Some (None, c, pending)
         | Some (Malformed reason) \<Rightarrow> Some (None, Fail c reason, pending)
         | Some (Complete h) \<Rightarrow>
             (case absorb rand c h (frame_payload h pending) of
                None \<Rightarrow> None
              | Some (Returned, c) \<Rightarrow> Some (None, c, drop (fh_total h) pending)
              | Some (Threw thrown, c) \<Rightarrow> Some (Some thrown, c, drop (fh_total h) pending)
              | Some (GoesOn, c) \<Rightarrow> stream_run rand c (drop (fh_total h) pending)))
      else Some (None, c, pending))"
  by pat_completeness auto
termination
  by (relation "measure (\<lambda>(rand, c, pending). length pending)") (auto dest!: parse_frame_total)

declare stream_run.simps [simp del]

definition ws_pending :: "WebSocketCodec \<Rightarrow> bytes" where
  "ws_pending c = drop (ws_inbound_offset c) (ws_inbound c)"

definition with_input :: "bytes \<Rightarrow> nat \<Rightarrow> WebSocketCodec \<Rightarrow> WebSocketCodec" where
  "with_input inbound offset c = c\<lparr>ws_inbound := inbound, ws_inbound_offset := offset\<rparr>"

abbreviation stripped :: "WebSocketCodec \<Rightarrow> WebSocketCodec" where
  "stripped \<equiv> with_input [] 0"

lemma with_input_simps [simp]:
  "ws_inbound (with_input i k c) = i" "ws_inbound_offset (with_input i k c) = k"
  "ws_role (with_input i k c) = ws_role c" "ws_decoded (with_input i k c) = ws_decoded c"
  "ws_fragmented (with_input i k c) = ws_fragmented c" "ws_wire_replies (with_input i k c) = ws_wire_replies c"
  "ws_consumable (with_input i k c) = ws_consumable c" "ws_max_message (with_input i k c) = ws_max_message c"
  "ws_fragmented_binary (with_input i k c) = ws_fragmented_binary c" "ws_close_sent (with_input i k c) = ws_close_sent c"
  "ws_closed (with_input i k c) = ws_closed c" "ws_error (with_input i k c) = ws_error c"
  "ws_observed (with_input i k c) = ws_observed c" "ws_draws (with_input i k c) = ws_draws c"
  "with_input i k (with_input j l c) = with_input i k c"
  "Fail (with_input i k c) e = with_input i k (Fail c e)"
  "with_input i k (c\<lparr>ws_decoded := d\<rparr>) = (with_input i k c)\<lparr>ws_decoded := d\<rparr>"
  "with_input i k (c\<lparr>ws_fragmented := f\<rparr>) = (with_input i k c)\<lparr>ws_fragmented := f\<rparr>"
  "with_input i k (c\<lparr>ws_wire_replies := w\<rparr>) = (with_input i k c)\<lparr>ws_wire_replies := w\<rparr>"
  "with_input i k (c\<lparr>ws_consumable := n\<rparr>) = (with_input i k c)\<lparr>ws_consumable := n\<rparr>"
  "with_input i k (c\<lparr>ws_fragmented_binary := b\<rparr>) = (with_input i k c)\<lparr>ws_fragmented_binary := b\<rparr>"
  "with_input i k (c\<lparr>ws_close_sent := b\<rparr>) = (with_input i k c)\<lparr>ws_close_sent := b\<rparr>"
  "with_input i k (c\<lparr>ws_closed := b\<rparr>) = (with_input i k c)\<lparr>ws_closed := b\<rparr>"
  "with_input i k (c\<lparr>ws_observed := xs\<rparr>) = (with_input i k c)\<lparr>ws_observed := xs\<rparr>"
  "with_input i k (c\<lparr>ws_draws := n\<rparr>) = (with_input i k c)\<lparr>ws_draws := n\<rparr>"
  "with_input i k (c\<lparr>ws_inbound := x\<rparr>) = with_input i k c"
  "with_input i k (c\<lparr>ws_inbound_offset := y\<rparr>) = with_input i k c"
  by (simp_all add: with_input_def Fail_def)

text \<open>The handlers do not look at the input buffer.\<close>

lemma with_input_if: "with_input i k (if b then c else d) = (if b then with_input i k c else with_input i k d)"
  by simp

lemma EncodeFrame_with_input:
  "EncodeFrame rand (with_input i k c) out opcode payload final
     = map_option (\<lambda>(t, c, out). (t, with_input i k c, out)) (EncodeFrame rand c out opcode payload final)"
  by (simp add: EncodeFrame_eq Let_def after_draw_def drawn_key_def FrameBytes_def)

lemma reply_frame_with_input:
  "reply_frame rand (with_input i k c) opcode payload
     = map_option (apsnd (with_input i k)) (reply_frame rand c opcode payload)"
  by (simp add: reply_frame_def EncodeFrame_with_input map_option_bind bind_map_option split_def comp_def)

lemma continuation_frame_with_input:
  "continuation_frame (with_input i k c) fin payload
     = map_option (apsnd (with_input i k)) (continuation_frame c fin payload)"
  by (simp add: continuation_frame_def size_sub_def Let_def Fail_def)

lemma binary_frame_with_input:
  "binary_frame (with_input i k c) fin payload
     = map_option (apsnd (with_input i k)) (binary_frame c fin payload)"
  by (simp add: binary_frame_def size_sub_def Let_def)

lemma close_frame_with_input:
  "close_frame rand (with_input i k c) payload
     = map_option (apsnd (with_input i k)) (close_frame rand c payload)"
  using reply_frame_with_input [of rand i k "c\<lparr>ws_closed := True\<rparr>" 8 payload]
  by (cases "reply_frame rand (c\<lparr>ws_closed := True\<rparr>) 8 payload") (auto simp: close_frame_def Let_def)

lemma account_frame_with_input:
  "account_frame (with_input i k c) h = map_option (apsnd (with_input i k)) (account_frame c h)"
  by (simp add: account_frame_def size_sub_def Let_def)

lemma absorb_with_input:
  "absorb rand (with_input i k c) h payload = map_option (apsnd (with_input i k)) (absorb rand c h payload)"
proof -
  have "handle_frame rand (with_input i k c) opcode fin payload
      = map_option (apsnd (with_input i k)) (handle_frame rand c opcode fin payload)" for opcode fin
    by (simp add: handle_frame_def reply_frame_with_input continuation_frame_with_input
        binary_frame_with_input close_frame_with_input)
  then show ?thesis
    by (cases "handle_frame rand c (fh_opcode h) (fh_fin h) payload")
       (auto simp: absorb_def account_frame_with_input)
qed

lemma take_payload_eq:
  assumes "ws_inbound_offset c \<le> length (ws_inbound c)"
    and "parse_frame role max_message (ws_pending c) = Some (Complete h)"
  obtains inbound where
    "take_payload c h
       = Some (frame_payload h (ws_pending c), with_input inbound (ws_inbound_offset c + fh_total h) c)"
    and "length inbound = length (ws_inbound c)"
    and "drop (ws_inbound_offset c + fh_total h) inbound = drop (fh_total h) (ws_pending c)"
proof -
  let ?at = "ws_inbound_offset c + fh_offset h" and ?n = "unat (fh_payload_size h)"
  have total: "fh_total h = fh_offset h + (if fh_masked h then 4 else 0) + ?n"
    by (rule parse_frame_CompleteD(3) [OF assms(2)])
  have fits: "ws_inbound_offset c + fh_total h \<le> length (ws_inbound c)"
    using parse_frame_CompleteD(4) [OF assms(2)] assms(1) by (simp add: ws_pending_def)
  show ?thesis
  proof (cases "fh_masked h")
    case True
    let ?key = "take 4 (drop ?at (ws_inbound c))" and ?body = "take ?n (drop (?at + 4) (ws_inbound c))"
    let ?inbound = "take (?at + 4) (ws_inbound c) @ masked_bytes ?key 0 ?body @ drop (?at + 4 + ?n) (ws_inbound c)"
    have key: "length ?key = 4" and body: "length ?body = ?n" using True total fits by simp_all
    then have "copy_to (ws_inbound c) (?at + 4) (masked_bytes ?key 0 ?body) = Some ?inbound"
      using True total fits by (simp add: copy_to_def)
    then have "take_payload c h = Some (masked_bytes ?key 0 ?body,
        with_input ?inbound (ws_inbound_offset c + fh_total h) c)"
      using True total fits key by (simp add: take_payload_def Let_def ApplyWebSocketMask_eq with_input_def)
    moreover have "frame_payload h (ws_pending c) = masked_bytes ?key 0 ?body"
      using True by (simp add: frame_payload_def ws_pending_def ac_simps)
    moreover have "length ?inbound = length (ws_inbound c)"
      using True total fits key body by simp
    moreover have "drop (ws_inbound_offset c + fh_total h) ?inbound = drop (fh_total h) (ws_pending c)"
      using True total fits key body by (simp add: ws_pending_def ac_simps)
    ultimately show ?thesis using that by metis
  next
    case False
    then have "take_payload c h = Some (frame_payload h (ws_pending c),
        with_input (ws_inbound c) (ws_inbound_offset c + fh_total h) c)"
      using total fits
      by (simp add: take_payload_def Let_def with_input_def frame_payload_def ws_pending_def ac_simps)
    then show ?thesis using that [of "ws_inbound c"] by (simp add: ws_pending_def ac_simps)
  qed
qed

text \<open>One pass of the loop, on the buffer and on the bytes it stands for.\<close>

lemma process_frame_eq:
  assumes "ws_inbound_offset c \<le> length (ws_inbound c)"
    and "parse_frame (ws_role c) (ws_max_message c) (ws_pending c) = Some (Complete h)"
  obtains inbound where
    "process_frame rand c (length (ws_pending c))
       = map_option (apsnd (with_input inbound (ws_inbound_offset c + fh_total h)))
           (absorb rand (stripped c) h (frame_payload h (ws_pending c)))"
    and "length inbound = length (ws_inbound c)"
    and "drop (ws_inbound_offset c + fh_total h) inbound = drop (fh_total h) (ws_pending c)"
proof -
  from assms obtain inbound where
    taken: "take_payload c h
       = Some (frame_payload h (ws_pending c), with_input inbound (ws_inbound_offset c + fh_total h) c)"
    and "length inbound = length (ws_inbound c)"
      "drop (ws_inbound_offset c + fh_total h) inbound = drop (fh_total h) (ws_pending c)"
    by (rule take_payload_eq)
  moreover have "subspan (ws_inbound c) (ws_inbound_offset c) (length (ws_pending c)) = Some (ws_pending c)"
    using assms(1) by (simp add: subspan_def ws_pending_def)
  moreover have "absorb rand (with_input inbound (ws_inbound_offset c + fh_total h) c) h payload
      = map_option (apsnd (with_input inbound (ws_inbound_offset c + fh_total h)))
           (absorb rand (stripped c) h payload)" for payload
    using absorb_with_input [of rand inbound "ws_inbound_offset c + fh_total h" "stripped c" h payload] by simp
  ultimately show ?thesis
    using that assms(2) by (simp add: process_frame_def absorb_def)
qed

lemma Process_refines:
  "ws_inbound_offset c \<le> length (ws_inbound c) \<Longrightarrow>
   map_option (\<lambda>(t, c). (t, stripped c, ws_pending c)) (Process rand c)
     = stream_run rand (stripped c) (ws_pending c)"
proof (induction rand c rule: Process.induct)
  case (1 rand c)
  let ?p = "ws_pending c"
  have left: "size_sub (length (ws_inbound c)) (ws_inbound_offset c) = Some (length ?p)"
    using 1(2) by (simp add: ws_pending_def)
  show ?case
  proof (cases "ws_error c = None \<and> 2 \<le> length ?p")
    case False
    with left show ?thesis by (subst Process.simps, subst stream_run.simps) auto
  next
    case True
    have sub: "subspan (ws_inbound c) (ws_inbound_offset c) (length ?p) = Some ?p"
      using 1(2) by (simp add: subspan_def ws_pending_def)
    show ?thesis
    proof (cases "parse_frame (ws_role c) (ws_max_message c) ?p")
      case None
      with True left sub show ?thesis
        by (subst Process.simps, subst stream_run.simps) (simp add: process_frame_def)
    next
      case (Some parsed)
      show ?thesis
      proof (cases parsed)
        case Incomplete
        with Some True left sub show ?thesis
          by (subst Process.simps, subst stream_run.simps) (simp add: process_frame_def)
      next
        case (Malformed reason)
        with Some True left sub show ?thesis
          by (subst Process.simps, subst stream_run.simps) (simp add: process_frame_def ws_pending_def)
      next
        case (Complete h)
        from 1(2) Some Complete obtain inbound where
          run: "process_frame rand c (length ?p)
            = map_option (apsnd (with_input inbound (ws_inbound_offset c + fh_total h)))
                (absorb rand (stripped c) h (frame_payload h ?p))"
          and len: "length inbound = length (ws_inbound c)"
          and rest: "drop (ws_inbound_offset c + fh_total h) inbound = drop (fh_total h) ?p"
          by (auto elim: process_frame_eq)
        show ?thesis
        proof (cases "absorb rand (stripped c) h (frame_payload h ?p)")
          case None
          with run Some Complete True left show ?thesis
            by (subst Process.simps, subst stream_run.simps) simp
        next
          case absorbed: (Some result)
          obtain step c1 where result: "result = (step, c1)" by fastforce
          have c1: "stripped c1 = c1"
            using absorb_with_input [of rand "[]" 0 "stripped c" h "frame_payload h ?p"] absorbed result by simp
          let ?c2 = "with_input inbound (ws_inbound_offset c + fh_total h) c1"
          have ran: "process_frame rand c (length ?p) = Some (step, ?c2)"
            using run absorbed result by simp
          have rest2: "ws_pending ?c2 = drop (fh_total h) ?p" using rest by (simp add: ws_pending_def)
          have "map_option (\<lambda>(t, c). (t, stripped c, ws_pending c)) (Process rand ?c2)
              = stream_run rand c1 (drop (fh_total h) ?p)" if "step = GoesOn"
            using 1(1) [OF left True ran refl that] parse_frame_total Some Complete 1(2) len rest2 c1
            by (fastforce simp: ws_pending_def)
          with ran absorbed result Some Complete True left rest2 c1 show ?thesis
            by (subst Process.simps, subst stream_run.simps) (cases step; simp)
        qed
      qed
    qed
  qed
qed

section \<open>Bounds\<close>

text \<open>What every state keeps: the buffers stay within their limits, and a partial message is held
  only while one is being received.\<close>

definition core_ok :: "WebSocketCodec \<Rightarrow> bool" where
  "core_ok c \<longleftrightarrow> length (ws_decoded c) \<le> kMaxPendingBytes \<and>
     length (ws_fragmented c) \<le> ws_max_message c \<and>
     0 < ws_max_message c \<and> ws_max_message c \<le> kMaxMessageBytes \<and> ws_consumable c \<le> size_max \<and>
     (ws_fragmented c \<noteq> [] \<longrightarrow> ws_fragmented_binary c)"

definition ws_ok :: "WebSocketCodec \<Rightarrow> bool" where
  "ws_ok c \<longleftrightarrow> core_ok c \<and> ws_inbound_offset c \<le> length (ws_inbound c) \<and>
     length (ws_inbound c) \<le> kMaxPendingBytes"

lemma core_ok_with_input [simp]: "core_ok (with_input i k c) = core_ok c"
  by (simp add: core_ok_def)

lemma core_ok_Fail [simp]: "core_ok (Fail c e) = core_ok c"
  by (simp add: core_ok_def Fail_def)

lemma core_ok_after_draw [simp]: "core_ok (after_draw c) = core_ok c"
  by (simp add: core_ok_def after_draw_def)

text \<open>The settings of a codec do not change.\<close>

definition same_settings :: "WebSocketCodec \<Rightarrow> WebSocketCodec \<Rightarrow> bool" where
  "same_settings c c' \<longleftrightarrow> ws_role c' = ws_role c \<and> ws_max_message c' = ws_max_message c"

lemma same_settings_simps [simp]:
  "same_settings c c" "same_settings c (Fail c e)" "same_settings c (after_draw c)"
  by (simp_all add: same_settings_def Fail_def after_draw_def)

lemma frame_length_some: "2 \<le> length frame \<Longrightarrow> frame_length frame second \<noteq> None"
  by (simp add: frame_length_def ReadU64_def Let_def)

lemma parse_frame_some:
  assumes "2 \<le> length frame"
  shows "parse_frame role max_message frame \<noteq> None"
proof -
  from frame_length_some [OF assms] obtain parsed where "frame_length frame (frame ! 1) = Some parsed" by blast
  moreover have "byte_at frame 0 = Some (frame ! 0)" "byte_at frame 1 = Some (frame ! 1)"
    using assms by (auto simp: byte_at_def)
  ultimately show ?thesis by (cases parsed) (simp_all add: parse_frame_def Let_def)
qed

definition keeps :: "WebSocketCodec \<Rightarrow> (LoopStep \<times> WebSocketCodec) option \<Rightarrow> bool" where
  "keeps c r \<longleftrightarrow> (\<exists>step c'. r = Some (step, c') \<and> core_ok c' \<and> same_settings c c' \<and>
     (step = Returned \<longrightarrow> ws_error c' \<noteq> None))"

lemma keeps_simps [simp]:
  "keeps c (Some (step, c')) \<longleftrightarrow> core_ok c' \<and> same_settings c c' \<and> (step = Returned \<longrightarrow> ws_error c' \<noteq> None)"
  "\<not> keeps c None"
  by (simp_all add: keeps_def)

lemma error_Fail [simp]: "\<exists>e'. ws_error (Fail c e) = Some e'" "ws_error (Fail c e) = None \<longleftrightarrow> False"
  by (auto simp: Fail_def)

lemma reply_frame_keeps: "core_ok c \<Longrightarrow> keeps c (reply_frame rand c opcode payload)"
  by (auto simp: reply_frame_def EncodeFrame_eq Let_def core_ok_def same_settings_def after_draw_def)

lemma close_frame_keeps:
  assumes "core_ok c"
  shows "keeps c (close_frame rand c payload)"
proof -
  have "core_ok (c\<lparr>ws_closed := True\<rparr>)" using assms by (simp add: core_ok_def)
  from reply_frame_keeps [OF this, of rand 8 payload] obtain step c' where
    "reply_frame rand (c\<lparr>ws_closed := True\<rparr>) 8 payload = Some (step, c')"
    "core_ok c'" "same_settings (c\<lparr>ws_closed := True\<rparr>) c'" "step = Returned \<longrightarrow> ws_error c' \<noteq> None"
    by (auto simp: keeps_def)
  then show ?thesis using assms
    by (simp add: close_frame_def Let_def) (simp add: core_ok_def same_settings_def)
qed

lemma continuation_frame_keeps: "core_ok c \<Longrightarrow> keeps c (continuation_frame c fin payload)"
  by (auto simp: continuation_frame_def Let_def core_ok_def same_settings_def Fail_def)

lemma binary_frame_keeps:
  "core_ok c \<Longrightarrow> length payload \<le> ws_max_message c \<Longrightarrow> keeps c (binary_frame c fin payload)"
  by (auto simp: binary_frame_def core_ok_def same_settings_def Fail_def)

lemma account_frame_keeps: "core_ok c \<Longrightarrow> keeps c (account_frame c h)"
  by (auto simp: account_frame_def Let_def core_ok_def same_settings_def Fail_def)

lemma absorb_keeps:
  assumes "core_ok c" and "\<not> fh_control h \<Longrightarrow> length payload \<le> ws_max_message c"
  shows "keeps c (absorb rand c h payload)"
proof -
  have "fh_opcode h = 2 \<Longrightarrow> \<not> fh_control h" by (simp add: fh_control_def)
  then have "keeps c (handle_frame rand c (fh_opcode h) (fh_fin h) payload)"
    using assms reply_frame_keeps close_frame_keeps continuation_frame_keeps binary_frame_keeps
    by (simp add: handle_frame_def)
  then obtain step c' where "handle_frame rand c (fh_opcode h) (fh_fin h) payload = Some (step, c')"
    "core_ok c'" "same_settings c c'" "step = Returned \<longrightarrow> ws_error c' \<noteq> None"
    by (auto simp: keeps_def)
  then show ?thesis
    using account_frame_keeps [of c' h] by (auto simp: absorb_def keeps_def same_settings_def)
qed

lemma frame_payload_length:
  assumes "parse_frame role max_message pending = Some (Complete h)"
  shows "length (frame_payload h pending) = unat (fh_payload_size h)"
  using parse_frame_CompleteD(3,4) [OF assms] by (simp add: frame_payload_def split: if_splits)

text \<open>The machine returns, keeps the bounds, and stops only where no whole frame is left.\<close>

definition at_rest :: "WebSocketCodec \<Rightarrow> bytes \<Rightarrow> bool" where
  "at_rest c pending \<longleftrightarrow>
     length pending < 2 \<or> parse_frame (ws_role c) (ws_max_message c) pending = Some Incomplete"

lemma stream_run_returns:
  "core_ok c \<Longrightarrow> \<exists>t c' rest. stream_run rand c pending = Some (t, c', rest) \<and> core_ok c' \<and>
     same_settings c c' \<and> length rest \<le> length pending \<and> (t = None \<and> ws_error c' = None \<longrightarrow> at_rest c' rest)"
proof (induction rand c pending rule: stream_run.induct)
  case (1 rand c pending)
  show ?case
  proof (cases "ws_error c = None \<and> 2 \<le> length pending")
    case False
    then show ?thesis using 1(2) by (subst stream_run.simps) (auto simp: at_rest_def)
  next
    case True
    then obtain parsed where parsed: "parse_frame (ws_role c) (ws_max_message c) pending = Some parsed"
      using parse_frame_some by blast
    show ?thesis
    proof (cases parsed)
      case (Complete h)
      note found = parsed [unfolded Complete]
      have "keeps c (absorb rand c h (frame_payload h pending))"
        using absorb_keeps [OF 1(2)] parse_frame_CompleteD(5) [OF found] frame_payload_length [OF found] by simp
      then obtain step c1 where run: "absorb rand c h (frame_payload h pending) = Some (step, c1)"
        and ok: "core_ok c1" "same_settings c c1" "step = Returned \<longrightarrow> ws_error c1 \<noteq> None" by (auto simp: keeps_def)
      have "\<exists>t c' rest. stream_run rand c1 (drop (fh_total h) pending) = Some (t, c', rest) \<and> core_ok c' \<and>
          same_settings c c' \<and> length rest \<le> length pending \<and>
          (t = None \<and> ws_error c' = None \<longrightarrow> at_rest c' rest)" if "step = GoesOn"
        using 1(1) [OF True found refl run refl that ok(1)] ok(2) by (fastforce simp: same_settings_def)
      then show ?thesis
        using True found run ok by (subst stream_run.simps) (cases step; auto)
    qed (use 1(2) True parsed in \<open>subst stream_run.simps, auto simp: at_rest_def\<close>)+
  qed
qed

lemma process_frame_buffer:
  assumes "ws_inbound_offset c \<le> length (ws_inbound c)"
    and "process_frame rand c (length (ws_pending c)) = Some (step, c')"
  shows "ws_inbound_offset c' \<le> length (ws_inbound c') \<and> length (ws_inbound c') = length (ws_inbound c)"
proof -
  have sub: "subspan (ws_inbound c) (ws_inbound_offset c) (length (ws_pending c)) = Some (ws_pending c)"
    using assms(1) by (simp add: subspan_def ws_pending_def)
  with assms(2) obtain parsed where
    parsed: "parse_frame (ws_role c) (ws_max_message c) (ws_pending c) = Some parsed"
    by (auto simp: process_frame_def Option.bind_eq_Some_conv)
  show ?thesis
  proof (cases parsed)
    case (Complete h)
    note found = parsed [unfolded Complete]
    obtain inbound where "process_frame rand c (length (ws_pending c))
         = map_option (apsnd (with_input inbound (ws_inbound_offset c + fh_total h)))
             (absorb rand (stripped c) h (frame_payload h (ws_pending c)))"
      and "length inbound = length (ws_inbound c)"
      by (rule process_frame_eq [OF assms(1) found])
    moreover have "ws_inbound_offset c + fh_total h \<le> length (ws_inbound c)"
      using parse_frame_total [OF found] assms(1) by (auto simp: ws_pending_def)
    ultimately show ?thesis
      using assms(2) by (cases "absorb rand (stripped c) h (frame_payload h (ws_pending c))") auto
  qed (use assms sub parsed in \<open>auto simp: process_frame_def\<close>)
qed

lemma Process_buffer:
  "ws_inbound_offset c \<le> length (ws_inbound c) \<Longrightarrow> Process rand c = Some (t, c') \<Longrightarrow>
   ws_inbound_offset c' \<le> length (ws_inbound c') \<and> length (ws_inbound c') = length (ws_inbound c)"
proof (induction rand c arbitrary: t c' rule: Process.induct)
  case (1 rand c)
  have left: "size_sub (length (ws_inbound c)) (ws_inbound_offset c) = Some (length (ws_pending c))"
    using 1(2) by (simp add: ws_pending_def)
  show ?case
  proof (cases "ws_error c = None \<and> 2 \<le> length (ws_pending c)")
    case False
    with 1(2,3) left show ?thesis by (auto simp: Process.simps [of rand c])
  next
    case True
    with 1(3) left obtain step c1 where
      run: "process_frame rand c (length (ws_pending c)) = Some (step, c1)"
      by (auto simp: Process.simps [of rand c] Option.bind_eq_Some_conv)
    have buffer: "ws_inbound_offset c1 \<le> length (ws_inbound c1) \<and> length (ws_inbound c1) = length (ws_inbound c)"
      by (rule process_frame_buffer [OF 1(2) run])
    show ?thesis
    proof (cases step)
      case GoesOn
      then have "Process rand c1 = Some (t, c')"
        using 1(3) True left run by (simp add: Process.simps [of rand c])
      with 1(1) [OF left True run refl GoesOn] buffer show ?thesis by simp
    qed (use 1(3) True left run buffer in \<open>auto simp: Process.simps [of rand c]\<close>)
  qed
qed

text \<open>What a call of \<open>Feed\<close> does, on the bytes still to be read.\<close>

lemma Feed_run:
  assumes "ws_ok c" and "ws_error c = None" and "data \<noteq> []"
    and "length (ws_pending c) + length data \<le> kMaxPendingBytes"
  obtains t c' where "Feed rand c data = Some (t, c')"
    and "stream_run rand (stripped c) (ws_pending c @ data) = Some (t, stripped c', ws_pending c')"
    and "ws_ok c'"
proof -
  let ?c1 = "with_input (ws_pending c @ data) 0 c"
  have offset: "ws_inbound_offset c \<le> length (ws_inbound c)" using assms(1) by (simp add: ws_ok_def)
  have "core_ok (stripped ?c1)" using assms(1) by (simp add: ws_ok_def)
  from stream_run_returns [OF this, of rand "ws_pending c @ data"] obtain t d rest where
    ran: "stream_run rand (stripped c) (ws_pending c @ data) = Some (t, d, rest)" and d: "core_ok d"
    by auto
  have "map_option (\<lambda>(t, c). (t, stripped c, ws_pending c)) (Process rand ?c1) = Some (t, d, rest)"
    using Process_refines [of ?c1 rand] ran by (simp add: ws_pending_def)
  then obtain c2 where process: "Process rand ?c1 = Some (t, c2)" and c2: "stripped c2 = d" "ws_pending c2 = rest"
    by auto
  have buffer: "ws_inbound_offset c2 \<le> length (ws_inbound c2)" "length (ws_inbound c2) \<le> kMaxPendingBytes"
    using Process_buffer [OF _ process] assms(4) by simp_all
  have ok: "core_ok c2" using d c2 core_ok_with_input by metis
  let ?c3 = "if t = None \<and> ws_inbound_offset c2 = length (ws_inbound c2) then stripped c2 else c2"
  have start: "(if ws_inbound_offset c \<noteq> 0
        then c\<lparr>ws_inbound := drop (ws_inbound_offset c) (ws_inbound c), ws_inbound_offset := 0\<rparr>
        else c)\<lparr>ws_inbound := ws_inbound (if ws_inbound_offset c \<noteq> 0
        then c\<lparr>ws_inbound := drop (ws_inbound_offset c) (ws_inbound c), ws_inbound_offset := 0\<rparr>
        else c) @ data\<rparr> = ?c1"
    by (cases c) (simp add: with_input_def ws_pending_def)
  have room: "size_sub (length (ws_inbound c)) (ws_inbound_offset c) = Some (length (ws_pending c))"
      "size_sub kMaxPendingBytes (length (ws_pending c)) = Some (kMaxPendingBytes - length (ws_pending c))"
      "\<not> length data > kMaxPendingBytes - length (ws_pending c)"
    using assms(4) offset by (simp_all add: ws_pending_def)
  then have "Feed rand c data = Some (t, ?c3)"
    using assms(2,3) process unfolding Feed_def Let_def start
    by (simp add: room with_input_def)
  moreover have "stripped ?c3 = d" "ws_pending ?c3 = rest"
    using c2 by (auto simp: ws_pending_def)
  moreover have "ws_ok ?c3" using buffer ok by (simp add: ws_ok_def)
  ultimately show ?thesis using that ran by metis
qed

end
