(* ===== verification/Websocket_Exchange.thy ===== *)
theory Websocket_Exchange
  imports Websocket_Stream
begin

text \<open>
  The properties of the WebSocket codec: the bounds of every reachable state, independence of
  how the input is cut, and what one side reads of the frames the other side writes.
\<close>

section \<open>Input in pieces\<close>

lemma frame_length_append:
  assumes "frame_length p second = Some found" and "found \<noteq> LengthMissing"
  shows "frame_length (p @ q) second = Some found"
proof -
  consider "second AND 127 = 126" | "second AND 127 = 127" | "second AND 127 \<noteq> 126" "second AND 127 \<noteq> 127"
    by blast
  then show ?thesis
  proof cases
    case 1
    with assms show ?thesis by (simp add: frame_length_def Let_def nth_append split: if_splits)
  next
    case 2
    with assms show ?thesis by (auto simp: frame_length_def Let_def ReadU64_def split: if_splits)
  next
    case 3
    with assms show ?thesis by (simp add: frame_length_def Let_def)
  qed
qed

lemma parse_frame_append:
  assumes "parse_frame role max_message p = Some found" and "found \<noteq> Incomplete" and "2 \<le> length p"
  shows "parse_frame role max_message (p @ q) = Some found"
proof -
  obtain parsed where parsed: "frame_length p (p ! 1) = Some parsed"
    using frame_length_some [OF assms(3)] by blast
  have bytes: "byte_at p 0 = Some (p ! 0)" "byte_at p 1 = Some (p ! 1)"
      "byte_at (p @ q) 0 = Some (p ! 0)" "byte_at (p @ q) 1 = Some (p ! 1)"
    using assms(3) by (auto simp: byte_at_def nth_append)
  show ?thesis
  proof (cases parsed)
    case LengthMissing
    with assms(1,2) parsed bytes show ?thesis
      by (simp add: parse_frame_def Let_def split: if_splits)
  next
    case (LengthWrong e)
    with frame_length_append [OF parsed, of q] assms(1,2) parsed bytes show ?thesis
      by (simp add: parse_frame_def Let_def split: if_splits)
  next
    case (LengthIs n offset)
    let ?masked = "p ! 1 AND 128 \<noteq> 0"
    let ?total = "offset + (if ?masked then 4 else 0) + unat n"
    define answer where "answer = (\<lambda>short.
      if p ! 0 AND 112 \<noteq> 0 then Malformed (RsvBits (p ! 0))
      else if ?masked \<noteq> (role = Server) then Malformed (if role = Server then ClientNotMasked else ServerMasked)
      else if \<not> (p ! 0 AND 15) AND 8 \<noteq> 0 \<and> unat n > max_message then Malformed BinaryTooLarge
      else if (p ! 0 AND 15) AND 8 \<noteq> 0 \<and> (\<not> p ! 0 AND 128 \<noteq> 0 \<or> n > 125) then Malformed InvalidControl
      else if unat n > size_max - offset - (if ?masked then 4 else 0) then Malformed LengthOverflow
      else if short then Incomplete
      else Complete \<lparr>fh_fin = (p ! 0 AND 128 \<noteq> 0), fh_masked = ?masked, fh_opcode = p ! 0 AND 15,
        fh_payload_size = n, fh_offset = offset, fh_total = ?total\<rparr>)"
    have "parse_frame role max_message f = Some (answer (length f < ?total))"
      if "byte_at f 0 = Some (p ! 0)" "byte_at f 1 = Some (p ! 1)"
        "frame_length f (p ! 1) = Some (LengthIs n offset)" for f
      unfolding parse_frame_def Let_def that bind.bind_lunit FrameLength.case by (simp add: answer_def)
    then have "parse_frame role max_message p = Some (answer (length p < ?total))"
        "parse_frame role max_message (p @ q) = Some (answer (length (p @ q) < ?total))"
      using bytes parsed frame_length_append [OF parsed, of q] LengthIs by blast+
    moreover have "answer (length p < ?total) = found" using calculation(1) assms(1) by simp
    moreover have "answer True = Incomplete \<or> answer True = answer False" by (simp add: answer_def)
    ultimately show ?thesis using assms(2)
      by (cases "length p < ?total"; cases "length (p @ q) < ?total") auto
  qed
qed

lemma frame_payload_append:
  assumes "parse_frame role max_message p = Some (Complete h)"
  shows "frame_payload h (p @ q) = frame_payload h p"
  using parse_frame_CompleteD(3,4) [OF assms] by (simp add: frame_payload_def split: if_splits)

lemma stream_run_append:
  "stream_run rand c p = Some (None, c', p') \<Longrightarrow> core_ok c \<Longrightarrow>
   stream_run rand c (p @ q)
     = (if ws_error c' = None then stream_run rand c' (p' @ q) else Some (None, c', p' @ q))"
proof (induction rand c p arbitrary: c' p' rule: stream_run.induct)
  case (1 rand c p)
  show ?case
  proof (cases "ws_error c = None \<and> 2 \<le> length p")
    case False
    with 1(2) have "c' = c" "p' = p" by (auto simp: stream_run.simps [of rand c p])
    then show ?thesis using False by (auto simp: stream_run.simps [of rand c "p @ q"])
  next
    case True
    with 1(2) obtain parsed where parsed: "parse_frame (ws_role c) (ws_max_message c) p = Some parsed"
      by (auto simp: stream_run.simps [of rand c p] split: option.splits)
    have longer: "parse_frame (ws_role c) (ws_max_message c) (p @ q) = Some parsed" if "parsed \<noteq> Incomplete"
      using parse_frame_append [OF parsed that] True by blast
    show ?thesis
    proof (cases parsed)
      case Incomplete
      with 1(2) True parsed show ?thesis by (simp add: stream_run.simps [of rand c p])
    next
      case (Malformed e)
      with 1(2) True parsed have "c' = Fail c e" "p' = p"
        by (auto simp: stream_run.simps [of rand c p])
      with Malformed True longer show ?thesis
        by (auto simp: stream_run.simps [of rand c "p @ q"])
    next
      case (Complete h)
      note found = parsed [unfolded Complete]
      have rest: "drop (fh_total h) (p @ q) = drop (fh_total h) p @ q"
        using parse_frame_total [OF found] by simp
      from 1(2) True found obtain step c1 where
        run: "absorb rand c h (frame_payload h p) = Some (step, c1)"
        by (auto simp: stream_run.simps [of rand c p] split: option.splits)
      have again: "absorb rand c h (frame_payload h (p @ q)) = Some (step, c1)"
        using run frame_payload_append [OF found] by simp
      have "keeps c (absorb rand c h (frame_payload h p))"
        using absorb_keeps [OF 1(3)] parse_frame_CompleteD(5) [OF found] frame_payload_length [OF found] by simp
      then have step: "step = Returned \<Longrightarrow> ws_error c1 \<noteq> None" and ok: "core_ok c1"
        using run by simp_all
      show ?thesis
      proof (cases step)
        case GoesOn
        then show ?thesis
          using 1(1) [OF True found refl run refl GoesOn _ ok] 1(2) True found longer Complete run again rest
          by (simp add: stream_run.simps [of rand c p] stream_run.simps [of rand c "p @ q"])
      qed (use 1(2) True found longer Complete run again rest step in
          \<open>auto simp: stream_run.simps [of rand c p] stream_run.simps [of rand c "p @ q"]\<close>)
    qed
  qed
qed

section \<open>Reachable codecs\<close>

text \<open>The codecs a caller can hold: a new one, and what any operation leaves of such a codec,
  with whatever arguments and whether it throws or not.\<close>

inductive reachable :: "(nat \<Rightarrow> u32 option) \<Rightarrow> WebSocketCodec \<Rightarrow> bool" for rand where
  created: "new_WebSocketCodec role max_inbound = Inr c \<Longrightarrow> reachable rand c"
| binary: "reachable rand c \<Longrightarrow> EncodeBinary rand c out payload = Some (t, c', out') \<Longrightarrow> reachable rand c'"
| fragmented: "reachable rand c \<Longrightarrow> EncodeBinaryFragmented rand c out payload split = Some (t, c', out') \<Longrightarrow>
    reachable rand c'"
| ping: "reachable rand c \<Longrightarrow> EncodePing rand c out data = Some (t, c', out') \<Longrightarrow> reachable rand c'"
| close: "reachable rand c \<Longrightarrow> EncodeClose rand c out code reason = Some (t, c', out') \<Longrightarrow> reachable rand c'"
| fed: "reachable rand c \<Longrightarrow> Feed rand c data = Some (t, c') \<Longrightarrow> reachable rand c'"
| drained: "reachable rand c \<Longrightarrow> TakeDrain c = (drain, c') \<Longrightarrow> reachable rand c'"
| replied: "reachable rand c \<Longrightarrow> TakeWireReplies c = (replies, c') \<Longrightarrow> reachable rand c'"

lemma ws_ok_simps [simp]:
  "ws_ok (after_draw c) = ws_ok c" "ws_ok (c\<lparr>ws_close_sent := b\<rparr>) = ws_ok c"
  "ws_ok (c\<lparr>ws_wire_replies := w\<rparr>) = ws_ok c" "ws_ok (Fail c e) = ws_ok c"
  by (simp_all add: ws_ok_def core_ok_def after_draw_def Fail_def)

lemma EncodeFrame_ok:
  "EncodeFrame rand c out opcode payload final = Some (t, c', out') \<Longrightarrow> ws_ok c' = ws_ok c"
  by (auto simp: EncodeFrame_eq Let_def split: if_splits)

lemma EncodeFrame_some:
  obtains t c' out' where "EncodeFrame rand c out opcode payload final = Some (t, c', out')"
proof -
  have "EncodeFrame rand c out opcode payload final \<noteq> None" by (simp add: EncodeFrame_eq Let_def)
  then show ?thesis using that by auto
qed

lemma payload_part_eq:
  assumes "offset + n \<le> payload_size payload"
  shows "\<exists>sub. payload_part payload offset n = Some sub \<and>
    p_first sub @ p_second sub = take n (drop offset (p_first payload @ p_second payload))"
  using assms by (auto simp: payload_part_def payload_size_def Let_def min_def)

lemma EncodeBinaryFragmented_run:
  obtains t c' out' where "EncodeBinaryFragmented rand c out payload split = Some (t, c', out')"
    and "ws_ok c' = ws_ok c"
proof -
  have "\<exists>t c' out'. EncodeBinaryFragmented rand c out payload split = Some (t, c', out') \<and> ws_ok c' = ws_ok c"
  proof (cases "0 < split \<and> split < payload_size payload")
    case True
    obtain front rest where parts: "payload_part payload 0 split = Some front"
        "payload_part payload split (payload_size payload - split) = Some rest"
      using payload_part_eq [of 0 split payload] payload_part_eq [of split "payload_size payload - split" payload] True
      by auto
    show ?thesis
      using True unfolding EncodeBinaryFragmented_def Let_def parts bind.bind_lunit
      by (auto simp: EncodeFrame_eq Let_def split: option.split)
  qed (auto simp: EncodeBinaryFragmented_def Let_def)
  then show ?thesis using that by blast
qed

lemma EncodeClose_eq:
  assumes "length reason \<le> 123"
  shows "EncodeClose rand c out code reason = do {
      (thrown, c, out) \<leftarrow> EncodeFrame rand c out 8 \<lparr>p_first = be16 code @ reason, p_second = []\<rparr> True;
      if thrown \<noteq> None then Some (thrown, c, out) else Some (None, c\<lparr>ws_close_sent := True\<rparr>, out) }"
proof -
  have low: "ucast (w AND 255 :: u16) = (ucast w :: u8)" for w
  proof -
    have "w AND 255 = take_bit 8 w" using take_bit_eq_mask [of 8 w] by (simp add: mask_eq_exp_minus_1)
    then show ?thesis by (simp add: bit_eq_iff bit_simps)
  qed
  have "put_byte (replicate 125 0) 0 a = Some (a # replicate 124 0)" for a :: u8
    by (simp add: put_byte_first)
  moreover have "put_byte (a # replicate 124 0) (Suc 0) b = Some ([a, b] @ replicate 123 0)" for a b :: u8
    using put_byte_next [of 1 "[a]" "replicate 124 0" b] by simp
  moreover have "copy_to ([a, b] @ replicate 123 0) 2 reason = Some ([a, b] @ reason @ replicate (123 - length reason) 0)"
    for a b using copy_to_next [of 2 "[a, b]" reason "replicate 123 0"] assms by simp
  moreover have "subspan (be16 code @ reason @ rest) 0 (2 + length reason) = Some (be16 code @ reason)" for rest
    using subspan_append [of 0 "[]" "2 + length reason" "be16 code @ reason" rest] by simp
  ultimately show ?thesis
    using assms unfolding EncodeClose_def low by (simp add: be16_def)
qed

lemma EncodeClose_run:
  obtains t c' out' where "EncodeClose rand c out code reason = Some (t, c', out')" and "ws_ok c' = ws_ok c"
proof (cases "length reason > 123")
  case True
  then show ?thesis using that by (simp add: EncodeClose_def)
next
  case False
  obtain t c1 out1 where run: "EncodeFrame rand c out 8 \<lparr>p_first = be16 code @ reason, p_second = []\<rparr> True
      = Some (t, c1, out1)"
    by (rule EncodeFrame_some)
  with False EncodeFrame_ok [OF run] show ?thesis
    using that by (cases t) (auto simp: EncodeClose_eq)
qed

lemma Feed_idle: "ws_error c \<noteq> None \<or> data = [] \<Longrightarrow> Feed rand c data = Some (None, c)"
  by (simp add: Feed_def)

lemma Feed_full:
  assumes "ws_ok c" and "ws_error c = None" and "data \<noteq> []"
    and "\<not> length (ws_pending c) + length data \<le> kMaxPendingBytes"
  shows "Feed rand c data = Some (None, Fail c InputLimit)"
proof -
  have "size_sub (length (ws_inbound c)) (ws_inbound_offset c) = Some (length (ws_pending c))"
      "size_sub kMaxPendingBytes (length (ws_pending c)) = Some (kMaxPendingBytes - length (ws_pending c))"
    using assms(1) by (auto simp: ws_ok_def ws_pending_def)
  moreover have "0 < length data" using assms(3) by simp
  with assms(4) have "length data > kMaxPendingBytes - length (ws_pending c)" by linarith
  ultimately show ?thesis using assms(2,3) by (simp add: Feed_def)
qed

lemma Feed_ok:
  assumes "ws_ok c"
  obtains t c' where "Feed rand c data = Some (t, c')" and "ws_ok c'"
proof (cases "ws_error c = None \<and> data \<noteq> []")
  case False
  then show ?thesis using that assms Feed_idle [of c data rand] by blast
next
  case True
  show ?thesis
  proof (cases "length (ws_pending c) + length data \<le> kMaxPendingBytes")
    case fits: True
    with True show ?thesis using Feed_run [OF assms, of data rand] that by blast
  next
    case False
    with True show ?thesis using Feed_full [OF assms, of data rand] that assms by auto
  qed
qed

lemma reachable_ok: "reachable rand c \<Longrightarrow> ws_ok c"
proof (induction rule: reachable.induct)
  case (created role max_inbound c)
  then show ?case by (auto simp: new_WebSocketCodec_def ws_ok_def core_ok_def split: if_splits)
next
  case (fragmented c out payload split t c' out')
  then show ?case using EncodeBinaryFragmented_run [of rand c out payload split] by auto
next
  case (close c out code reason t c' out')
  then show ?case using EncodeClose_run [of rand c out code reason] by auto
next
  case (fed c data t c')
  then show ?case using Feed_ok [of c rand data] by auto
qed (auto simp: EncodeBinary_def EncodePing_def TakeDrain_def TakeWireReplies_def dest: EncodeFrame_ok
    split: if_splits, simp_all add: ws_ok_def core_ok_def)

text \<open>A new codec with a small limit.\<close>

definition sample_codec :: "WebSocketRole \<Rightarrow> WebSocketCodec" where
  "sample_codec role = \<lparr>ws_role = role, ws_inbound = [], ws_inbound_offset = 0, ws_decoded = [],
     ws_fragmented = [], ws_wire_replies = [], ws_consumable = 0, ws_max_message = 1024,
     ws_fragmented_binary = False, ws_close_sent = False, ws_closed = False, ws_error = None,
     ws_observed = [], ws_draws = 0\<rparr>"

lemma sample_reachable: "reachable rand (sample_codec role)"
proof (rule reachable.created)
  show "new_WebSocketCodec role 1024 = Inr (sample_codec role)"
    by (simp add: new_WebSocketCodec_def kMaxMessageBytes_def sample_codec_def)
qed

text \<open>C10: in every state a caller can reach, the unread and the read input together, the decoded
  bytes and the partial message stay within their limits, and a partial message is held only
  while one is being received. The replies to be sent have no limit in the code and none here. No
  operation leaves a buffer or wraps a size around there, and every call of \<open>Feed\<close> returns.\<close>

theorem websocket_bounds:
  assumes "reachable rand c"
  shows "ws_inbound_offset c \<le> length (ws_inbound c) \<and> length (ws_inbound c) \<le> 32 * 1024 * 1024 \<and>
    length (ws_decoded c) \<le> 32 * 1024 * 1024 \<and> length (ws_fragmented c) \<le> ws_max_message c \<and>
    ws_max_message c \<le> 16 * 1024 * 1024 \<and> (ws_fragmented c \<noteq> [] \<longrightarrow> ws_fragmented_binary c) \<and>
    ws_consumable c < 2 ^ 64 \<and>
    Feed rand c data \<noteq> None \<and> EncodeBinary rand c out payload \<noteq> None \<and>
    EncodeBinaryFragmented rand c out payload split \<noteq> None \<and> EncodePing rand c out data \<noteq> None \<and>
    EncodeClose rand c out code reason \<noteq> None"
proof -
  have ok: "ws_ok c" by (rule reachable_ok [OF assms])
  obtain t c' where "Feed rand c data = Some (t, c')" by (rule Feed_ok [OF ok])
  moreover obtain t c' out' where "EncodeBinaryFragmented rand c out payload split = Some (t, c', out')"
    by (rule EncodeBinaryFragmented_run)
  moreover obtain t c' out' where "EncodeClose rand c out code reason = Some (t, c', out')"
    by (rule EncodeClose_run)
  ultimately show ?thesis
    using ok by (simp add: ws_ok_def core_ok_def kMaxPendingBytes_def kMaxMessageBytes_def size_max_def
        EncodeBinary_def EncodePing_def EncodeFrame_eq Let_def)
qed

theorem websocket_bounds_witness:
  "length (ws_inbound (sample_codec Server)) \<le> 32 * 1024 * 1024 \<and>
   Feed (\<lambda>_. None) (sample_codec Server) [130, 128] \<noteq> None"
  using websocket_bounds [OF sample_reachable [of "\<lambda>_. None" Server], of "[130, 128]"] by blast

text \<open>What a caller can see of a codec: everything but the bytes kept back, and those too unless
  the codec has failed and will never look at them again.\<close>

definition ws_view :: "WebSocketCodec \<Rightarrow> WebSocketCodec" where
  "ws_view c = with_input (if ws_error c = None then ws_pending c else []) 0 c"

lemma ws_view_cong:
  assumes "stripped c = stripped d" and "ws_error c = None \<Longrightarrow> ws_pending c = ws_pending d"
  shows "ws_view c = ws_view d"
proof -
  have "ws_error c = ws_error d" using arg_cong [OF assms(1), of ws_error] by simp
  moreover have "with_input i k c = with_input i k d" for i k
    using arg_cong [OF assms(1), of "with_input i k"] by simp
  ultimately show ?thesis using assms(2) by (simp add: ws_view_def)
qed

text \<open>C9: within the input limit, what a codec makes of its input does not depend on how it is cut. In every
  reachable state, if a first piece is taken without an exception and both pieces together with
  the unread bytes fit the input limit of 32 MiB, then feeding the second piece and feeding both at once end in the same way and show the
  same state: the same decoded bytes, replies, accounting, frames observed, error and unread
  bytes.\<close>

theorem feed_in_pieces:
  assumes "reachable rand c" and "Feed rand c first = Some (None, c1)"
    and "length (ws_pending c) + length first + length second \<le> kMaxPendingBytes"
  shows "\<exists>t c2 c3. Feed rand c1 second = Some (t, c2) \<and> Feed rand c (first @ second) = Some (t, c3) \<and>
    ws_view c2 = ws_view c3"
proof (cases "ws_error c = None \<and> first \<noteq> [] \<and> second \<noteq> []")
  case False
  then show ?thesis
  proof (cases "first = []")
    case True
    then have "c1 = c" using assms(2) Feed_idle [of c "[]" rand] by simp
    moreover obtain t c2 where "Feed rand c second = Some (t, c2)"
      by (rule Feed_ok [OF reachable_ok [OF assms(1)]])
    ultimately show ?thesis using True by simp
  next
    case first: False
    with False consider "ws_error c \<noteq> None" | "second = []" by auto
    then show ?thesis
      using assms(2) by cases (auto simp: Feed_idle)
  qed
next
  case True
  have ok: "ws_ok c" by (rule reachable_ok [OF assms(1)])
  obtain t1 d where run1: "Feed rand c first = Some (t1, d)"
      "stream_run rand (stripped c) (ws_pending c @ first) = Some (t1, stripped d, ws_pending d)" "ws_ok d"
    by (rule Feed_run [OF ok, of first rand]) (use True assms(3) in auto)
  then have d: "t1 = None" "d = c1" using assms(2) by simp_all
  obtain t3 c3 where run3: "Feed rand c (first @ second) = Some (t3, c3)"
      "stream_run rand (stripped c) ((ws_pending c @ first) @ second) = Some (t3, stripped c3, ws_pending c3)"
    by (rule Feed_run [OF ok, of "first @ second" rand]) (use True assms(3) in auto)
  have joined: "stream_run rand (stripped c) ((ws_pending c @ first) @ second)
      = (if ws_error c1 = None then stream_run rand (stripped c1) (ws_pending c1 @ second)
         else Some (None, stripped c1, ws_pending c1 @ second))"
    using stream_run_append [of rand "stripped c" "ws_pending c @ first" "stripped c1" "ws_pending c1" second]
      run1(2) d ok by (simp add: ws_ok_def)
  show ?thesis
  proof (cases "ws_error c1 = None")
    case fine: True
    have short: "length (ws_pending c1) \<le> length (ws_pending c @ first)"
      using stream_run_returns [of "stripped c" rand "ws_pending c @ first"] run1(2) d ok by (auto simp: ws_ok_def)
    obtain t2 c2 where run2: "Feed rand c1 second = Some (t2, c2)"
        "stream_run rand (stripped c1) (ws_pending c1 @ second) = Some (t2, stripped c2, ws_pending c2)"
      by (rule Feed_run [of c1 second rand]) (use run1(3) d fine True assms(3) short in auto)
    then have "t2 = t3" "stripped c2 = stripped c3" "ws_pending c2 = ws_pending c3"
      using joined run3(2) fine by simp_all
    then show ?thesis using run2(1) run3(1) ws_view_cong by blast
  next
    case broken: False
    then have "Feed rand c1 second = Some (None, c1)" by (simp add: Feed_def)
    moreover have "t3 = None" "stripped c3 = stripped c1" using joined run3(2) broken by simp_all
    moreover have "ws_view c1 = ws_view c3"
      using calculation(3) broken by (intro ws_view_cong) auto
    ultimately show ?thesis using run3(1) by blast
  qed
qed

theorem feed_in_pieces_witness:
  "\<exists>c2 c3. Feed (\<lambda>_. None) ((sample_codec Server)\<lparr>ws_inbound := [130]\<rparr>) [128] = Some (None, c2) \<and>
     Feed (\<lambda>_. None) (sample_codec Server) [130, 128] = Some (None, c3) \<and> ws_view c2 = ws_view c3"
proof -
  let ?c1 = "(sample_codec Server)\<lparr>ws_inbound := [130]\<rparr>"
  have one: "Feed (\<lambda>_. None) (sample_codec Server) [130] = Some (None, ?c1)"
    by (simp add: sample_codec_def Feed_def Let_def kMaxPendingBytes_def Process.simps)
  have two: "Feed (\<lambda>_. None) ?c1 [128] = Some (None, ?c1\<lparr>ws_inbound := [130, 128]\<rparr>)"
    by (simp add: sample_codec_def Feed_def Let_def kMaxPendingBytes_def Process.simps process_frame_def
        parse_frame_def frame_length_def)
  have "length (ws_pending (sample_codec Server)) + length [130 :: u8] + length [128 :: u8] \<le> kMaxPendingBytes"
    by (simp add: sample_codec_def ws_pending_def kMaxPendingBytes_def)
  from feed_in_pieces [OF sample_reachable one this] two show ?thesis by auto
qed



end
