(* ===== verification/Websocket_Roundtrip.thy ===== *)
theory Websocket_Roundtrip
  imports Websocket_Exchange
begin

text \<open>
  What one side of a WebSocket reads of the frames the other side writes.
\<close>

section \<open>Reading a written frame\<close>

lemma low_byte:
  assumes "n < 128"
  shows "of_nat n AND (127 :: u8) = of_nat n" and "of_nat n AND (128 :: u8) = 0"
proof -
  have "unat (take_bit 7 (of_nat n :: u8)) = unat (of_nat n :: u8)"
    unfolding unsigned_take_bit_eq using assms by (simp add: take_bit_eq_mod unat_of_nat)
  then have "take_bit 7 (of_nat n :: u8) = of_nat n" by (simp only: word_unat_eq_iff)
  then show low: "of_nat n AND (127 :: u8) = of_nat n"
    using take_bit_eq_mask [of 7 "of_nat n :: u8"] by (simp add: mask_eq_exp_minus_1)
  have "of_nat n AND (128 :: u8) = (of_nat n AND 127) AND 128" by (simp add: low)
  also have "\<dots> = 0" by (simp add: and.assoc)
  finally show "of_nat n AND (128 :: u8) = 0" .
qed

lemma next_byte: "push_bit 8 (drop_bit (s + 8) v) OR ucast (ucast (drop_bit s v) :: u8) = drop_bit s (v :: u64)"
  using bit_imp_le_length [of v] by (intro bit_word_eqI) (auto simp: bit_simps)

lemma ReadU64_be64: "foldl (\<lambda>value b. push_bit 8 value OR ucast b) 0 (be64 v) = v"
proof -
  have "drop_bit 64 v = 0" using bit_imp_le_length [of v] by (intro bit_word_eqI) (auto simp: bit_simps)
  then show ?thesis
    using next_byte [of 56 v] next_byte [of 48 v] next_byte [of 40 v] next_byte [of 32 v]
      next_byte [of 24 v] next_byte [of 16 v] next_byte [of 8 v] next_byte [of 0 v]
    by (simp add: be64_def)
qed

lemma join_be16: "push_bit 8 (ucast (ucast (drop_bit 8 v) :: u8)) OR ucast (ucast v :: u8) = (ucast (v :: u16) :: u64)"
  using bit_imp_le_length [of v] by (intro bit_word_eqI) (fastforce simp: bit_simps)

lemma size_words:
  "n < 256 \<Longrightarrow> ucast (of_nat n :: u8) = (of_nat n :: u64)"
  "n < 65536 \<Longrightarrow> ucast (of_nat n :: u16) = (of_nat n :: u64)"
  by (simp_all add: word_unat_eq_iff unsigned_ucast_eq unat_of_nat take_bit_eq_mod)

lemma unat_size: "n \<le> kMaxMessageBytes \<Longrightarrow> unat (of_nat n :: u64) = n"
  by (simp add: unat_of_nat kMaxMessageBytes_def)

definition mask_bit :: "bool \<Rightarrow> u8" where
  "mask_bit masked = (if masked then 128 else 0)"

lemma frame_length_wire:
  assumes "n \<le> kMaxMessageBytes"
  obtains second rest where "length_field masked n = second # rest" and "second AND 128 \<noteq> 0 \<longleftrightarrow> masked"
    and "frame_length (b # second # rest @ tail) second = Some (LengthIs (of_nat n) (2 + length rest))"
proof -
  consider "n < 126" | "126 \<le> n" "n \<le> 65535" | "65535 < n" by linarith
  then show ?thesis
  proof cases
    case 1
    let ?second = "mask_bit masked OR of_nat n"
    have "?second AND 127 = of_nat n" "?second AND 128 = mask_bit masked"
      using low_byte [of n] 1 by (simp_all add: mask_bit_def bit.conj_disj_distrib2)
    moreover have "of_nat n \<noteq> (126 :: u8)" "of_nat n \<noteq> (127 :: u8)"
      using 1 by (simp_all add: word_unat_eq_iff unat_of_nat)
    ultimately show ?thesis using 1 that [of ?second "[]"]
      by (simp add: length_field_def frame_length_def Let_def mask_bit_def size_words)
  next
    case 2
    let ?v = "of_nat n :: u16"
    have v: "push_bit 8 (ucast (ucast (drop_bit 8 ?v) :: u8)) OR ucast (ucast ?v :: u8) = (of_nat n :: u64)"
      using 2 by (simp only: join_be16) (simp add: size_words)
    have "\<not> of_nat n < (126 :: u64)" using 2 unat_size [OF assms] by (simp add: word_less_nat_alt)
    then show ?thesis using 2 v that [of "mask_bit masked OR 126" "be16 ?v"]
      by (simp add: length_field_def frame_length_def Let_def mask_bit_def be16_def)
  next
    case 3
    let ?v = "of_nat n :: u64"
    have v: "unat ?v = n" by (rule unat_size [OF assms])
    have "\<not> ?v \<le> 65535" using 3 v by (simp add: word_le_nat_alt)
    moreover have "unat (drop_bit 63 ?v) = 0"
      unfolding unat_drop_bit_eq v using assms by (simp add: drop_bit_eq_div kMaxMessageBytes_def)
    then have "drop_bit 63 ?v = 0" by (simp only: unat_eq_0)
    moreover have "ReadU64 (b # second # be64 ?v @ tail) 2 = Some ?v" for second
      using subspan_append [of 2 "[b, second]" 8 "be64 ?v" tail] by (simp add: ReadU64_def ReadU64_be64)
    ultimately show ?thesis using 3 that [of "mask_bit masked OR 127" "be64 ?v"]
      by (simp add: length_field_def frame_length_def Let_def mask_bit_def)
  qed
qed

lemma length_frame_wire:
  "length (frame_wire opcode final key body)
     = HeaderBytes (length body) (key \<noteq> None) + length body + (case key of None \<Rightarrow> 0 | Some k \<Rightarrow> length k) - (if key = None then 0 else 4)"
  by (auto simp: frame_wire_def length_length_field HeaderBytes_def split: option.split)

text \<open>A key for a frame that goes to a codec of the given role: only a server's input is masked.\<close>

definition key_for :: "WebSocketRole \<Rightarrow> bytes option \<Rightarrow> bool" where
  "key_for role key = (case key of None \<Rightarrow> role = Client | Some k \<Rightarrow> role = Server \<and> length k = 4)"

lemma parse_wire:
  assumes "key_for role key" and "opcode \<in> {0, 2, 8, 9, 10}" and "length body \<le> kMaxMessageBytes"
    and "opcode \<in> {0, 2} \<Longrightarrow> length body \<le> max_message"
    and "opcode \<in> {8, 9, 10} \<Longrightarrow> final \<and> length body \<le> 125"
  obtains h where "parse_frame role max_message (frame_wire opcode final key body @ tail) = Some (Complete h)"
    and "fh_fin h = final" "fh_opcode h = opcode" "fh_masked h = (key \<noteq> None)"
    and "fh_payload_size h = of_nat (length body)"
    and "fh_total h = length (frame_wire opcode final key body)"
    and "frame_payload h (frame_wire opcode final key body @ tail) = body"
proof -
  let ?n = "length body" and ?masked = "key \<noteq> None" and ?b = "(if final then 128 else 0) OR (opcode AND 15) :: u8"
  let ?data = "case key of None \<Rightarrow> body | Some k \<Rightarrow> k @ masked_bytes k 0 body"
  obtain second rest where field: "length_field ?masked ?n = second # rest"
    and masked: "second AND 128 \<noteq> 0 \<longleftrightarrow> ?masked"
    and len: "frame_length (?b # second # rest @ ?data @ tail) second = Some (LengthIs (of_nat ?n) (2 + length rest))"
    by (rule frame_length_wire [OF assms(3)])
  let ?frame = "?b # second # rest @ ?data @ tail"
  have frame: "frame_wire opcode final key body @ tail = ?frame"
    unfolding frame_wire_def field by simp
  let ?h = "\<lparr>fh_fin = final, fh_masked = ?masked, fh_opcode = opcode, fh_payload_size = of_nat ?n,
    fh_offset = 2 + length rest, fh_total = 2 + length rest + (if ?masked then 4 else 0) + ?n\<rparr>"
  have first: "?b AND 112 = 0" "?b AND 128 \<noteq> 0 \<longleftrightarrow> final" "?b AND 15 = opcode"
    using assms(2) by auto
  have control: "opcode AND 8 \<noteq> 0 \<longleftrightarrow> opcode \<in> {8, 9, 10}" using assms(2) by auto
  have bytes: "byte_at ?frame 0 = Some ?b" "byte_at ?frame 1 = Some second" by (simp_all add: byte_at_def)
  have size: "unat (of_nat ?n :: u64) = ?n" by (rule unat_size [OF assms(3)])
  have role: "?masked \<longleftrightarrow> role = Server"
    using assms(1) by (cases role; cases key) (auto simp: key_for_def)
  have data: "length ?data = (if ?masked then 4 else 0) + ?n"
    using assms(1) by (auto simp: key_for_def split: option.split)
  have small: "\<not> of_nat ?n > (125 :: u64)" if "opcode \<in> {8, 9, 10}"
    using assms(5) [OF that] size by (simp add: word_less_nat_alt)
  have rest: "length rest \<le> 8" using frame_length_offset [OF len] by simp
  have large: "\<not> ?n > size_max - (2 + length rest) - (if role = Server then 4 else 0)"
    using rest assms(3) by (auto simp: size_max_def kMaxMessageBytes_def)
  have fits: "\<not> length ?frame < 2 + length rest + (if role = Server then 4 else 0) + ?n"
    using data role by simp
  have binary: "\<not> (opcode \<notin> {8, 9, 10} \<and> ?n > max_message)" using assms(2,4) by auto
  have "parse_frame role max_message ?frame = Some (Complete ?h)"
    unfolding parse_frame_def Let_def bytes bind.bind_lunit len FrameLength.case first control masked size role
    using large fits binary assms(5) small role by (cases "opcode \<in> {8, 9, 10}") (simp_all split del: if_split)
  moreover have "fh_total ?h = length (frame_wire opcode final key body)"
    using data arg_cong [OF frame, of length] by simp
  moreover have "frame_payload ?h ?frame = body"
  proof (cases key)
    case (Some k)
    have skip: "drop (2 + length rest + 4) (a # b # rest @ k @ more) = more" if "length k = 4" for a b :: u8 and more
      using that drop_append [of "length (a # b # rest @ k)" "a # b # rest @ k" more] by (simp add: add.commute)
    with Some assms(1) show ?thesis by (simp add: frame_payload_def size key_for_def Let_def)
  qed (simp add: frame_payload_def size Let_def)
  ultimately show ?thesis using that [of ?h] unfolding frame by simp
qed

section \<open>One frame of the machine\<close>

lemma stream_run_frame:
  assumes "ws_error c = None"
    and "parse_frame (ws_role c) (ws_max_message c) (wire @ tail) = Some (Complete h)"
    and "fh_total h = length wire" and "frame_payload h (wire @ tail) = body"
    and "absorb rand c h body = Some (GoesOn, c1)"
  shows "stream_run rand c (wire @ tail) = stream_run rand c1 tail"
proof -
  have "2 \<le> length (wire @ tail)" using parse_frame_total [OF assms(2)] by linarith
  then show ?thesis using assms by (subst stream_run.simps) simp
qed

lemma stream_run_Nil: "stream_run rand c [] = Some (None, c, [])"
  by (simp add: stream_run.simps)

definition frame_seen :: "u8 \<Rightarrow> bool \<Rightarrow> bytes option \<Rightarrow> nat \<Rightarrow> WebSocketFrameMetadata" where
  "frame_seen opcode final key n = \<lparr>fm_opcode = opcode, fm_final = final, fm_masked = (key \<noteq> None),
     fm_payload_bytes = of_nat n\<rparr>"

lemma header_at_most_14:
  "key_for role key \<Longrightarrow> length (frame_wire opcode final key body) - length body \<le> 14"
  using HeaderBytes_le [of "length body" "key \<noteq> None"]
  by (auto simp: length_frame_wire key_for_def split: option.splits)

lemma binary_frame_run:
  assumes "core_ok c" and "ws_error c = None" and "\<not> ws_fragmented_binary c" and "key_for (ws_role c) key"
    and "length body \<le> ws_max_message c" and "length (ws_decoded c) + length body \<le> kMaxPendingBytes"
    and "ws_consumable c + 14 \<le> size_max"
  shows "stream_run rand c (frame_wire 2 True key body @ tail)
    = stream_run rand (c\<lparr>ws_decoded := ws_decoded c @ body,
        ws_consumable := ws_consumable c + (length (frame_wire 2 True key body) - length body),
        ws_observed := ws_observed c @ [frame_seen 2 True key (length body)]\<rparr>) tail"
proof -
  let ?wire = "frame_wire 2 True key body"
  have n: "length body \<le> kMaxMessageBytes" using assms(1,5) by (simp add: core_ok_def)
  obtain h where h: "parse_frame (ws_role c) (ws_max_message c) (?wire @ tail) = Some (Complete h)"
    "fh_fin h = True" "fh_opcode h = 2" "fh_masked h = (key \<noteq> None)"
    "fh_payload_size h = of_nat (length body)" "fh_total h = length ?wire"
    "frame_payload h (?wire @ tail) = body"
    by (rule parse_wire [OF assms(4), of 2 body "ws_max_message c" True tail]) (use assms(5) n in auto)
  have room: "\<not> size_max - ws_consumable c < length ?wire - length body"
      "\<not> kMaxPendingBytes - length (ws_decoded c) < length body"
    using header_at_most_14 [OF assms(4), of 2 True body] assms(6,7) by linarith+
  then have "absorb rand c h body = Some (GoesOn, c\<lparr>ws_decoded := ws_decoded c @ body,
      ws_consumable := ws_consumable c + (length ?wire - length body),
      ws_observed := ws_observed c @ [frame_seen 2 True key (length body)]\<rparr>)"
    using assms h(2-6) unat_size [OF n]
    by (simp add: absorb_def handle_frame_def binary_frame_def account_frame_def fh_control_def frame_seen_def
        core_ok_def Let_def)
  then show ?thesis by (rule stream_run_frame [OF assms(2) h(1,6,7)])
qed

lemma first_fragment_run:
  assumes "core_ok c" and "ws_error c = None" and "\<not> ws_fragmented_binary c" and "key_for (ws_role c) key"
    and "length body \<le> ws_max_message c" and "ws_consumable c + 14 \<le> size_max"
  shows "stream_run rand c (frame_wire 2 False key body @ tail)
    = stream_run rand (c\<lparr>ws_fragmented := body, ws_fragmented_binary := True,
        ws_consumable := ws_consumable c + (length (frame_wire 2 False key body) - length body),
        ws_observed := ws_observed c @ [frame_seen 2 False key (length body)]\<rparr>) tail"
proof -
  let ?wire = "frame_wire 2 False key body"
  have n: "length body \<le> kMaxMessageBytes" using assms(1,5) by (simp add: core_ok_def)
  obtain h where h: "parse_frame (ws_role c) (ws_max_message c) (?wire @ tail) = Some (Complete h)"
    "fh_fin h = False" "fh_opcode h = 2" "fh_masked h = (key \<noteq> None)"
    "fh_payload_size h = of_nat (length body)" "fh_total h = length ?wire"
    "frame_payload h (?wire @ tail) = body"
    by (rule parse_wire [OF assms(4), of 2 body "ws_max_message c" False tail]) (use assms(5) n in auto)
  have room: "\<not> size_max - ws_consumable c < length ?wire - length body"
    using header_at_most_14 [OF assms(4), of 2 False body] assms(6) by linarith
  then have "absorb rand c h body = Some (GoesOn, c\<lparr>ws_fragmented := body, ws_fragmented_binary := True,
      ws_consumable := ws_consumable c + (length ?wire - length body),
      ws_observed := ws_observed c @ [frame_seen 2 False key (length body)]\<rparr>)"
    using assms h(2-6) unat_size [OF n]
    by (simp add: absorb_def handle_frame_def binary_frame_def account_frame_def fh_control_def frame_seen_def
        core_ok_def Let_def)
  then show ?thesis by (rule stream_run_frame [OF assms(2) h(1,6,7)])
qed

lemma last_fragment_run:
  assumes "core_ok c" and "ws_error c = None" and "ws_fragmented_binary c" and "key_for (ws_role c) key"
    and "length (ws_fragmented c) + length body \<le> ws_max_message c"
    and "length (ws_decoded c) + length (ws_fragmented c) + length body \<le> kMaxPendingBytes"
    and "ws_consumable c + 14 \<le> size_max"
  shows "stream_run rand c (frame_wire 0 True key body @ tail)
    = stream_run rand (c\<lparr>ws_decoded := ws_decoded c @ ws_fragmented c @ body, ws_fragmented := [],
        ws_fragmented_binary := False,
        ws_consumable := ws_consumable c + (length (frame_wire 0 True key body) - length body),
        ws_observed := ws_observed c @ [frame_seen 0 True key (length body)]\<rparr>) tail"
proof -
  let ?wire = "frame_wire 0 True key body"
  have n: "length body \<le> kMaxMessageBytes" using assms(1,5) by (simp add: core_ok_def)
  obtain h where h: "parse_frame (ws_role c) (ws_max_message c) (?wire @ tail) = Some (Complete h)"
    "fh_fin h = True" "fh_opcode h = 0" "fh_masked h = (key \<noteq> None)"
    "fh_payload_size h = of_nat (length body)" "fh_total h = length ?wire"
    "frame_payload h (?wire @ tail) = body"
    by (rule parse_wire [OF assms(4), of 0 body "ws_max_message c" True tail]) (use assms(5) n in auto)
  have room: "\<not> size_max - ws_consumable c < length ?wire - length body"
      "\<not> ws_max_message c - length (ws_fragmented c) < length body"
      "\<not> kMaxPendingBytes - length (ws_decoded c) < length (ws_fragmented c) + length body"
    using header_at_most_14 [OF assms(4), of 0 True body] assms(5-7) by linarith+
  then have "absorb rand c h body = Some (GoesOn, c\<lparr>ws_decoded := ws_decoded c @ ws_fragmented c @ body,
      ws_fragmented := [], ws_fragmented_binary := False,
      ws_consumable := ws_consumable c + (length ?wire - length body),
      ws_observed := ws_observed c @ [frame_seen 0 True key (length body)]\<rparr>)"
    using assms h(2-6) unat_size [OF n]
    by (simp add: absorb_def handle_frame_def continuation_frame_def account_frame_def fh_control_def frame_seen_def
        core_ok_def Let_def)
  then show ?thesis by (rule stream_run_frame [OF assms(2) h(1,6,7)])
qed

lemma two_fragments_run:
  assumes "core_ok c" and "ws_error c = None" and "\<not> ws_fragmented_binary c"
    and "key_for (ws_role c) key1" and "key_for (ws_role c) key2"
    and "length front + length rear \<le> ws_max_message c"
    and "length (ws_decoded c) + length front + length rear \<le> kMaxPendingBytes"
    and "ws_consumable c + 28 \<le> size_max"
  defines "w1 \<equiv> frame_wire 2 False key1 front" and "w2 \<equiv> frame_wire 0 True key2 rear"
  shows "stream_run rand c (w1 @ w2 @ tail) = stream_run rand (c\<lparr>ws_decoded := ws_decoded c @ front @ rear,
    ws_consumable := ws_consumable c + (length (w1 @ w2) - length (front @ rear)),
    ws_observed := ws_observed c @ [frame_seen 2 False key1 (length front), frame_seen 0 True key2 (length rear)]\<rparr>) tail"
proof -
  let ?c1 = "c\<lparr>ws_fragmented := front, ws_fragmented_binary := True,
    ws_consumable := ws_consumable c + (length w1 - length front),
    ws_observed := ws_observed c @ [frame_seen 2 False key1 (length front)]\<rparr>"
  have h: "length w1 - length front \<le> 14" "length w2 - length rear \<le> 14"
    using header_at_most_14 assms(4,5) by (auto simp: w1_def w2_def)
  have "length front \<le> length w1" "length rear \<le> length w2"
    by (auto simp: w1_def w2_def frame_wire_def split: option.split)
  then have sum: "(length w1 - length front) + (length w2 - length rear) = length (w1 @ w2) - length (front @ rear)"
    by simp
  have core: "core_ok ?c1" using assms(1,6,8) h by (auto simp: core_ok_def)
  have "stream_run rand c (w1 @ w2 @ tail) = stream_run rand ?c1 (w2 @ tail)"
    unfolding w1_def by (rule first_fragment_run) (use assms(1-4,6,8) in simp_all)
  also have "\<dots> = stream_run rand (?c1\<lparr>ws_decoded := ws_decoded ?c1 @ ws_fragmented ?c1 @ rear, ws_fragmented := [],
      ws_fragmented_binary := False, ws_consumable := ws_consumable ?c1 + (length w2 - length rear),
      ws_observed := ws_observed ?c1 @ [frame_seen 0 True key2 (length rear)]\<rparr>) tail"
    unfolding w2_def by (rule last_fragment_run) (use core assms(2,5-8) h(1) in simp_all)
  also have "?c1\<lparr>ws_decoded := ws_decoded ?c1 @ ws_fragmented ?c1 @ rear, ws_fragmented := [],
      ws_fragmented_binary := False, ws_consumable := ws_consumable ?c1 + (length w2 - length rear),
      ws_observed := ws_observed ?c1 @ [frame_seen 0 True key2 (length rear)]\<rparr>
    = c\<lparr>ws_decoded := ws_decoded c @ front @ rear,
      ws_consumable := ws_consumable c + (length (w1 @ w2) - length (front @ rear)),
      ws_observed := ws_observed c @ [frame_seen 2 False key1 (length front), frame_seen 0 True key2 (length rear)]\<rparr>"
    using assms(1,3) sum by (cases c) (simp add: core_ok_def add.assoc)
  finally show ?thesis .
qed

section \<open>Properties\<close>

text \<open>What an encoder appends for a peer of the other role.\<close>

lemma EncodeFrame_appends:
  assumes "EncodeFrame rand c out opcode payload final = Some (None, c', out')" and "ws_role d \<noteq> ws_role c"
  obtains key where "key_for (ws_role d) key"
    and "out' = out @ frame_wire opcode final key (p_first payload @ p_second payload)"
    and "c' = after_draw c"
proof -
  have "key_for (ws_role d) (drawn_key rand c)"
    using assms by (cases "ws_role c"; cases "ws_role d"; cases "rand (ws_draws c)")
      (auto simp: EncodeFrame_eq Let_def key_for_def drawn_key_def split: if_splits)
  moreover have "out' = out @ frame_wire opcode final (drawn_key rand c) (p_first payload @ p_second payload)"
      "c' = after_draw c"
    using assms(1) by (simp_all add: EncodeFrame_eq Let_def split: if_splits)
  ultimately show ?thesis using that by blast
qed

lemma frame_wire_length_le:
  assumes "key_for role key"
  shows "length (frame_wire opcode final key body) \<le> length body + 14"
  using header_at_most_14 [OF assms, of opcode final body] by simp

lemma frame_wire_ne [simp]: "frame_wire opcode final key body \<noteq> []"
  by (simp add: frame_wire_def)

text \<open>A codec between messages: it has not failed, has nothing unread and no message begun.\<close>

definition between_messages :: "WebSocketCodec \<Rightarrow> bool" where
  "between_messages d \<longleftrightarrow> ws_error d = None \<and> ws_pending d = [] \<and> \<not> ws_fragmented_binary d"

lemma Feed_whole_frames:
  assumes "reachable rand d" and "between_messages d" and "wire \<noteq> []" and "length wire \<le> kMaxPendingBytes"
    and "stream_run rand (stripped d) wire = Some (None, d1, [])"
  shows "\<exists>d'. Feed rand d wire = Some (None, d') \<and> ws_view d' = d1"
proof -
  have ok: "ws_ok d" by (rule reachable_ok [OF assms(1)])
  obtain t d' where "Feed rand d wire = Some (t, d')"
      "stream_run rand (stripped d) (ws_pending d @ wire) = Some (t, stripped d', ws_pending d')"
    by (rule Feed_run [OF ok, of wire rand]) (use assms(2-4) in \<open>auto simp: between_messages_def\<close>)
  with assms(2,5) show ?thesis by (simp add: between_messages_def ws_view_def)
qed

text \<open>C8: what \<open>EncodeBinary\<close> appends on one side, a codec of the other role between two messages
  reads as exactly that message, for every payload within its limits and every masking key:
  the payload is appended to the decoded bytes, the bytes of the frame that are not payload are
  released at once, the frame is observed once, and nothing is left unread.\<close>

theorem binary_round_trip:
  assumes "EncodeBinary rand c out payload = Some (None, c', out @ wire)"
    and "reachable rand' d" and "ws_role d \<noteq> ws_role c" and "between_messages d"
    and "payload_size payload \<le> ws_max_message d"
    and "length (ws_decoded d) + payload_size payload \<le> kMaxPendingBytes" and "ws_consumable d + 14 < 2 ^ 64"
  shows "\<exists>d'. Feed rand' d wire = Some (None, d') \<and>
    ws_view d' = (ws_view d)\<lparr>ws_decoded := ws_decoded d @ p_first payload @ p_second payload,
      ws_consumable := ws_consumable d + (length wire - payload_size payload),
      ws_observed := ws_observed d @ [\<lparr>fm_opcode = 2, fm_final = True, fm_masked = (ws_role d = Server),
        fm_payload_bytes = of_nat (payload_size payload)\<rparr>]\<rparr>"
proof -
  let ?body = "p_first payload @ p_second payload"
  have core: "core_ok (stripped d)" using reachable_ok [OF assms(2)] by (simp add: ws_ok_def)
  have "EncodeFrame rand c out 2 payload True = Some (None, c', out @ wire)"
    using assms(1) by (simp add: EncodeBinary_def split: if_splits)
  then obtain key where key: "key_for (ws_role d) key" and wire: "wire = frame_wire 2 True key ?body"
    by (rule EncodeFrame_appends [OF _ assms(3)]) simp
  have "length ?body = payload_size payload" by (simp add: payload_size_def)
  then have n: "length ?body \<le> ws_max_message (stripped d)" "length ?body \<le> kMaxMessageBytes"
      "length (ws_decoded (stripped d)) + length ?body \<le> kMaxPendingBytes"
    using assms(5,6) core by (simp_all add: core_ok_def)
  have short: "length wire \<le> kMaxPendingBytes"
    using frame_wire_length_le [OF key, of 2 True ?body] n(2)
    by (simp add: wire kMaxMessageBytes_def kMaxPendingBytes_def)
  have "stream_run rand' (stripped d) (frame_wire 2 True key ?body @ []) = Some (None,
      (stripped d)\<lparr>ws_decoded := ws_decoded (stripped d) @ ?body,
        ws_consumable := ws_consumable (stripped d) + (length (frame_wire 2 True key ?body) - length ?body),
        ws_observed := ws_observed (stripped d) @ [frame_seen 2 True key (length ?body)]\<rparr>, [])"
    by (subst binary_frame_run)
       (use core assms(4,7) key n in \<open>simp_all add: between_messages_def size_max_def stream_run_Nil\<close>)
  moreover have "(key \<noteq> None) = (ws_role d = Server)" using key by (auto simp: key_for_def split: option.splits)
  ultimately show ?thesis
    using Feed_whole_frames [OF assms(2,4) _ short] assms(4)
    by (simp add: wire between_messages_def ws_view_def frame_seen_def payload_size_def)
qed

theorem binary_round_trip_witness:
  "\<exists>d'. Feed (\<lambda>_. None) (sample_codec Client) [130, 3, 97, 98, 99] = Some (None, d') \<and> ws_decoded d' = [97, 98, 99]"
proof -
  let ?p = "\<lparr>p_first = [97 :: u8], p_second = [98, 99]\<rparr>"
  have sent: "EncodeBinary (\<lambda>_. None) (sample_codec Server) [] ?p
      = Some (None, sample_codec Server, [] @ [130, 3, 97, 98, 99])"
    by (simp add: EncodeBinary_def EncodeFrame_eq Let_def sample_codec_def kMaxMessageBytes_def FrameBytes_def
        HeaderBytes_def vector_max_size_def after_draw_def drawn_key_def frame_wire_def length_field_def)
  obtain d' where "Feed (\<lambda>_. None) (sample_codec Client) [130, 3, 97, 98, 99] = Some (None, d')"
      "ws_decoded (ws_view d') = [97, 98, 99]"
    using binary_round_trip [OF sent sample_reachable [of "\<lambda>_. None" Client]]
    by (auto simp: sample_codec_def between_messages_def ws_pending_def payload_size_def kMaxPendingBytes_def)
  then show ?thesis by (simp add: ws_view_def)
qed

lemma EncodeBinaryFragmented_appends:
  assumes "EncodeBinaryFragmented rand c out payload split = Some (None, c', out')"
    and "ws_role d \<noteq> ws_role c"
  defines "body \<equiv> p_first payload @ p_second payload"
  obtains key1 key2 where "key_for (ws_role d) key1" and "key_for (ws_role d) key2"
    and "0 < split" and "split < length body" and "ws_role c' = ws_role c"
    and "out' = out @ frame_wire 2 False key1 (take split body) @ frame_wire 0 True key2 (drop split body)"
proof -
  have split: "0 < split" "split < payload_size payload"
    using assms(1) by (auto simp: EncodeBinaryFragmented_def Let_def split: if_splits)
  obtain front rest where front: "payload_part payload 0 split = Some front" "p_first front @ p_second front = take split body"
    and rest: "payload_part payload split (payload_size payload - split) = Some rest"
      "p_first rest @ p_second rest = drop split body"
    using payload_part_eq [of 0 split payload] payload_part_eq [of split "payload_size payload - split" payload] split
    by (auto simp: body_def payload_size_def)
  obtain c1 out1 where one: "EncodeFrame rand c out 2 front False = Some (None, c1, out1)"
    and two: "EncodeFrame rand c1 out1 0 rest True = Some (None, c', out')"
    using assms(1) split unfolding EncodeBinaryFragmented_def Let_def front rest bind.bind_lunit
    by (auto simp: Option.bind_eq_Some_conv split: if_splits option.splits)
  obtain key1 where key1: "key_for (ws_role d) key1" "out1 = out @ frame_wire 2 False key1 (take split body)"
      "c1 = after_draw c"
    using EncodeFrame_appends [OF one assms(2)] front(2) by metis
  have "ws_role d \<noteq> ws_role c1" using assms(2) key1(3) by (auto simp: after_draw_def)
  from EncodeFrame_appends [OF two this] obtain key2 where "key_for (ws_role d) key2" "c' = after_draw c1"
      "out' = out1 @ frame_wire 0 True key2 (drop split body)"
    using rest(2) by metis
  with key1 split that show ?thesis by (simp add: body_def payload_size_def after_draw_def)
qed

text \<open>C21: a message that \<open>EncodeBinaryFragmented\<close> splits into two frames at any place is read, by a
  codec of the other role between two messages with room for it, as one message, the same bytes as if it had been sent whole; the frames are observed as a first
  part and a final continuation.\<close>

theorem fragmented_round_trip:
  assumes "EncodeBinaryFragmented rand c out payload split = Some (None, c', out @ wire)"
    and "reachable rand' d" and "ws_role d \<noteq> ws_role c" and "between_messages d"
    and "payload_size payload \<le> ws_max_message d"
    and "length (ws_decoded d) + payload_size payload \<le> kMaxPendingBytes" and "ws_consumable d + 28 < 2 ^ 64"
  shows "\<exists>d'. Feed rand' d wire = Some (None, d') \<and>
    ws_view d' = (ws_view d)\<lparr>ws_decoded := ws_decoded d @ p_first payload @ p_second payload,
      ws_consumable := ws_consumable d + (length wire - payload_size payload),
      ws_observed := ws_observed d @
        [\<lparr>fm_opcode = 2, fm_final = False, fm_masked = (ws_role d = Server), fm_payload_bytes = of_nat split\<rparr>,
         \<lparr>fm_opcode = 0, fm_final = True, fm_masked = (ws_role d = Server),
          fm_payload_bytes = of_nat (payload_size payload - split)\<rparr>]\<rparr>"
proof -
  define body where "body = p_first payload @ p_second payload"
  let ?d = "stripped d"
  have core: "core_ok ?d" using reachable_ok [OF assms(2)] by (simp add: ws_ok_def)
  obtain key1 key2 where keys: "key_for (ws_role d) key1" "key_for (ws_role d) key2"
    and split: "0 < split" "split < length body"
    and wire: "wire = frame_wire 2 False key1 (take split body) @ frame_wire 0 True key2 (drop split body)"
    unfolding body_def by (rule EncodeBinaryFragmented_appends [OF assms(1,3)]) simp
  have n: "length body = payload_size payload" "length (take split body) = split"
      "length (drop split body) = payload_size payload - split" "length body \<le> kMaxMessageBytes"
    using split assms(5) core by (simp_all add: body_def payload_size_def core_ok_def)
  have short: "length wire \<le> kMaxPendingBytes"
    using frame_wire_length_le [OF keys(1), of 2 False "take split body"] n
      frame_wire_length_le [OF keys(2), of 0 True "drop split body"]
    by (simp add: wire kMaxMessageBytes_def kMaxPendingBytes_def)
  have run: "stream_run rand' ?d wire = Some (None, ?d\<lparr>ws_decoded := ws_decoded ?d @ take split body @ drop split body,
      ws_consumable := ws_consumable ?d + (length wire - length (take split body @ drop split body)),
      ws_observed := ws_observed ?d @ [frame_seen 2 False key1 (length (take split body)),
        frame_seen 0 True key2 (length (drop split body))]\<rparr>, [])"
    unfolding wire
    using two_fragments_run [of ?d key1 key2 "take split body" "drop split body" rand' "[]"] core assms(4-7) keys split n
    by (simp add: between_messages_def size_max_def stream_run_Nil)
  have role: "(key1 \<noteq> None) = (ws_role d = Server)" "(key2 \<noteq> None) = (ws_role d = Server)"
    using keys by (auto simp: key_for_def split: option.splits)
  have "wire \<noteq> []" by (simp add: wire)
  from Feed_whole_frames [OF assms(2,4) this short run] show ?thesis
    using assms(4) unfolding frame_seen_def role n body_def [symmetric] append_take_drop_id
    by (simp add: between_messages_def ws_view_def)
qed

theorem fragmented_round_trip_witness:
  "\<exists>d'. Feed (\<lambda>_. None) (sample_codec Client) [2, 1, 97, 128, 2, 98, 99] = Some (None, d') \<and>
     ws_decoded d' = [97, 98, 99]"
proof -
  let ?p = "\<lparr>p_first = [97 :: u8], p_second = [98, 99]\<rparr>"
  have sent: "EncodeBinaryFragmented (\<lambda>_. None) (sample_codec Server) [] ?p 1
      = Some (None, sample_codec Server, [] @ [2, 1, 97, 128, 2, 98, 99])"
    by (simp add: EncodeBinaryFragmented_def EncodeFrame_eq Let_def sample_codec_def kMaxMessageBytes_def
        FrameBytes_def HeaderBytes_def vector_max_size_def after_draw_def drawn_key_def frame_wire_def
        length_field_def payload_part_def payload_size_def ReserveFor_def)
  obtain d' where "Feed (\<lambda>_. None) (sample_codec Client) [2, 1, 97, 128, 2, 98, 99] = Some (None, d')"
      "ws_decoded (ws_view d') = [97, 98, 99]"
    using fragmented_round_trip [OF sent sample_reachable [of "\<lambda>_. None" Client]]
    by (auto simp: sample_codec_def between_messages_def ws_pending_def payload_size_def kMaxPendingBytes_def)
  then show ?thesis by (simp add: ws_view_def)
qed

end
