(* ===== verification/H2_Carrier.thy ===== *)
theory H2_Carrier
  imports Websocket_Codec
begin

text \<open>
  The outer carrier (\<^verbatim>\<open>src/src/stealth/h2_carrier.cpp\<close>) as far as it is about the carrier's stream: how
  it cuts the bytes of the tunnel into WebSocket messages, how it reads the peer's, and how it keeps
  account of the receive credit.

  The HTTP/2 library and the output side above it (the preface ping, the admission of bytes to a
  stream's queue, \<^verbatim>\<open>Flush\<close>) are parameters: for every use of them in turn, whether it succeeded and
  whether the carrier's stream ended meanwhile. Bytes that are handed to the queue of the stream are
  recorded in order. Streams of the cover, the opening of the carrier, traces and statistics are
  left out.
\<close>

section \<open>State\<close>

definition kMaxResponseBody :: nat where "kMaxResponseBody = 8 * 1024 * 1024"
definition kMaxQueuedOutput :: nat where "kMaxQueuedOutput = 32 * 1024 * 1024"
definition kAdmittedH2ReceiveWindowBytes :: nat where "kAdmittedH2ReceiveWindowBytes = 8 * 1024 * 1024"
definition kMaxAdmittedH2ReceiveWindowBytes :: nat where "kMaxAdmittedH2ReceiveWindowBytes = 128 * 1024 * 1024"
definition kCloseReason :: bytes where "kCloseReason = ascii ''session-complete''"

record H2Carrier =
  hc_role :: WebSocketRole
  hc_websocket :: WebSocketCodec
  hc_close_finished :: bool
  hc_tunnel_bytes :: bytes
  hc_received :: nat
  hc_unconsumed :: nat
  hc_failed :: bool
  hc_body_bytes :: nat
  hc_active :: bool
  hc_closed :: bool
  hc_graceful :: bool
  hc_fixture_sent :: bool
  hc_ping_sent :: bool
  hc_queued :: "bytes list"
  hc_calls :: nat

type_synonym http2 = "nat \<Rightarrow> bool \<times> bool"

definition Fail_carrier :: "H2Carrier \<Rightarrow> H2Carrier" where
  "Fail_carrier h = h\<lparr>hc_failed := True\<rparr>"

definition stream_ended :: "H2Carrier \<Rightarrow> H2Carrier" where
  "stream_ended h = h\<lparr>hc_closed := True, hc_active := False\<rparr>"

text \<open>One use of the HTTP/2 library; three such uses: \<open>Flush\<close>, the output queue, the preface ping.\<close>

definition call_http2 :: "http2 \<Rightarrow> H2Carrier \<Rightarrow> bool \<times> H2Carrier" where
  "call_http2 net h =
     (let (ok, ended) = net (hc_calls h);
          h = h\<lparr>hc_calls := Suc (hc_calls h)\<rparr>;
          h = (if ended then stream_ended h else h)
      in (ok, if ok then h else Fail_carrier h))"

definition Flush :: "http2 \<Rightarrow> H2Carrier \<Rightarrow> H2Carrier" where
  "Flush net h = (if hc_failed h then h else snd (call_http2 net h))"

definition QueueStreamBytes :: "http2 \<Rightarrow> bytes \<Rightarrow> H2Carrier \<Rightarrow> bool \<times> H2Carrier" where
  "QueueStreamBytes net bytes h =
     (let (admitted, h) = call_http2 net h in
      if \<not> admitted then (False, h)
      else let (resumed, h) = call_http2 net (h\<lparr>hc_queued := hc_queued h @ [bytes]\<rparr>) in
        if \<not> resumed then (False, h)
        else let h = Flush net h in (\<not> hc_failed h, h))"

definition MaybeSendPrefacePing :: "http2 \<Rightarrow> H2Carrier \<Rightarrow> bool \<times> H2Carrier" where
  "MaybeSendPrefacePing net h = (if hc_role h \<noteq> Client then (True, h) else call_http2 net h)"

section \<open>Sending\<close>

datatype SendResult = SendRefused | Encoded bytes

text \<open>The loop over the messages: an exception of the codec, or the bytes of all messages.\<close>

function send_messages ::
  "(nat \<Rightarrow> u32 option) \<Rightarrow> nat \<Rightarrow> WebSocketPayload \<Rightarrow> nat \<Rightarrow> H2Carrier \<Rightarrow> bytes \<Rightarrow>
   (WebSocketThrow option \<times> H2Carrier \<times> bytes) option" where
  "send_messages rand message_bytes data offset h wire =
     (if message_bytes = 0 then None
      else if offset < payload_size data then
        (let chunk = min message_bytes (payload_size data - offset);
             fixture = (hc_role h = Server \<and> \<not> hc_fixture_sent h \<and> chunk = message_bytes)
         in do {
           part \<leftarrow> payload_part data offset chunk;
           (thrown, ws, wire) \<leftarrow>
             (if fixture then EncodeBinaryFragmented rand (hc_websocket h) wire part (chunk div 2)
              else EncodeBinary rand (hc_websocket h) wire part);
           let h = h\<lparr>hc_websocket := ws\<rparr>;
           if thrown \<noteq> None then Some (thrown, h, wire)
           else send_messages rand message_bytes data (offset + chunk)
             (if fixture then h\<lparr>hc_fixture_sent := True\<rparr> else h) wire
         })
      else Some (None, h, wire))"
  by pat_completeness auto
termination
  by (relation "measure (\<lambda>(rand, m, data, offset, h, wire). payload_size data - offset)") auto

declare send_messages.simps [simp del]

text \<open>The size that is reserved for the encoded messages.\<close>

definition wire_size :: "nat \<Rightarrow> H2Carrier \<Rightarrow> nat \<Rightarrow> nat option" where
  "wire_size message_bytes h n =
     (if n \<noteq> 0 \<and> message_bytes = 0 then None
      else do {
        let messages = (if n = 0 then 1 else (n + message_bytes - 1) div message_bytes);
        let frame = FrameBytes (hc_websocket h);
        last_bytes \<leftarrow> size_sub n ((messages - 1) * message_bytes);
        let bytes = (messages - 1) * frame message_bytes + frame last_bytes;
        if hc_role h = Server \<and> \<not> hc_fixture_sent h \<and> n \<ge> message_bytes
        then size_sub (bytes + (frame (message_bytes div 2) + frame (message_bytes - message_bytes div 2))) (frame message_bytes)
        else Some bytes
      })"

text \<open>Everything up to the encoded messages; the message size is the cover profile's.\<close>

definition encode_messages ::
  "(nat \<Rightarrow> u32 option) \<Rightarrow> nat \<Rightarrow> H2Carrier \<Rightarrow> WebSocketPayload \<Rightarrow> (SendResult \<times> H2Carrier) option" where
  "encode_messages rand message_bytes h data =
     (let n = payload_size data;
          refuse = (\<lambda>h. Some (SendRefused, Fail_carrier h))
      in if \<not> hc_active h \<or> hc_closed h \<or> hc_failed h \<or> n > kMaxQueuedOutput then refuse h
         else do {
           bytes \<leftarrow> wire_size message_bytes h n;
           if bytes > kMaxQueuedOutput then refuse h
           else do {
             (thrown, h, wire) \<leftarrow> (if n = 0 then Some (None, h, []) else send_messages rand message_bytes data 0 h []);
             if thrown \<noteq> None then refuse h
             else if n = 0 then do {
               (thrown, ws, wire) \<leftarrow> EncodeBinary rand (hc_websocket h) wire data;
               let h = h\<lparr>hc_websocket := ws\<rparr>;
               if thrown \<noteq> None then refuse h else Some (Encoded wire, h)
             }
             else Some (Encoded wire, h)
           }
         })"

definition SendBinary ::
  "http2 \<Rightarrow> (nat \<Rightarrow> u32 option) \<Rightarrow> nat \<Rightarrow> H2Carrier \<Rightarrow> WebSocketPayload \<Rightarrow> (bool \<times> H2Carrier) option" where
  "SendBinary net rand message_bytes h data = do {
     (result, h) \<leftarrow> encode_messages rand message_bytes h data;
     case result of
       SendRefused \<Rightarrow> Some (False, h)
     | Encoded wire \<Rightarrow>
         (let (ok, h) = MaybeSendPrefacePing net h in
          if \<not> ok then Some (False, h) else Some (QueueStreamBytes net wire h))
   }"

definition GracefulClose ::
  "http2 \<Rightarrow> (nat \<Rightarrow> u32 option) \<Rightarrow> nat \<Rightarrow> u16 \<Rightarrow> H2Carrier \<Rightarrow> (bool \<times> H2Carrier) option" where
  "GracefulClose net rand close_payload_bytes websocket_code h =
     (if hc_role h \<noteq> Client then Some (False, Fail_carrier h)
      else if hc_failed h \<or> hc_graceful h \<or> \<not> hc_active h \<or> hc_closed h then Some (False, h)
      else do {
        let h = h\<lparr>hc_graceful := True\<rparr>;
        reason_bytes \<leftarrow> size_sub close_payload_bytes 2;
        let reason = map (\<lambda>i. kCloseReason ! (i mod length kCloseReason)) [0..<reason_bytes];
        (thrown, ws, close) \<leftarrow> EncodeClose rand (hc_websocket h) [] websocket_code reason;
        let h = h\<lparr>hc_websocket := ws\<rparr>;
        if thrown \<noteq> None then Some (False, Fail_carrier h)
        else let (ok, h) = MaybeSendPrefacePing net h in
          if \<not> ok then Some (False, h) else Some (QueueStreamBytes net close h)
      })"

section \<open>Receiving\<close>

definition ConsumeCarrierBytes :: "http2 \<Rightarrow> nat \<Rightarrow> H2Carrier \<Rightarrow> bool \<times> H2Carrier" where
  "ConsumeCarrierBytes net n h =
     (if n > hc_received h then (False, Fail_carrier h)
      else let (ok, h) = call_http2 net h in
        if \<not> ok then (False, h) else (True, h\<lparr>hc_received := hc_received h - n\<rparr>))"

text \<open>After the payload: the codec's replies, a server's one ping, and the end of the WebSocket.\<close>

definition answer_frames ::
  "http2 \<Rightarrow> (nat \<Rightarrow> u32 option) \<Rightarrow> bool \<Rightarrow> H2Carrier \<Rightarrow> H2Carrier option" where
  "answer_frames net rand had_decoded h =
     (let (replies, ws) = TakeWireReplies (hc_websocket h);
          h = h\<lparr>hc_websocket := ws\<rparr>;
          h = (if hc_role h = Server \<and> ws_closed ws \<and> \<not> hc_close_finished h
               then h\<lparr>hc_close_finished := True, hc_ping_sent := True\<rparr> else h);
          h = (if replies \<noteq> [] then snd (QueueStreamBytes net replies h) else h);
          finish = (\<lambda>h. if ws_closed (hc_websocket h) then h\<lparr>hc_closed := True\<rparr> else h)
      in if hc_role h = Server \<and> \<not> hc_ping_sent h \<and> had_decoded then do {
           (thrown, ws, ping) \<leftarrow> EncodePing rand (hc_websocket h) [] (ascii ''fixture-ping'');
           let h = h\<lparr>hc_websocket := ws\<rparr>;
           if thrown \<noteq> None then Some (Fail_carrier h)
           else Some (finish ((snd (QueueStreamBytes net ping h))\<lparr>hc_ping_sent := True\<rparr>))
         }
         else Some (finish h))"

definition HandleData :: "http2 \<Rightarrow> (nat \<Rightarrow> u32 option) \<Rightarrow> bytes \<Rightarrow> H2Carrier \<Rightarrow> H2Carrier option" where
  "HandleData net rand data h =
     (if \<not> hc_active h then
        let (ok, h) = (if data = [] then (True, h) else call_http2 net h) in
        if \<not> ok then Some h
        else let h = h\<lparr>hc_body_bytes := hc_body_bytes h + length data\<rparr> in
          Some (if hc_body_bytes h > kMaxResponseBody then Fail_carrier h else h)
      else do {
        room \<leftarrow> size_sub size_max (hc_received h);
        if length data > room then Some (Fail_carrier h)
        else do {
          let h = h\<lparr>hc_received := hc_received h + length data\<rparr>;
          (thrown, ws) \<leftarrow> Feed rand (hc_websocket h) data;
          if thrown \<noteq> None \<or> ws_error ws \<noteq> None then Some (Fail_carrier (h\<lparr>hc_websocket := ws\<rparr>))
          else let (drain, ws) = TakeDrain ws;
                   h = h\<lparr>hc_websocket := ws\<rparr>;
                   decoded = dr_tunnel_bytes drain
            in if dr_consumable drain > hc_received h \<or> length decoded > hc_received h - dr_consumable drain
               then Some (Fail_carrier h)
               else let (ok, h) = ConsumeCarrierBytes net (dr_consumable drain) h in
                 if \<not> ok then Some h
                 else if length decoded > kMaxAdmittedH2ReceiveWindowBytes -
                     min kMaxAdmittedH2ReceiveWindowBytes (length (hc_tunnel_bytes h))
                 then Some (Fail_carrier h)
                 else answer_frames net rand (decoded \<noteq> [])
                   (h\<lparr>hc_tunnel_bytes := hc_tunnel_bytes h @ decoded\<rparr>)
        }
      })"

text \<open>
  The data of the carrier's stream that the HTTP/2 library finds in a piece of plaintext, in order.
  The library stops at the first failure.
\<close>

fun data_chunks :: "http2 \<Rightarrow> (nat \<Rightarrow> u32 option) \<Rightarrow> bytes list \<Rightarrow> H2Carrier \<Rightarrow> H2Carrier option" where
  "data_chunks net rand [] h = Some h"
| "data_chunks net rand (data # rest) h = do {
     h \<leftarrow> HandleData net rand data h;
     if hc_failed h then Some h else data_chunks net rand rest h
   }"

definition Feed_carrier :: "http2 \<Rightarrow> (nat \<Rightarrow> u32 option) \<Rightarrow> bytes list \<Rightarrow> H2Carrier \<Rightarrow> H2Carrier option" where
  "Feed_carrier net rand chunks h =
     (if hc_failed h then Some h
      else do {
        h \<leftarrow> data_chunks net rand chunks h;
        if hc_failed h then Some h
        else let (ok, h) = call_http2 net h in
          Some (if \<not> ok then h else Flush net h)
      })"

definition TakeTunnelBytes :: "H2Carrier \<Rightarrow> bytes \<times> H2Carrier" where
  "TakeTunnelBytes h =
     (if hc_unconsumed h > hc_received h \<or> length (hc_tunnel_bytes h) > hc_received h - hc_unconsumed h
      then ([], Fail_carrier h)
      else (hc_tunnel_bytes h,
        h\<lparr>hc_unconsumed := hc_unconsumed h + length (hc_tunnel_bytes h), hc_tunnel_bytes := []\<rparr>))"

definition ConsumeTunnelBytes :: "http2 \<Rightarrow> nat \<Rightarrow> H2Carrier \<Rightarrow> bool \<times> H2Carrier" where
  "ConsumeTunnelBytes net n h =
     (if n > hc_unconsumed h then (False, Fail_carrier h)
      else if n = 0 then (\<not> hc_failed h, h)
      else let (ok, h) = ConsumeCarrierBytes net n h in
        if \<not> ok then (False, h)
        else let h = Flush net (h\<lparr>hc_unconsumed := hc_unconsumed h - n\<rparr>) in (\<not> hc_failed h, h))"

end
