(* ===== verification/Carrier_Messages.thy ===== *)
theory Carrier_Messages
  imports Websocket_Roundtrip H2_Carrier
begin

text \<open>
  What the outer carrier sends, its peer's codec reads: however the bytes are cut into messages
  and frames, the same bytes arrive.
\<close>

section \<open>What the peer reads\<close>

text \<open>
  The bytes \<open>W\<close> hold whole messages with the given content: a codec reads them, appends the content,
  and is again between two messages.
\<close>

definition reads :: "(nat \<Rightarrow> u32 option) \<Rightarrow> WebSocketCodec \<Rightarrow> bytes \<Rightarrow> bytes \<Rightarrow> WebSocketCodec \<Rightarrow> bool" where
  "reads rand e W body e' \<longleftrightarrow>
     (\<forall>tail. stream_run rand e (W @ tail) = stream_run rand e' tail) \<and> length body \<le> length W \<and>
     (\<exists>seen. e' = e\<lparr>ws_decoded := ws_decoded e @ body, ws_consumable := ws_consumable e + (length W - length body),
        ws_observed := ws_observed e @ seen\<rparr>)"

definition ready :: "WebSocketCodec \<Rightarrow> bool" where
  "ready e \<longleftrightarrow> core_ok e \<and> ws_error e = None \<and> \<not> ws_fragmented_binary e"

lemma reads_Nil: "reads rand e [] [] e"
  unfolding reads_def by (simp add: exI [of _ "[]"])

lemma reads_append:
  assumes "reads rand e W1 b1 e1" and "reads rand e1 W2 b2 e2"
  shows "reads rand e (W1 @ W2) (b1 @ b2) e2"
proof -
  have len: "length b1 \<le> length W1" "length b2 \<le> length W2" using assms by (simp_all add: reads_def)
  obtain s1 s2 where e1: "e1 = e\<lparr>ws_decoded := ws_decoded e @ b1, ws_consumable := ws_consumable e + (length W1 - length b1),
        ws_observed := ws_observed e @ s1\<rparr>"
    and e2: "e2 = e1\<lparr>ws_decoded := ws_decoded e1 @ b2, ws_consumable := ws_consumable e1 + (length W2 - length b2),
        ws_observed := ws_observed e1 @ s2\<rparr>"
    using assms unfolding reads_def by blast
  have "e2 = e\<lparr>ws_decoded := ws_decoded e @ b1 @ b2,
      ws_consumable := ws_consumable e + (length (W1 @ W2) - length (b1 @ b2)), ws_observed := ws_observed e @ s1 @ s2\<rparr>"
    unfolding e2 e1 using len by simp
  moreover have "stream_run rand e ((W1 @ W2) @ tail) = stream_run rand e2 tail" for tail
    using assms by (simp add: reads_def)
  ultimately show ?thesis using len unfolding reads_def by (auto intro: exI [of _ "s1 @ s2"])
qed

lemma reads_ready:
  assumes "reads rand e W body e'" and "ready e" and "length (ws_decoded e) + length body \<le> kMaxPendingBytes"
    and "ws_consumable e + length W \<le> size_max"
  shows "ready e'" and "ws_role e' = ws_role e" and "ws_max_message e' = ws_max_message e"
    and "ws_decoded e' = ws_decoded e @ body" and "ws_consumable e' + length body = ws_consumable e + length W"
  using assms by (auto simp: reads_def ready_def core_ok_def)

lemma frame_bytes_wire:
  assumes "key_for role key" and "role \<noteq> ws_role c"
  shows "length (frame_wire opcode final key body) = FrameBytes c (length body)"
proof -
  have "ws_role c = Client \<longleftrightarrow> key \<noteq> None"
    using assms by (cases role; cases "ws_role c") (auto simp: key_for_def split: option.splits)
  then show ?thesis
    using assms(1) by (auto simp: length_frame_wire FrameBytes_def key_for_def split: option.splits)
qed

lemma body_le_wire: "length body \<le> length (frame_wire opcode final key body)"
  by (auto simp: frame_wire_def split: option.split)

text \<open>One message, whole or in two frames.\<close>

lemma EncodeBinary_reads:
  fixes payload :: WebSocketPayload
  assumes "EncodeBinary rand c out payload = Some (None, c', out')" and "ws_role e \<noteq> ws_role c" and "ready e"
    and "payload_size payload \<le> ws_max_message e" and "length (ws_decoded e) + payload_size payload \<le> kMaxPendingBytes"
    and "ws_consumable e + 14 \<le> size_max"
  defines "body \<equiv> p_first payload @ p_second payload"
  obtains W e' where "out' = out @ W" and "reads rand' e W body e'" and "length W = FrameBytes c (length body)"
    and "c' = after_draw c" and "W \<noteq> []"
proof -
  have "EncodeFrame rand c out 2 payload True = Some (None, c', out')"
    using assms(1) by (simp add: EncodeBinary_def split: if_splits)
  then obtain key where key: "key_for (ws_role e) key" and wire: "out' = out @ frame_wire 2 True key body" and c': "c' = after_draw c"
    unfolding body_def by (rule EncodeFrame_appends [OF _ assms(2)])
  have n: "length body = payload_size payload" by (simp add: body_def payload_size_def)
  let ?W = "frame_wire 2 True key body"
  let ?e = "e\<lparr>ws_decoded := ws_decoded e @ body, ws_consumable := ws_consumable e + (length ?W - length body),
    ws_observed := ws_observed e @ [frame_seen 2 True key (length body)]\<rparr>"
  have "stream_run rand' e (?W @ tail) = stream_run rand' ?e tail" for tail
    by (rule binary_frame_run) (use assms(3-6) key n in \<open>simp_all add: ready_def\<close>)
  then have "reads rand' e ?W body ?e" unfolding reads_def using body_le_wire by blast
  then show ?thesis using that wire c' frame_bytes_wire [OF key assms(2)] frame_wire_ne by blast
qed

lemma EncodeBinaryFragmented_reads:
  fixes payload :: WebSocketPayload
  assumes "EncodeBinaryFragmented rand c out payload split = Some (None, c', out')" and "ws_role e \<noteq> ws_role c" and "ready e"
    and "payload_size payload \<le> ws_max_message e" and "length (ws_decoded e) + payload_size payload \<le> kMaxPendingBytes"
    and "ws_consumable e + 28 \<le> size_max"
  defines "body \<equiv> p_first payload @ p_second payload"
  obtains W e' where "out' = out @ W" and "reads rand' e W body e'"
    and "length W = FrameBytes c split + FrameBytes c (length body - split)" and "ws_role c' = ws_role c" and "W \<noteq> []"
proof -
  obtain key1 key2 where keys: "key_for (ws_role e) key1" "key_for (ws_role e) key2"
    and split: "0 < split" "split < length body" and role: "ws_role c' = ws_role c"
    and out': "out' = out @ frame_wire 2 False key1 (take split body) @ frame_wire 0 True key2 (drop split body)"
    unfolding body_def by (rule EncodeBinaryFragmented_appends [OF assms(1,2)])
  define front rear where "front = take split body" and "rear = drop split body"
  let ?w1 = "frame_wire 2 False key1 front" and ?w2 = "frame_wire 0 True key2 rear"
  let ?seen = "[frame_seen 2 False key1 (length front), frame_seen 0 True key2 (length rear)]"
  let ?e = "e\<lparr>ws_decoded := ws_decoded e @ body, ws_consumable := ws_consumable e + (length (?w1 @ ?w2) - length body),
    ws_observed := ws_observed e @ ?seen\<rparr>"
  have n: "front @ rear = body" "length front + length rear = payload_size payload"
    using split by (simp_all add: front_def rear_def) (simp add: body_def payload_size_def)
  have "stream_run rand' e ((?w1 @ ?w2) @ tail) = stream_run rand' ?e tail" for tail
    using two_fragments_run [of e key1 key2 front rear rand' tail] assms(3-6) keys n by (simp add: ready_def add.assoc)
  moreover have "length body \<le> length (?w1 @ ?w2)"
    using body_le_wire [of front 2 False key1] body_le_wire [of rear 0 True key2] n(1) by (metis add_mono length_append)
  ultimately have "reads rand' e (?w1 @ ?w2) body ?e" unfolding reads_def by blast
  moreover have "length (?w1 @ ?w2) = FrameBytes c split + FrameBytes c (length body - split)"
    using frame_bytes_wire [OF keys(1) assms(2)] frame_bytes_wire [OF keys(2) assms(2)] split by (simp add: front_def rear_def)
  ultimately show ?thesis using that out' role by (simp add: front_def rear_def)
qed

section \<open>All messages\<close>

text \<open>The size of the messages when none is split.\<close>

definition plain_size :: "(nat \<Rightarrow> nat) \<Rightarrow> nat \<Rightarrow> nat \<Rightarrow> nat" where
  "plain_size F m n =
     (if n = 0 then 0 else ((n + m - 1) div m - 1) * F m + F (n - ((n + m - 1) div m - 1) * m))"

lemma plain_size_step:
  assumes "0 < n" and "0 < m"
  shows "plain_size F m n = F (min m n) + plain_size F m (n - min m n)"
proof (cases "n \<le> m")
  case True
  then have "(n + m - 1) div m = 1" using assms by (intro div_nat_eqI) auto
  with True assms show ?thesis by (simp add: plain_size_def)
next
  case False
  define k where "k = n - m"
  have n: "n = k + m" "0 < k" using False by (simp_all add: k_def)
  have "n + m - 1 = (k + m - 1) + m" using n by simp
  moreover have "(k + m - 1 + m) div m = (k + m - 1) div m + 1" by (rule div_add_self2) (use assms(2) in simp)
  ultimately have "(n + m - 1) div m = (k + m - 1) div m + 1" by argo
  moreover have "1 \<le> (k + m - 1) div m" using n(2) assms(2) by (simp add: Suc_le_eq div_greater_zero_iff)
  ultimately obtain q where q: "(k + m - 1) div m = Suc q" "(n + m - 1) div m = Suc (Suc q)"
    by (cases "(k + m - 1) div m") auto
  have "min m n = m" "n - min m n = k" using n by simp_all
  with q n show ?thesis by (simp add: plain_size_def algebra_simps)
qed

definition splits_first :: "H2Carrier \<Rightarrow> nat \<Rightarrow> nat \<Rightarrow> bool" where
  "splits_first h m n \<longleftrightarrow> hc_role h = Server \<and> \<not> hc_fixture_sent h \<and> n \<ge> m"

lemma FrameBytes_role: "ws_role c = ws_role c' \<Longrightarrow> FrameBytes c = FrameBytes c'"
  by (simp add: FrameBytes_def fun_eq_iff)

lemma FrameBytes_le: "FrameBytes c n \<le> n + 14"
  using HeaderBytes_le [of n "ws_role c = Client"] by (simp add: FrameBytes_def)

lemma message_reads:
  assumes "(if split then EncodeBinaryFragmented rand c out part k else EncodeBinary rand c out part) = Some (None, c', out')"
    and "ws_role e \<noteq> ws_role c" and "ready e" and "payload_size part \<le> ws_max_message e"
    and "length (ws_decoded e) + payload_size part \<le> kMaxPendingBytes" and "ws_consumable e + 28 \<le> size_max"
  obtains W e' where "out' = out @ W" and "reads rand' e W (p_first part @ p_second part) e'" and "ws_role c' = ws_role c"
    and "length W = (if split then FrameBytes c k + FrameBytes c (payload_size part - k) else FrameBytes c (payload_size part))"
proof (cases split)
  case True
  then have "EncodeBinaryFragmented rand c out part k = Some (None, c', out')" using assms(1) by simp
  from EncodeBinaryFragmented_reads [OF this assms(2-6)] show ?thesis using that True by (metis length_append payload_size_def)
next
  case False
  then have "EncodeBinary rand c out part = Some (None, c', out')" using assms(1) by simp
  moreover have "ws_consumable e + 14 \<le> size_max" using assms(6) by simp
  ultimately obtain W e' where "out' = out @ W" "reads rand' e W (p_first part @ p_second part) e'"
      "length W = FrameBytes c (length (p_first part @ p_second part))" "c' = after_draw c"
    using EncodeBinary_reads [OF _ assms(2-5)] by metis
  then show ?thesis using that False by (auto simp: payload_size_def after_draw_def)
qed

lemma send_messages_reads:
  fixes data :: WebSocketPayload
  defines "body \<equiv> p_first data @ p_second data"
  shows "send_messages rand m data offset h wire = Some (None, h', wire') \<Longrightarrow> ws_role e \<noteq> ws_role (hc_websocket h) \<Longrightarrow>
    ready e \<Longrightarrow> m \<le> ws_max_message e \<Longrightarrow> offset \<le> length body \<Longrightarrow>
    length (ws_decoded e) + (length body - offset) \<le> kMaxPendingBytes \<Longrightarrow>
    ws_consumable e + 29 * (length body - offset) \<le> size_max \<Longrightarrow>
    \<exists>W e'. wire' = wire @ W \<and> reads rand' e W (drop offset body) e' \<and>
      (let F = FrameBytes (hc_websocket h); n = length body - offset; split = splits_first h m n \<and> n \<noteq> 0
       in length W + (if split then F m else 0) = plain_size F m n + (if split then F (m div 2) + F (m - m div 2) else 0))"
proof (induction "length body - offset" arbitrary: offset h wire e rule: less_induct)
  case less
  have n: "payload_size data = length body" by (simp add: body_def payload_size_def)
  have m: "m \<noteq> 0" using less.prems(1) by (cases m) (simp_all add: send_messages.simps [of rand 0])
  show ?case
  proof (cases "offset < length body")
    case False
    with less.prems(1,5) m n have "wire' = wire" "drop offset body = []" by (simp_all add: send_messages.simps)
    with False show ?thesis by (intro exI [of _ "[]"] exI [of _ e]) (simp add: reads_Nil plain_size_def Let_def)
  next
    case True
    define left chunk where "left = length body - offset" and "chunk = min m (length body - offset)"
    define split where "split \<longleftrightarrow> hc_role h = Server \<and> \<not> hc_fixture_sent h \<and> chunk = m"
    let ?ws = "hc_websocket h" and ?F = "FrameBytes (hc_websocket h)"
    have chunk: "0 < chunk" "offset + chunk \<le> length body" "chunk \<le> m" "chunk \<le> left" using True m by (auto simp: chunk_def left_def)
    obtain part where part: "payload_part data offset chunk = Some part" "p_first part @ p_second part = take chunk (drop offset body)"
      using payload_part_eq [of offset chunk data] chunk n by (auto simp: body_def)
    have size: "payload_size part = chunk" using arg_cong [OF part(2), of length] chunk by (simp add: payload_size_def)
    obtain ws' w' where enc: "(if split then EncodeBinaryFragmented rand ?ws wire part (chunk div 2) else EncodeBinary rand ?ws wire part)
          = Some (None, ws', w')"
      and rest: "send_messages rand m data (offset + chunk)
          (if split then h\<lparr>hc_websocket := ws', hc_fixture_sent := True\<rparr> else h\<lparr>hc_websocket := ws'\<rparr>) w' = Some (None, h', wire')"
      using less.prems(1) m True part(1) n unfolding send_messages.simps [of rand m data offset h wire]
      by (auto simp: Let_def chunk_def [symmetric] split_def [symmetric] split: Option.bind_splits if_splits)
    define h2 where "h2 = (if split then h\<lparr>hc_websocket := ws', hc_fixture_sent := True\<rparr> else h\<lparr>hc_websocket := ws'\<rparr>)"
    have room: "payload_size part \<le> ws_max_message e" "length (ws_decoded e) + payload_size part \<le> kMaxPendingBytes"
        "ws_consumable e + 28 \<le> size_max"
      using less.prems(4,6,7) chunk size True by (auto simp: left_def)
    obtain W1 e1 where W1: "w' = wire @ W1" "reads rand' e W1 (p_first part @ p_second part) e1" "ws_role ws' = ws_role ?ws"
        "length W1 = (if split then ?F (chunk div 2) + ?F (payload_size part - chunk div 2) else ?F (payload_size part))"
      by (rule message_reads [OF enc less.prems(2,3) room])
    note one = W1(2) [unfolded part(2)] and len1 = W1(4) [unfolded size]
    have over: "length W1 \<le> chunk + 28"
      using len1 FrameBytes_le [of ?ws "chunk div 2"] FrameBytes_le [of ?ws "chunk - chunk div 2"] FrameBytes_le [of ?ws chunk]
        div_le_dividend [of chunk 2] by (cases split) (simp_all, linarith)
    have len: "length (take chunk (drop offset body)) = chunk" using chunk by simp
    have "ws_consumable e + length W1 \<le> size_max" "length (ws_decoded e) + length (take chunk (drop offset body)) \<le> kMaxPendingBytes"
      using less.prems(6,7) over chunk len by (auto simp: left_def)
    from reads_ready [OF one less.prems(3) this(2,1)]
    have e1: "ready e1" "ws_role e1 = ws_role e" "ws_max_message e1 = ws_max_message e"
        "length (ws_decoded e1) = length (ws_decoded e) + chunk" "ws_consumable e1 + chunk = ws_consumable e + length W1"
      using len by simp_all
    have role: "ws_role (hc_websocket h2) = ws_role ?ws" using W1(3) by (simp add: h2_def)
    have frame: "FrameBytes (hc_websocket h2) = ?F" by (rule FrameBytes_role [OF role])
    have more: "length body - (offset + chunk) < length body - offset" "offset + chunk \<le> length body"
        "ws_role e1 \<noteq> ws_role (hc_websocket h2)" "m \<le> ws_max_message e1"
        "length (ws_decoded e1) + (length body - (offset + chunk)) \<le> kMaxPendingBytes"
        "ws_consumable e1 + 29 * (length body - (offset + chunk)) \<le> size_max"
      using chunk True e1 role less.prems(2,4,6,7) over by simp_all
    have left2: "length body - (offset + chunk) = left - chunk" by (simp add: left_def)
    from less.hyps [OF more(1) rest [folded h2_def] more(3) e1(1) more(4,2,5,6)]
    obtain W2 e2 where W2: "wire' = w' @ W2" "reads rand' e1 W2 (drop (offset + chunk) body) e2"
        "length W2 + (if splits_first h2 m (left - chunk) \<and> left - chunk \<noteq> 0 then ?F m else 0) = plain_size ?F m (left - chunk) +
          (if splits_first h2 m (left - chunk) \<and> left - chunk \<noteq> 0 then ?F (m div 2) + ?F (m - m div 2) else 0)"
      unfolding Let_def frame left2 by blast
    have no_more: "\<not> (splits_first h2 m (left - chunk) \<and> left - chunk \<noteq> 0)"
      using m by (auto simp: splits_first_def h2_def split_def chunk_def left_def min_def split: if_splits)
    have split: "split \<longleftrightarrow> splits_first h m left \<and> left \<noteq> 0" using chunk(1) m
      by (auto simp: split_def splits_first_def chunk_def left_def min_def)
    have sum: "plain_size ?F m left = ?F chunk + plain_size ?F m (left - chunk)"
      using plain_size_step [of left m ?F] True m by (simp add: left_def chunk_def)
    have chunk_m: "split \<Longrightarrow> chunk = m" by (simp add: split_def)
    have "reads rand' e (W1 @ W2) (drop offset body) e2"
      using reads_append [OF one W2(2)] by (metis add.commute append_take_drop_id drop_drop)
    moreover have "length (W1 @ W2) + (if splits_first h m left \<and> left \<noteq> 0 then ?F m else 0)
        = plain_size ?F m left + (if splits_first h m left \<and> left \<noteq> 0 then ?F (m div 2) + ?F (m - m div 2) else 0)"
      using W2(3) no_more len1 sum chunk_m unfolding split [symmetric] by auto
    ultimately show ?thesis using W1(1) W2(1) unfolding left_def [symmetric] Let_def by auto
  qed
qed

text \<open>What a carrier queues for its peer.\<close>

lemma wire_size_eq:
  fixes n :: nat and h :: H2Carrier
  assumes "0 < m" and "n \<noteq> 0"
  defines "F \<equiv> FrameBytes (hc_websocket h)"
  shows "wire_size m h n = (if splits_first h m n then size_sub (plain_size F m n + (F (m div 2) + F (m - m div 2))) (F m)
    else Some (plain_size F m n))"
proof -
  have "((n + m - 1) div m) * m \<le> n + m - 1" by simp
  then have "((n + m - 1) div m - 1) * m \<le> n" using assms(1) unfolding diff_mult_distrib mult_1 by linarith
  with assms show ?thesis by (auto simp: wire_size_def plain_size_def splits_first_def Let_def)
qed

lemma encode_messages_reads:
  fixes data :: WebSocketPayload
  assumes "encode_messages rand m h data = Some (Encoded wire, h')" and "ws_role e \<noteq> ws_role (hc_websocket h)" and "ready e"
    and "0 < m" and "m \<le> ws_max_message e" and "length (ws_decoded e) + payload_size data \<le> kMaxPendingBytes"
    and "ws_consumable e + 2 ^ 30 \<le> size_max"
  obtains e' where "reads rand' e wire (p_first data @ p_second data) e'"
    and "wire_size m h (payload_size data) = Some (length wire)" and "length wire \<le> kMaxQueuedOutput" and "wire \<noteq> []"
proof -
  let ?body = "p_first data @ p_second data" and ?F = "FrameBytes (hc_websocket h)"
  have n: "length ?body = payload_size data" by (simp add: payload_size_def)
  obtain bytes where bytes: "wire_size m h (payload_size data) = Some bytes" "bytes \<le> kMaxQueuedOutput"
    using assms(1) by (auto simp: encode_messages_def Let_def split: if_splits Option.bind_splits)
  have small: "payload_size data \<le> kMaxQueuedOutput" using assms(1) by (auto simp: encode_messages_def Let_def split: if_splits)
  have max: "0 < ws_max_message e" using assms(3) by (simp add: ready_def core_ok_def)
  show ?thesis
  proof (cases "payload_size data = 0")
    case True
    then obtain ws where enc: "EncodeBinary rand (hc_websocket h) [] data = Some (None, ws, wire)"
      using assms(1) bytes by (auto simp: encode_messages_def Let_def split: if_splits Option.bind_splits)
    have room: "payload_size data \<le> ws_max_message e" "ws_consumable e + 14 \<le> size_max" using True assms(7) by simp_all
    obtain W e' where W: "wire = [] @ W" "reads rand' e W ?body e'" "length W = ?F (length ?body)" "W \<noteq> []"
      by (rule EncodeBinary_reads [OF enc assms(2,3) room(1) assms(6) room(2)])
    have "bytes = ?F 0" using bytes(1) True assms(4) by (simp add: wire_size_def)
    with W bytes show ?thesis using that [of e'] n True by simp
  next
    case False
    then have sent: "send_messages rand m data 0 h [] = Some (None, h', wire)"
      using assms(1) bytes by (auto simp: encode_messages_def Let_def split: if_splits Option.bind_splits)
    have room: "length (ws_decoded e) + (length ?body - 0) \<le> kMaxPendingBytes" "ws_consumable e + 29 * (length ?body - 0) \<le> size_max"
      using assms(6,7) n small by (simp_all add: kMaxQueuedOutput_def)
    have le0: "0 \<le> length ?body" by simp
    obtain W e' where W: "wire = [] @ W" "reads rand' e W (drop 0 ?body) e'"
        "length W + (if splits_first h m (payload_size data) then ?F m else 0) = plain_size ?F m (payload_size data) +
          (if splits_first h m (payload_size data) then ?F (m div 2) + ?F (m - m div 2) else 0)"
      using send_messages_reads [OF sent assms(2,3,5) le0 room, where rand' = rand']
      by (simp only: Let_def n minus_nat.diff_0 False simp_thms) blast
    have "bytes = length wire"
      using wire_size_eq [OF assms(4), of "payload_size data" h] False bytes(1) W
      by (cases "splits_first h m (payload_size data)") (simp_all add: size_sub_eq_Some, linarith)
    moreover have "wire \<noteq> []" using W False n by (auto simp: reads_def)
    ultimately show ?thesis using that [of e'] W(1,2) bytes by simp
  qed
qed

lemma encode_messages_Feed:
  fixes data :: WebSocketPayload
  assumes "encode_messages rand m h data = Some (Encoded wire, h')" and "reachable rand' d"
    and "ws_role d \<noteq> ws_role (hc_websocket h)" and "between_messages d" and "0 < m" and "m \<le> ws_max_message d"
    and "length (ws_decoded d) + payload_size data \<le> kMaxPendingBytes" and "ws_consumable d + 2 ^ 30 < 2 ^ 64"
  obtains d' where "Feed rand' d wire = Some (None, d')"
    and "ws_decoded d' = ws_decoded d @ p_first data @ p_second data"
    and "ws_consumable d' = ws_consumable d + (length wire - payload_size data)" and "between_messages d'"
    and "wire_size m h (payload_size data) = Some (length wire)" and "length wire \<le> kMaxQueuedOutput"
proof -
  have "core_ok (stripped d)" using reachable_ok [OF assms(2)] by (simp add: ws_ok_def)
  then have ready: "ready (stripped d)" using assms(4) by (simp add: ready_def between_messages_def)
  obtain e' where e': "reads rand' (stripped d) wire (p_first data @ p_second data) e'"
      "wire_size m h (payload_size data) = Some (length wire)" "length wire \<le> kMaxQueuedOutput" "wire \<noteq> []"
    by (rule encode_messages_reads [OF assms(1) _ ready assms(5)]) (use assms in \<open>simp_all add: size_max_def\<close>)
  have run: "stream_run rand' (stripped d) wire = Some (None, e', [])"
    using e'(1) unfolding reads_def by (metis append_Nil2 stream_run_Nil)
  have "length wire \<le> kMaxPendingBytes" using e'(3) by (simp add: kMaxQueuedOutput_def kMaxPendingBytes_def)
  from Feed_whole_frames [OF assms(2,4) e'(4) this run]
  obtain d' where d': "Feed rand' d wire = Some (None, d')" "ws_view d' = e'" by blast
  obtain seen where "e' = (stripped d)\<lparr>ws_decoded := ws_decoded d @ p_first data @ p_second data,
      ws_consumable := ws_consumable d + (length wire - payload_size data), ws_observed := ws_observed d @ seen\<rparr>"
    using e'(1) by (auto simp: reads_def payload_size_def)
  note fields = arg_cong [OF trans [OF d'(2) this]]
  have "ws_error d' = None" using fields [of ws_error] assms(4) by (simp add: ws_view_def between_messages_def)
  then have "between_messages d'"
    using fields [of ws_fragmented_binary] fields [of ws_inbound] assms(4)
    by (simp add: ws_view_def between_messages_def)
  then show ?thesis
    using that [OF d'(1)] fields [of ws_decoded] fields [of ws_consumable] e' by (simp add: ws_view_def)
qed

text \<open>The bytes end up in the queue of the stream, once and unchanged.\<close>

lemma call_http2_queued [simp]: "hc_queued (snd (call_http2 net h)) = hc_queued h"
  by (simp add: call_http2_def Let_def split_def stream_ended_def Fail_carrier_def)

lemma Flush_queued [simp]: "hc_queued (Flush net h) = hc_queued h"
  by (simp add: Flush_def)

lemma QueueStreamBytes_queued: "fst (QueueStreamBytes net bytes h) \<Longrightarrow> hc_queued (snd (QueueStreamBytes net bytes h)) = hc_queued h @ [bytes]"
  by (simp add: QueueStreamBytes_def Let_def split_def split: if_splits)

lemma MaybeSendPrefacePing_queued [simp]: "hc_queued (snd (MaybeSendPrefacePing net h)) = hc_queued h"
  by (simp add: MaybeSendPrefacePing_def)

lemma SendBinary_queues:
  assumes "SendBinary net rand m h data = Some (True, h')"
  obtains wire h1 where "encode_messages rand m h data = Some (Encoded wire, h1)" and "hc_queued h' = hc_queued h1 @ [wire]"
proof -
  from assms obtain result h1 where encoded: "encode_messages rand m h data = Some (result, h1)"
    by (auto simp: SendBinary_def Option.bind_eq_Some_conv)
  then obtain wire where wire: "result = Encoded wire"
    using assms by (cases result) (auto simp: SendBinary_def)
  have "QueueStreamBytes net wire (snd (MaybeSendPrefacePing net h1)) = (True, h')"
    using assms encoded wire by (simp add: SendBinary_def Let_def split_def split: if_splits)
  with QueueStreamBytes_queued [of net wire "snd (MaybeSendPrefacePing net h1)"] encoded wire
  show ?thesis using that by simp
qed

lemma send_messages_step:
  assumes "send_messages rand m data offset h wire = Some (t, h', wire')"
  obtains (finished) "h' = h" | (thrown) ws where "h' = h\<lparr>hc_websocket := ws\<rparr>"
    | (more) ws sent wire1 where "offset < payload_size data" and "0 < m" and
        "send_messages rand m data (offset + min m (payload_size data - offset))
           (h\<lparr>hc_websocket := ws, hc_fixture_sent := sent\<rparr>) wire1 = Some (t, h', wire')"
proof -
  have m: "m \<noteq> 0" using assms by (cases m) (simp_all add: send_messages.simps [of rand 0])
  define chunk where "chunk = min m (payload_size data - offset)"
  let ?fixture = "hc_role h = Server \<and> \<not> hc_fixture_sent h \<and> chunk = m"
  show ?thesis
  proof (cases "offset < payload_size data")
    case False
    with assms m show ?thesis using finished by (simp add: send_messages.simps)
  next
    case True
    obtain thrown ws wire1 where run: "(if thrown \<noteq> None then Some (thrown, h\<lparr>hc_websocket := ws\<rparr>, wire1)
        else send_messages rand m data (offset + chunk)
          (if ?fixture then h\<lparr>hc_websocket := ws, hc_fixture_sent := True\<rparr> else h\<lparr>hc_websocket := ws\<rparr>) wire1)
        = Some (t, h', wire')"
      using assms m True unfolding send_messages.simps [of rand m data offset h wire]
      by (auto simp: Let_def chunk_def [symmetric] split: Option.bind_splits)
    show ?thesis
    proof (cases "thrown = None")
      case none: True
      have "(if ?fixture then h\<lparr>hc_websocket := ws, hc_fixture_sent := True\<rparr> else h\<lparr>hc_websocket := ws\<rparr>)
          = h\<lparr>hc_websocket := ws, hc_fixture_sent := (if ?fixture then True else hc_fixture_sent h)\<rparr>" by simp
      with run none show ?thesis using more [OF True] m unfolding chunk_def by auto
    qed (use run in \<open>auto intro: thrown\<close>)
  qed
qed

lemma send_messages_frame:
  "send_messages rand m data offset h wire = Some (t, h', wire') \<Longrightarrow>
   \<exists>ws sent. h' = h\<lparr>hc_websocket := ws, hc_fixture_sent := sent\<rparr>"
proof (induction "payload_size data - offset" arbitrary: offset h wire rule: less_induct)
  case less
  from less.prems show ?case
  proof (cases rule: send_messages_step)
    case finished
    then have "h' = h\<lparr>hc_websocket := hc_websocket h, hc_fixture_sent := hc_fixture_sent h\<rparr>" by simp
    then show ?thesis by blast
  next
    case (thrown ws)
    then have "h' = h\<lparr>hc_websocket := ws, hc_fixture_sent := hc_fixture_sent h\<rparr>" by simp
    then show ?thesis by blast
  next
    case (more ws sent wire1)
    then have "payload_size data - (offset + min m (payload_size data - offset)) < payload_size data - offset" by simp
    from less.hyps [OF this more(3)] obtain ws' sent' where
      "h' = h\<lparr>hc_websocket := ws, hc_fixture_sent := sent, hc_websocket := ws', hc_fixture_sent := sent'\<rparr>" by blast
    then have "h' = h\<lparr>hc_websocket := ws', hc_fixture_sent := sent'\<rparr>" by simp
    then show ?thesis by blast
  qed
qed

lemma encode_messages_frame:
  assumes "encode_messages rand m h data = Some (Encoded wire, h')"
  obtains ws sent where "h' = h\<lparr>hc_websocket := ws, hc_fixture_sent := sent\<rparr>"
proof (cases "payload_size data = 0")
  case True
  then obtain ws where "h' = h\<lparr>hc_websocket := ws\<rparr>"
    using assms by (auto simp: encode_messages_def Let_def split: if_splits Option.bind_splits)
  then have "h' = h\<lparr>hc_websocket := ws, hc_fixture_sent := hc_fixture_sent h\<rparr>" by simp
  then show ?thesis by (rule that)
next
  case False
  then have "send_messages rand m data 0 h [] = Some (None, h', wire)"
    using assms by (auto simp: encode_messages_def Let_def split: if_splits Option.bind_splits)
  from send_messages_frame [OF this] that show ?thesis by blast
qed

text \<open>C16: when \<open>SendBinary\<close> succeeds, it has added one entry to the output queue of the stream, within
  the limit and of exactly the size that was reserved for it. However the bytes were cut into
  messages and frames, a codec of the other role that is between two messages, takes messages
  of the profile's size and has room for the bytes reads the entry as exactly these bytes, in order; it is again between two
  messages then, and all bytes of the entry that are not payload are released.\<close>

theorem carrier_round_trip:
  fixes data :: WebSocketPayload
  assumes "SendBinary net rand m h data = Some (True, h')" and "reachable rand' d"
    and "ws_role d \<noteq> ws_role (hc_websocket h)" and "between_messages d" and "0 < m" and "m \<le> ws_max_message d"
    and "length (ws_decoded d) + payload_size data \<le> kMaxPendingBytes" and "ws_consumable d + 2 ^ 30 < 2 ^ 64"
  shows "\<exists>wire. hc_queued h' = hc_queued h @ [wire] \<and>
    wire_size m h (payload_size data) = Some (length wire) \<and> length wire \<le> kMaxQueuedOutput \<and>
    (\<exists>d'. Feed rand' d wire = Some (None, d') \<and> ws_decoded d' = ws_decoded d @ p_first data @ p_second data \<and>
      ws_consumable d' = ws_consumable d + (length wire - payload_size data) \<and> between_messages d')"
proof -
  obtain wire h1 where encoded: "encode_messages rand m h data = Some (Encoded wire, h1)"
    and queued: "hc_queued h' = hc_queued h1 @ [wire]" by (rule SendBinary_queues [OF assms(1)])
  obtain ws sent where "h1 = h\<lparr>hc_websocket := ws, hc_fixture_sent := sent\<rparr>" by (rule encode_messages_frame [OF encoded])
  with queued have "hc_queued h' = hc_queued h @ [wire]" by simp
  then show ?thesis by (rule_tac encode_messages_Feed [OF encoded assms(2-8)]) blast
qed

definition sample_carrier :: H2Carrier where
  "sample_carrier = \<lparr>hc_role = Server, hc_websocket = sample_codec Server, hc_close_finished = False,
     hc_tunnel_bytes = [], hc_received = 0, hc_unconsumed = 0, hc_failed = False, hc_body_bytes = 0,
     hc_active = True, hc_closed = False, hc_graceful = False, hc_fixture_sent = False, hc_ping_sent = False,
     hc_queued = [], hc_calls = 0\<rparr>"

theorem carrier_round_trip_witness:
  "\<exists>d'. Feed (\<lambda>_. None) (sample_codec Client) [2, 1, 97, 128, 1, 98, 130, 1, 99] = Some (None, d') \<and>
     ws_decoded d' = [97, 98, 99]"
proof -
  let ?p = "\<lparr>p_first = [97 :: u8], p_second = [98, 99]\<rparr>"
  let ?h = "sample_carrier\<lparr>hc_fixture_sent := True, hc_queued := [[2, 1, 97, 128, 1, 98, 130, 1, 99]], hc_calls := 3\<rparr>"
  have sent: "SendBinary (\<lambda>_. (True, False)) (\<lambda>_. None) 2 sample_carrier ?p = Some (True, ?h)"
    by (simp add: SendBinary_def encode_messages_def MaybeSendPrefacePing_def QueueStreamBytes_def call_http2_def Flush_def send_messages.simps wire_size_def EncodeBinary_def EncodeBinaryFragmented_def
        EncodeFrame_eq Let_def sample_carrier_def sample_codec_def kMaxMessageBytes_def kMaxQueuedOutput_def
        FrameBytes_def HeaderBytes_def vector_max_size_def after_draw_def drawn_key_def frame_wire_def
        length_field_def payload_part_def payload_size_def ReserveFor_def)
  have "ws_role (sample_codec Client) \<noteq> ws_role (hc_websocket sample_carrier)" "between_messages (sample_codec Client)"
      "(2 :: nat) \<le> ws_max_message (sample_codec Client)"
      "length (ws_decoded (sample_codec Client)) + payload_size ?p \<le> kMaxPendingBytes"
      "ws_consumable (sample_codec Client) + 2 ^ 30 < 2 ^ 64" "ws_decoded (sample_codec Client) = []"
    by (simp_all add: sample_carrier_def sample_codec_def between_messages_def ws_pending_def payload_size_def
        kMaxPendingBytes_def)
  moreover have "hc_queued ?h = hc_queued sample_carrier @ [wire] \<Longrightarrow> wire = [2, 1, 97, 128, 1, 98, 130, 1, 99]" for wire
    by (simp add: sample_carrier_def)
  ultimately show ?thesis
    using carrier_round_trip [OF sent sample_reachable [of "\<lambda>_. None" Client]] by auto
qed

end
