(* ===== verification/Spec2Isabelle.thy ===== *)
theory Spec2Isabelle
  imports Ytp_Key_Schedule Circuit_Relay Egress_Address Ip_Packet Udp_Queue_Budget
    Nat_Properties Accept_Progress Carrier_Messages
begin

text \<open>
  YUME, the Yume Universal Multiprotocol Engine.

  \<^bold>\<open>The program.\<close> YUME carries byte streams, datagrams and IP packets of applications between two
  peers. A peer speaks YTP/1 (\<^verbatim>\<open>src/src/ytp\<close>): records with a fixed header, capability manifests, OPEN
  requests and an authenticated key exchange. The records travel inside WebSocket messages on an
  HTTP/2 stream of a TLS connection that looks like that of a browser (\<^verbatim>\<open>src/src/stealth\<close>). Over
  several hops they are wrapped in cells of fixed sizes (\<^verbatim>\<open>src/src/circuit\<close>). An egress decides by
  address which destinations it may contact (\<^verbatim>\<open>src/src/common\<close>). The runtime (\<^verbatim>\<open>src/src/runtime\<close>)
  accepts sessions and translates the packets of a virtual network device to local connections.

  \<^bold>\<open>How the code is modelled.\<close> A C++ function is a HOL function with the same name where possible. A
  buffer is a list of 8-bit words, a fixed-width integer a word of its width, \<^verbatim>\<open>std::size_t\<close> a natural
  number. A read or write outside a buffer and a size difference that would wrap around are the
  value \<^term>\<open>None\<close> of an outer option; a refusal, an error code with its offset, is an ordinary value.
  An object with state is a record that its methods return updated. A source of random bytes, the
  driver of the accept scheduler and the message size of the cover profile are parameters.

  \<^bold>\<open>The theories.\<close>

  \<^item> \<open>Yume_Prelude\<close> has the machine types, the results, checked buffer accesses, the big-endian
    integers of \<^verbatim>\<open>ytp/detail/byte_order.hpp\<close> and the sort of the standard library.
    \<open>Codec_Interface\<close> has the two locales every wire codec is an instance of: neither side leaves a
    buffer, what was encoded decodes to the same value, and what decodes is the one encoding of
    its value. \<open>exact_codec\<close> is the case without a normal form.

  \<^item> \<open>Service_Name\<close> (\<^verbatim>\<open>common/service_name.hpp\<close>, the DNS names of \<^verbatim>\<open>ytp/protocol.cpp\<close>), \<open>Ytp_Frame\<close>
    (frame headers, records, credit), \<open>Ytp_Open\<close> (OPEN requests) and \<open>Ytp_Capabilities\<close> (manifests) model
    \<^verbatim>\<open>ytp/protocol.cpp\<close>. \<open>Ytp_Auth\<close> (AUTH records) and \<open>Ytp_Key_Schedule\<close> (the input of the key schedule)
    model \<^verbatim>\<open>ytp/security.cpp\<close>. Each codec is exact: the accepted bytes are the image of the encoder.
    The two scans for names are equivalent to their grammars. The key-schedule encoder works on
    an explicit memory, since its input spans may overlap its output; it returns for every input,
    writes only inside the output and only on success, and its encoding is injective.

  \<^item> \<open>Circuit_Cells\<close>, \<open>Circuit_Handshake\<close> and \<open>Circuit_Relay\<close> model \<^verbatim>\<open>circuit/protocol.cpp\<close>: cells and
    their buckets, CREATE and EXTEND handshakes, relay messages and BEGIN payloads. The codecs are
    exact, an accepted cell fills its bucket, and the bucket chosen for a payload is the least one.

  \<^item> \<open>Hex_Text\<close> (\<^verbatim>\<open>common/hex.hpp\<close>), \<open>Ip_Network\<close> (\<^verbatim>\<open>common/ip_network.hpp\<close>) and \<open>Egress_Address\<close>
    (\<^verbatim>\<open>common/egress_address.hpp\<close>) model the textual forms and the address policy; \<open>Ip_Text\<close>,
    \<open>Ip_Canonical\<close> and \<open>Ip_Match\<close> hold the proofs. The canonical parser accepts exactly what the printer
    writes, containment compares leading bits, and the test that a network can never match is
    exact for the classification of its addresses.

  \<^item> \<open>Ip_Packet\<close> (\<^verbatim>\<open>common/ip_packet.hpp\<close>) models the inspection of IP packets before the address policy.
    It reads only inside the packet, and a packet that passes has no option or header that would
    send it to another address than the one inspected.

  \<^item> \<open>Udp_Queue_Budget\<close> (\<^verbatim>\<open>common/udp_queue_budget.hpp\<close>) models the reservations of a UDP queue as a
    state machine and proves that it refines a bounded multiset of reservations.

  \<^item> \<open>Websocket_Mask\<close> and \<open>Websocket_Codec\<close> model \<^verbatim>\<open>stealth/websocket_codec.cpp\<close>. \<open>Websocket_Stream\<close> proves
    that the loop over the input buffer implements a machine on the unread bytes, \<open>Websocket_Exchange\<close>
    the bounds of all reachable states and that within the input limit its cutting does not matter, and
    \<open>Websocket_Roundtrip\<close> that messages of one side are read back by the other.
    \<open>H2_Carrier\<close> models the carrier's stream of \<^verbatim>\<open>stealth/h2_carrier.cpp\<close>: how it cuts the bytes it
    sends into messages and frames, how it reads the peer's, and its account of receive credit. The
    outcomes of the HTTP/2 library, the preface ping, the admission to a queue and \<^verbatim>\<open>Flush\<close> are
    parameters, and \<open>hc_queued\<close> is the history of what was handed to the queue. \<open>Carrier_Messages\<close>
    proves that the peer's codec reads the bytes that were sent.

  \<^item> \<open>Device_Nat\<close> models \<^verbatim>\<open>runtime/device_nat.cpp\<close>, the translation between a virtual network device and
    local listeners. \<open>Nat_Checksums\<close> and \<open>Nat_Packets\<close> prove its checksum arithmetic and the bytes of the
    packets it builds, \<open>Nat_Tables\<close> the invariant of the connection tables, \<open>Nat_Translation\<close> and
    \<open>Nat_Bridge\<close> what a packet becomes and the reachable states, and \<open>Nat_Properties\<close> the behaviour of
    a connection from its first segment to the release of its port. A valid checksum is defined
    there from the pseudo-header of the RFCs, not from the code's own sum.

  \<^item> \<open>Accept_Scheduler\<close> models \<^verbatim>\<open>runtime/accept_scheduler.hpp\<close>, with the status codes of
    \<^verbatim>\<open>engine/status.hpp\<close> from \<open>Engine_Status\<close>, which also has the limits of owned buffers
    (\<^verbatim>\<open>engine/buffer.cpp\<close>). \<open>Accept_Progress\<close> states the contract of its driver and proves that no
    listener is left idle, that a failure is final and that the calls return. It also shows that
    the scheduler can retry without a delay (\<open>retries_without_delay\<close>), which its comments exclude.

  \<^bold>\<open>Bounds and fuel.\<close> Loops are recursions with a termination proof: over the input that is left (the
  decoders, the option and header walks, the masking), over the bytes still to be sent, over the
  ports still to be tried. Only the accept scheduler has fuel, because a settlement may re-enter it
  from a call of the driver. \<open>arming_ends\<close> gives the fuel that is enough for drivers that settle their
  starts later; for the others no bound exists, as \<open>retries_without_delay\<close> shows. The invariants of the
  scheduler hold for every fuel with which a call returns.

  \<^bold>\<open>Not modelled.\<close> Memory exhaustion and the capacities of vectors. The
  64-bit range of clocks: time points and durations are unbounded integers. Cryptography, which the providers
  take from OpenSSL, and with it admission tokens and the protection of records. The HTTP/2 state
  machine, headers and flow control of nghttp2, and the TLS profiles. Asynchronous sockets, timers,
  threads and callbacks of the session engine, the providers and the runtime, whose content is the
  order of I/O operations of Boost.Asio. Configuration files, which a third-party JSON parser reads. Setup
  tools, service modules, the graphical interface and the C interface, which call the operating
  system or other libraries.
\<close>

end
